(* ===== verification/Prelude.thy ===== *)
theory Prelude
  imports Main "HOL-Library.Word" "HOL-Library.Monad_Syntax"
begin

text \<open>
  Shared vocabulary of the development.

  The model is that of the 64-bit DEBUG build of the Dart VM: \<open>ASSERT\<close> is a guard that aborts,
  and an expression whose C++ behaviour is undefined (signed overflow, a shift by the width of the
  type or more, a read outside an array) does not yield a value. Both are the value \<open>None\<close> of the
  option monad, so that "the operation returns \<open>Some\<close>" is the statement that no assertion of the
  source fails and that no undefined behaviour is reached.

  A C++ \<open>int64_t\<close> or \<open>intptr_t\<close> is an \<open>int\<close> together with the predicate \<open>in64\<close>; every
  operation of the source that may leave the 64-bit range is one of the checked operations below.
  Where the source works on the bits of an unsigned value the model uses \<open>word\<close>.
\<close>

subsection \<open>Collections of simplification rules\<close>

named_theorems run_simps \<open>evaluation of the option monad and of the checked operations\<close>
named_theorems konst \<open>the numeric constants of the source\<close>

subsection \<open>Integer constants\<close>

definition kMinInt32 :: int where [konst]: "kMinInt32 = -2147483648"
definition kMaxInt32 :: int where [konst]: "kMaxInt32 = 2147483647"
definition kMaxUint32 :: int where [konst]: "kMaxUint32 = 4294967295"
definition kMinInt64 :: int where [konst]: "kMinInt64 = -9223372036854775808"
definition kMaxInt64 :: int where [konst]: "kMaxInt64 = 9223372036854775807"
definition kSmiMin :: int where [konst]: "kSmiMin = -4611686018427387904"
definition kSmiMax :: int where [konst]: "kSmiMax = 4611686018427387903"

subsection \<open>Guards and checked arithmetic\<close>

definition ASSERT :: "bool \<Rightarrow> unit option" where
  "ASSERT b = (if b then Some () else None)"

definition in64 :: "int \<Rightarrow> bool" where
  "in64 x \<longleftrightarrow> kMinInt64 \<le> x \<and> x \<le> kMaxInt64"

definition chk64 :: "int \<Rightarrow> int option" where
  "chk64 x = (if in64 x then Some x else None)"

abbreviation add64 :: "int \<Rightarrow> int \<Rightarrow> int option" where
  "add64 a b \<equiv> chk64 (a + b)"

abbreviation sub64 :: "int \<Rightarrow> int \<Rightarrow> int option" where
  "sub64 a b \<equiv> chk64 (a - b)"

abbreviation mul64 :: "int \<Rightarrow> int \<Rightarrow> int option" where
  "mul64 a b \<equiv> chk64 (a * b)"

abbreviation neg64 :: "int \<Rightarrow> int option" where
  "neg64 a \<equiv> chk64 (- a)"

text \<open>
  C++ shifts of a 64-bit value are undefined for a count outside \<open>0..63\<close>. The shift of a negative
  value is the arithmetic one, as all supported compilers define it.
\<close>

definition shr64 :: "int \<Rightarrow> int \<Rightarrow> int option" where
  "shr64 x n = (if 0 \<le> n \<and> n < 64 then Some (drop_bit (nat n) x) else None)"

definition shl64 :: "int \<Rightarrow> int \<Rightarrow> int option" where
  "shl64 x n = (if 0 \<le> n \<and> n < 64 then chk64 (push_bit (nat n) x) else None)"

lemma ASSERT_True [simp, run_simps]: "ASSERT True = Some ()"
  by (simp add: ASSERT_def)

lemma ASSERT_False [simp, run_simps]: "ASSERT False = None"
  by (simp add: ASSERT_def)

lemma ASSERT_eq_Some [simp, run_simps]: "ASSERT b = Some u \<longleftrightarrow> b"
  by (simp add: ASSERT_def)

lemma bind_ASSERT_eq_Some [simp, run_simps]:
  "(do { ASSERT b; m }) = Some y \<longleftrightarrow> b \<and> m = Some y"
  by (simp add: ASSERT_def)

lemma bind_SomeE [elim!]:
  assumes "Option.bind m f = Some y"
  obtains x where "m = Some x" and "f x = Some y"
  using assms by (cases m) auto

lemma chk64_eq_Some [simp, run_simps]: "chk64 x = Some y \<longleftrightarrow> in64 x \<and> y = x"
  by (auto simp: chk64_def)

lemma chk64_in64 [simp, run_simps]: "in64 x \<Longrightarrow> chk64 x = Some x"
  by simp

lemma chk64_eq_None: "chk64 x = None \<longleftrightarrow> \<not> in64 x"
  by (simp add: chk64_def)

lemma in64_konst [simp]: "in64 kMinInt64" "in64 kMaxInt64" "in64 kSmiMin" "in64 kSmiMax"
    "in64 kMinInt32" "in64 kMaxInt32" "in64 kMaxUint32"
  by (simp_all add: in64_def konst)

lemma in64_small [simp]: "in64 0" "in64 1" "in64 (- 1)"
  by (simp_all add: in64_def konst)

lemma in64_between: "in64 a \<Longrightarrow> in64 b \<Longrightarrow> a \<le> x \<Longrightarrow> x \<le> b \<Longrightarrow> in64 x"
  by (simp add: in64_def)

lemma in64_if [simp]: "in64 (if b then x else y) \<longleftrightarrow> (if b then in64 x else in64 y)"
  by simp

lemma konst_order [simp]:
  "kMinInt64 < kMaxInt64" "kSmiMin < kSmiMax" "kMinInt32 < kMaxInt32"
  "kMinInt64 < kSmiMin" "kSmiMax < kMaxInt64" "kSmiMin \<le> 0" "0 \<le> kSmiMax"
  by (simp_all add: konst)

subsection \<open>Generic facts on integers and shifts\<close>

lemma drop_bit_int_bounds:
  fixes x :: int
  shows "drop_bit n x * 2 ^ n \<le> x" and "x < (drop_bit n x + 1) * 2 ^ n"
proof -
  have e: "x div 2 ^ n * 2 ^ n + x mod 2 ^ n = x" by (rule div_mult_mod_eq)
  have m: "0 \<le> x mod 2 ^ n" "x mod 2 ^ n < 2 ^ n" by simp_all
  show "drop_bit n x * 2 ^ n \<le> x"
    using e m unfolding drop_bit_eq_div by linarith
  show "x < (drop_bit n x + 1) * 2 ^ n"
    using e m unfolding drop_bit_eq_div distrib_right by linarith
qed

lemma drop_bit_int_mono: "(x::int) \<le> y \<Longrightarrow> drop_bit n x \<le> drop_bit n y"
  by (simp add: drop_bit_eq_div zdiv_mono1)

lemma drop_bit_int_le: "0 \<le> (x::int) \<Longrightarrow> drop_bit n x \<le> x"
  using zdiv_mono2 [of x 1 "2 ^ n"] by (simp add: drop_bit_eq_div)

subsection \<open>Arrays\<close>

text \<open>An array is a list; reading or writing outside of it is an error.\<close>

type_synonym byte = "8 word"

definition read_at :: "'a list \<Rightarrow> int \<Rightarrow> 'a option" where
  "read_at xs i = (if 0 \<le> i \<and> i < int (length xs) then Some (xs ! nat i) else None)"

definition write_at :: "'a list \<Rightarrow> int \<Rightarrow> 'a \<Rightarrow> 'a list option" where
  "write_at xs i v = (if 0 \<le> i \<and> i < int (length xs) then Some (xs[nat i := v]) else None)"

lemma read_at_int [simp]: "i < length xs \<Longrightarrow> read_at xs (int i) = Some (xs ! i)"
  by (simp add: read_at_def)

lemma write_at_int [simp]: "i < length xs \<Longrightarrow> write_at xs (int i) v = Some (xs[i := v])"
  by (simp add: write_at_def)

end
