(* ===== verification/Dart_Utils.thy ===== *)
theory Dart_Utils
  imports Prelude
begin

text \<open>
  The helpers of \<open>platform/utils.h\<close> and \<open>platform/utils.cc\<close>: alignment and rounding on machine
  words, bit counting, overflow tests, hex digits and the two hash functions. The templates are
  modelled at the types at which the modelled components use them: \<open>int64_t\<close> (\<open>int\<close> with
  \<open>in64\<close>) for the signed helpers and \<open>uword\<close> (\<open>64 word\<close>) for the ones that work on bits.
\<close>

unbundle bit_operations_syntax

type_synonym uword = "64 word"

subsection \<open>Signed helpers\<close>

definition Minimum :: "int \<Rightarrow> int \<Rightarrow> int" where
  "Minimum x y = (if x < y then x else y)"

definition Maximum :: "int \<Rightarrow> int \<Rightarrow> int" where
  "Maximum x y = (if x > y then x else y)"

definition Abs :: "int \<Rightarrow> int option" where
  "Abs x = (if x < 0 then neg64 x else Some x)"

definition IsInt :: "int \<Rightarrow> int \<Rightarrow> bool option" where
  "IsInt N value = do {
     ASSERT (0 < N \<and> N < 64);
     limit \<leftarrow> shl64 1 (N - 1);
     Some (- limit \<le> value \<and> value < limit)
   }"

definition IsUint :: "int \<Rightarrow> int \<Rightarrow> bool option" where
  "IsUint N value = do {
     ASSERT (0 < N \<and> N < 64);
     limit \<leftarrow> shl64 1 N;
     Some (0 \<le> value \<and> value < limit)
   }"

definition IsAbsoluteUint :: "int \<Rightarrow> int \<Rightarrow> bool option" where
  "IsAbsoluteUint N value = do {
     ASSERT (0 < N \<and> N < 64);
     value \<leftarrow> (if value < 0 then neg64 value else Some value);
     IsUint N value
   }"

definition RangeCheck :: "int \<Rightarrow> int \<Rightarrow> int \<Rightarrow> bool option" where
  "RangeCheck offset count len =
     (if \<not> offset \<ge> 0 then Some False
      else if \<not> count \<ge> 0 then Some False
      else if \<not> len \<ge> 0 then Some False
      else do { d \<leftarrow> sub64 len offset; Some (count \<le> d) })"

definition WillAddOverflow :: "int \<Rightarrow> int \<Rightarrow> bool option" where
  "WillAddOverflow a b = do {
     pos \<leftarrow> (if b > 0 then do { l \<leftarrow> sub64 kMaxInt64 b; Some (a > l) } else Some False);
     if pos then Some True
     else if b < 0 then do { l \<leftarrow> sub64 kMinInt64 b; Some (a < l) } else Some False
   }"

definition WillSubOverflow :: "int \<Rightarrow> int \<Rightarrow> bool option" where
  "WillSubOverflow a b = do {
     pos \<leftarrow> (if b > 0 then do { l \<leftarrow> add64 kMinInt64 b; Some (a < l) } else Some False);
     if pos then Some True
     else if b < 0 then do { l \<leftarrow> add64 kMaxInt64 b; Some (a > l) } else Some False
   }"

text \<open>
  \<open>HighestBit\<close>: each source line \<open>if ((t = x >> k) != 0) { x = t; r += k; }\<close> is one
  \<open>hb_step k\<close>.
\<close>

definition hb_step :: "nat \<Rightarrow> int \<times> int \<Rightarrow> int \<times> int" where
  "hb_step k xr = (let t = drop_bit k (fst xr)
     in if t \<noteq> 0 then (t, snd xr + int k) else xr)"

definition HighestBit :: "int \<Rightarrow> int option" where
  "HighestBit v = do {
     x \<leftarrow> (if v > 0 then Some v else neg64 v);
     let (x, r) = hb_step 2 (hb_step 4 (hb_step 8 (hb_step 16 (hb_step 32 (x, 0)))));
     Some (if x > 1 then r + 1 else r)
   }"

definition BitLength :: "int \<Rightarrow> int option" where
  "BitLength value = do {
     s \<leftarrow> shr64 value 63;
     let value = value XOR s;
     if value = 0 then Some 0 else do { h \<leftarrow> HighestBit value; Some (h + 1) }
   }"

subsection \<open>Words\<close>

definition IsPowerOfTwo :: "uword \<Rightarrow> bool" where
  "IsPowerOfTwo x \<longleftrightarrow> (x AND (x - 1)) = 0 \<and> x \<noteq> 0"

function shift_loop :: "uword \<Rightarrow> nat \<Rightarrow> nat" where
  "shift_loop x num_shifts = (if x > 1 then shift_loop (drop_bit 1 x) (num_shifts + 1) else num_shifts)"
  by pat_completeness auto
termination
  by (relation "measure (\<lambda>(x, n). unat x)")
     (auto simp: drop_bit_eq_div unat_div word_less_nat_alt)

definition ShiftForPowerOfTwo :: "uword \<Rightarrow> nat option" where
  "ShiftForPowerOfTwo x = do { ASSERT (IsPowerOfTwo x); Some (shift_loop x 0) }"

definition IsAligned :: "uword \<Rightarrow> uword \<Rightarrow> bool option" where
  "IsAligned x n = do { ASSERT (IsPowerOfTwo n); Some ((x AND (n - 1)) = 0) }"

definition RoundDown :: "uword \<Rightarrow> uword \<Rightarrow> uword option" where
  "RoundDown x n = do { ASSERT (IsPowerOfTwo n); Some (x AND (- n)) }"

definition RoundUp :: "uword \<Rightarrow> uword \<Rightarrow> uword option" where
  "RoundUp x n = RoundDown (x + n - 1) n"

definition RoundUpToPowerOfTwo :: "uword \<Rightarrow> uword" where
  "RoundUpToPowerOfTwo x =
     (let x = x - 1;
          x = x OR drop_bit 1 x;
          x = x OR drop_bit 2 x;
          x = x OR drop_bit 4 x;
          x = x OR drop_bit 8 x;
          x = x OR drop_bit 16 x;
          x = x OR drop_bit 32 x
      in x + 1)"

definition CountOneBits :: "32 word \<Rightarrow> 32 word" where
  "CountOneBits x =
     (let x = x - (drop_bit 1 x AND 0x55555555);
          x = (x AND 0x33333333) + (drop_bit 2 x AND 0x33333333);
          x = (x + drop_bit 4 x) AND 0x0F0F0F0F;
          x = x + drop_bit 8 x;
          x = x + drop_bit 16 x
      in x AND 0x0000003F)"


definition StringHash_part :: "32 word \<Rightarrow> 32 word \<Rightarrow> 32 word" where
  "StringHash_part hash part =
     (let M = 0x5bd1e995;
          part = part * M;
          part = part XOR drop_bit 24 part;
          part = part * M;
          hash = hash * M
      in hash XOR part)"

text \<open>
  The loop reads the string four bytes at a time, as a little-endian 32-bit value; the
  fall-through \<open>switch\<close> mixes in the one to three bytes left over.
\<close>

fun StringHash_loop :: "32 word \<Rightarrow> 8 word list \<Rightarrow> 32 word" where
  "StringHash_loop hash (a # b # c # d # cursor) =
     StringHash_loop (StringHash_part hash
       (ucast a OR push_bit 8 (ucast b) OR push_bit 16 (ucast c) OR push_bit 24 (ucast d))) cursor"
| "StringHash_loop hash [a, b, c] =
     (hash XOR push_bit 16 (ucast c) XOR push_bit 8 (ucast b) XOR ucast a) * 0x5bd1e995"
| "StringHash_loop hash [a, b] = (hash XOR push_bit 8 (ucast b) XOR ucast a) * 0x5bd1e995"
| "StringHash_loop hash [a] = (hash XOR ucast a) * 0x5bd1e995"
| "StringHash_loop hash [] = hash"

definition StringHash :: "8 word list \<Rightarrow> 32 word" where
  "StringHash data =
     (let hash = StringHash_loop (of_nat (length data)) data;
          hash = hash XOR drop_bit 13 hash;
          hash = hash * 0x5bd1e995
      in hash XOR drop_bit 15 hash)"

definition WordHash :: "uword \<Rightarrow> 32 word" where
  "WordHash key =
     (let a = key;
          a = (a + 0x7ed55d16) + push_bit 12 a;
          a = (a XOR 0xc761c23c) XOR drop_bit 19 a;
          a = (a + 0x165667b1) + push_bit 5 a;
          a = (a + 0xd3a2646c) XOR push_bit 9 a;
          a = (a + 0xfd7046c5) + push_bit 3 a;
          a = (a XOR 0xb55a4f09) XOR drop_bit 16 a
      in ucast a)"

definition Low16Bits :: "32 word \<Rightarrow> 32 word" where
  "Low16Bits value = value AND 0xffff"

definition High16Bits :: "32 word \<Rightarrow> 32 word" where
  "High16Bits value = signed_drop_bit 16 value"

definition Low32Bits :: "64 word \<Rightarrow> 32 word" where
  "Low32Bits value = ucast value"

definition High32Bits :: "64 word \<Rightarrow> 32 word" where
  "High32Bits value = ucast (signed_drop_bit 32 value)"

definition LowHighTo64Bits :: "32 word \<Rightarrow> 32 word \<Rightarrow> 64 word" where
  "LowHighTo64Bits low high = push_bit 32 (scast high) OR (ucast low AND 0x0ffffffff)"

definition IsDecimalDigit :: "char \<Rightarrow> bool" where
  "IsDecimalDigit c \<longleftrightarrow> of_char CHR ''0'' \<le> (of_char c :: nat) \<and> of_char c \<le> (of_char CHR ''9'' :: nat)"

definition IsHexDigit :: "char \<Rightarrow> bool" where
  "IsHexDigit c \<longleftrightarrow> IsDecimalDigit c
     \<or> (of_char CHR ''A'' \<le> (of_char c :: nat) \<and> of_char c \<le> (of_char CHR ''F'' :: nat))
     \<or> (of_char CHR ''a'' \<le> (of_char c :: nat) \<and> of_char c \<le> (of_char CHR ''f'' :: nat))"

definition HexDigitToInt :: "char \<Rightarrow> nat option" where
  "HexDigitToInt c = do {
     ASSERT (IsHexDigit c);
     Some (if IsDecimalDigit c then of_char c - of_char CHR ''0''
       else if of_char CHR ''A'' \<le> (of_char c :: nat) \<and> of_char c \<le> (of_char CHR ''F'' :: nat)
       then 10 + (of_char c - of_char CHR ''A'')
       else 10 + (of_char c - of_char CHR ''a''))
   }"

definition IntToHexDigit :: "nat \<Rightarrow> char option" where
  "IntToHexDigit i = do {
     ASSERT (i < 16);
     Some (if i < 10 then char_of (of_char CHR ''0'' + i) else char_of (of_char CHR ''A'' + (i - 10)))
   }"

subsection \<open>Overflow tests\<close>

lemma Minimum_min [simp]: "Minimum = min"
  by (simp add: Minimum_def min_def fun_eq_iff)

lemma Maximum_max [simp]: "Maximum = max"
  by (auto simp: Maximum_def max_def fun_eq_iff)

lemma Abs_eq_Some: "in64 x \<Longrightarrow> Abs x = Some y \<longleftrightarrow> x \<noteq> kMinInt64 \<and> y = \<bar>x\<bar>"
  by (auto simp: Abs_def in64_def konst)

lemma Abs_kMinInt64 [simp]: "Abs kMinInt64 = None"
  by (simp add: Abs_def chk64_def in64_def konst)

lemma WillAddOverflow_eq [simp]:
  "in64 a \<Longrightarrow> in64 b \<Longrightarrow> WillAddOverflow a b = Some (\<not> in64 (a + b))"
  by (auto simp: WillAddOverflow_def chk64_def in64_def konst)

lemma WillSubOverflow_eq [simp]:
  "in64 a \<Longrightarrow> in64 b \<Longrightarrow> WillSubOverflow a b = Some (\<not> in64 (a - b))"
  by (auto simp: WillSubOverflow_def chk64_def in64_def konst)

lemma RangeCheck_eq:
  "in64 offset \<Longrightarrow> in64 count \<Longrightarrow> in64 len \<Longrightarrow>
   RangeCheck offset count len =
     Some (0 \<le> offset \<and> 0 \<le> count \<and> 0 \<le> len \<and> offset + count \<le> len)"
  by (auto simp: RangeCheck_def chk64_def in64_def konst)

lemma pow_limit: "0 \<le> n \<Longrightarrow> n < 63 \<Longrightarrow> in64 (2 ^ nat n)"
proof -
  assume "0 \<le> n" "n < 63"
  then have "(2::int) ^ nat n \<le> 2 ^ 62" by (intro power_increasing) auto
  then have "(2::int) ^ nat n \<le> 4611686018427387904" by simp
  moreover have "0 \<le> (2::int) ^ nat n" by simp
  ultimately have "- 9223372036854775808 \<le> (2::int) ^ nat n \<and> (2::int) ^ nat n \<le> 9223372036854775807"
    by (intro conjI) linarith+
  then show ?thesis by (simp add: in64_def konst)
qed

lemma IsInt_eq:
  assumes "0 < N" "N < 64"
  shows "IsInt N v = Some (- (2 ^ nat (N - 1)) \<le> v \<and> v < 2 ^ nat (N - 1))"
  using assms pow_limit [of "N - 1"] by (simp add: IsInt_def shl64_def push_bit_eq_mult)

lemma IsUint_eq:
  assumes "0 < N" "N < 63"
  shows "IsUint N v = Some (0 \<le> v \<and> v < 2 ^ nat N)"
  using assms pow_limit [of N] by (simp add: IsUint_def shl64_def push_bit_eq_mult)

subsection \<open>Bit lengths\<close>

text \<open>One line of \<open>HighestBit\<close> halves the width that is still to be searched.\<close>

definition hb_inv :: "int \<Rightarrow> nat \<Rightarrow> int \<times> int \<Rightarrow> bool" where
  "hb_inv v k xr \<longleftrightarrow> 0 < fst xr \<and> fst xr < 2 ^ k \<and> 0 \<le> snd xr \<and>
     fst xr * 2 ^ nat (snd xr) \<le> v \<and> v < (fst xr + 1) * 2 ^ nat (snd xr)"

lemma hb_step_inv:
  assumes "hb_inv v (k + k) xr"
  shows "hb_inv v k (hb_step k xr)"
proof -
  obtain x r where xr: "xr = (x, r)" by (cases xr)
  define t where "t = drop_bit k x"
  have x: "0 < x" "x < 2 ^ k * 2 ^ k" "0 \<le> r" "x * 2 ^ nat r \<le> v" "v < (x + 1) * 2 ^ nat r"
    using assms by (auto simp: hb_inv_def xr power_add)
  have t: "t * 2 ^ k \<le> x" "x + 1 \<le> (t + 1) * 2 ^ k" "0 \<le> t"
    using drop_bit_int_bounds [where n = k and x = x] x(1) by (auto simp: t_def)
  have "t * 2 ^ k < 2 ^ k * 2 ^ k" using t(1) x(2) by linarith
  then have tk: "t < 2 ^ k" by (simp add: mult_less_cancel_right)
  show ?thesis
  proof (cases "t = 0")
    case True
    then have "x < 2 ^ k" using t(2) by simp
    with True x show ?thesis by (simp add: hb_inv_def hb_step_def xr flip: t_def)
  next
    case False
    have p: "(2::int) ^ nat (r + int k) = 2 ^ k * 2 ^ nat r"
      using x(3) by (simp add: nat_add_distrib power_add)
    have "t * 2 ^ k * 2 ^ nat r \<le> x * 2 ^ nat r" "(x + 1) * 2 ^ nat r \<le> (t + 1) * 2 ^ k * 2 ^ nat r"
      using t by (intro mult_right_mono; simp)+
    then have "t * (2 ^ k * 2 ^ nat r) \<le> v" "v < (t + 1) * (2 ^ k * 2 ^ nat r)"
      using x(4,5) unfolding mult.assoc by linarith+
    with x(3) t(3) tk False show ?thesis
      by (simp add: hb_inv_def hb_step_def xr p flip: t_def)
  qed
qed

lemma HighestBit_pos:
  assumes "0 < v" "in64 v"
  obtains r where "HighestBit v = Some r" "0 \<le> r" "2 ^ nat r \<le> v" "v < 2 ^ nat (r + 1)"
proof -
  define xr where "xr = hb_step 2 (hb_step 4 (hb_step 8 (hb_step 16 (hb_step 32 (v, 0)))))"
  have "hb_inv v 64 (v, 0)" using assms by (simp add: hb_inv_def in64_def konst)
  then have "hb_inv v 32 (hb_step 32 (v, 0))" by (intro hb_step_inv) simp
  then have "hb_inv v 16 (hb_step 16 (hb_step 32 (v, 0)))" by (intro hb_step_inv) simp
  then have "hb_inv v 8 (hb_step 8 (hb_step 16 (hb_step 32 (v, 0))))" by (intro hb_step_inv) simp
  then have "hb_inv v 4 (hb_step 4 (hb_step 8 (hb_step 16 (hb_step 32 (v, 0)))))"
    by (intro hb_step_inv) simp
  then have "hb_inv v 2 xr" unfolding xr_def by (intro hb_step_inv) simp
  then have *: "0 < fst xr" "fst xr < 4" "0 \<le> snd xr"
      "fst xr * 2 ^ nat (snd xr) \<le> v" "v < (fst xr + 1) * 2 ^ nat (snd xr)"
    by (auto simp: hb_inv_def)
  define r where "r = (if fst xr > 1 then snd xr + 1 else snd xr)"
  have h: "HighestBit v = Some r"
    using assms by (simp add: HighestBit_def r_def xr_def case_prod_beta Let_def)
  show ?thesis
  proof (cases "fst xr > 1")
    case True
    then have p: "(2::int) ^ nat r = 2 * 2 ^ nat (snd xr)" "(2::int) ^ nat (r + 1) = 4 * 2 ^ nat (snd xr)"
      using *(3) by (simp_all add: r_def nat_add_distrib)
    have "2 * (2::int) ^ nat (snd xr) \<le> fst xr * 2 ^ nat (snd xr)"
      and "(fst xr + 1) * 2 ^ nat (snd xr) \<le> 4 * 2 ^ nat (snd xr)"
      using True *(2) by (auto intro!: mult_right_mono)
    with * p True that [OF h] show ?thesis by (auto simp: r_def)
  next
    case False
    then have "fst xr = 1" using *(1) by simp
    with * that [OF h] show ?thesis by (simp add: r_def nat_add_distrib)
  qed
qed

lemma xor_sign_int: "in64 v \<Longrightarrow> v XOR drop_bit 63 v = (if v < 0 then - v - 1 else v)"
proof -
  assume v: "in64 v"
  have "drop_bit 63 v = (if v < 0 then -1 else 0)"
  proof (cases "v < 0")
    case True
    have "v div 2 ^ 63 = -1"
      using v True by (intro int_div_pos_eq [of _ _ _ "v + 2 ^ 63"]) (auto simp: in64_def konst)
    with True show ?thesis by (simp add: drop_bit_eq_div)
  next
    case False
    then show ?thesis using v by (simp add: drop_bit_eq_div div_pos_pos_trivial in64_def konst)
  qed
  then show ?thesis by (simp add: not_int_def)
qed

text \<open>\<open>BitLength\<close> of any \<open>int64_t\<close>: the least \<open>n\<close> with \<open>-2^n \<le> v < 2^n\<close>.\<close>

lemma BitLength_ex:
  assumes "in64 v"
  obtains n where "BitLength v = Some n" "0 \<le> n" "n \<le> 63" "- (2 ^ nat n) \<le> v" "v < 2 ^ nat n"
    "n = 0 \<or> \<not> (- (2 ^ nat (n - 1)) \<le> v \<and> v < 2 ^ nat (n - 1))"
proof -
  define w where "w = (if v < 0 then - v - 1 else v)"
  have w: "0 \<le> w" "in64 w" using assms by (auto simp: w_def in64_def konst)
  have b: "BitLength v = (if w = 0 then Some 0 else do { h \<leftarrow> HighestBit w; Some (h + 1) })"
    using assms by (simp add: BitLength_def shr64_def xor_sign_int w_def)
  show ?thesis
  proof (cases "w = 0")
    case True
    then have "- 1 \<le> v" "v < 1" by (auto simp: w_def split: if_splits)
    with True that [of 0] b show ?thesis by simp
  next
    case False
    with w obtain r where r: "HighestBit w = Some r" "0 \<le> r" "2 ^ nat r \<le> w" "w < 2 ^ nat (r + 1)"
      using HighestBit_pos [of w] by auto
    have "(2::int) ^ nat r < 2 ^ 63" using r(3) w(2) by (simp add: in64_def konst)
    then have "nat r < 63" by (rule power_less_imp_less_exp [rotated]) simp
    with r False b that [of "r + 1"] show ?thesis by (auto simp: w_def split: if_splits)
  qed
qed

subsection \<open>Alignment\<close>

lemma and_not_mask: "(y::64 word) AND NOT (mask k) = y - take_bit k y"
proof -
  have "(y AND NOT (mask k)) + (y AND mask k) = (y AND NOT (mask k)) OR (y AND mask k)"
    by (rule disjunctive_add_eq_or) (simp add: bit_eq_iff bit_simps)
  also have "\<dots> = y" by (auto simp: bit_eq_iff bit_simps)
  finally show ?thesis by (simp add: take_bit_eq_mask algebra_simps)
qed

lemma IsPowerOfTwo_exp: "k < 64 \<Longrightarrow> IsPowerOfTwo (2 ^ k)"
proof -
  assume k: "k < 64"
  have "(2 ^ k :: 64 word) AND mask k = 0" by (simp add: take_bit_eq_mask [symmetric] take_bit_eq_mod)
  moreover have "(2 ^ k :: 64 word) \<noteq> 0" using k by simp
  ultimately show ?thesis by (simp add: IsPowerOfTwo_def mask_eq_exp_minus_1)
qed

lemma uint_AND_neg_exp:
  fixes z :: uword
  shows "uint (z AND - (2 ^ k)) = uint z - uint z mod 2 ^ k"
proof -
  have t: "uint (take_bit k z) = uint z mod 2 ^ k" by (subst unsigned_take_bit_eq) (simp add: take_bit_eq_mod)
  have le: "uint z mod 2 ^ k \<le> uint z" by (simp add: zmod_le_nonneg_dividend)
  show ?thesis
    unfolding minus_exp_eq_not_mask and_not_mask using le t by (subst uint_minus_simple_alt [THEN iffD1]) (simp_all add: word_le_def)
qed

lemma uint_RoundUp:
  assumes "k < 64" "uint x + 2 ^ k \<le> 2 ^ 64"
  obtains y where "RoundUp x (2 ^ k) = Some y" "uint x \<le> uint y" "uint y < uint x + 2 ^ k" "2 ^ k dvd uint y"
proof -
  let ?z = "x + 2 ^ k - 1 :: 64 word"
  have nn: "0 \<le> uint x" by simp
  have z: "uint ?z = uint x + 2 ^ k - 1"
  proof -
    have "?z = word_of_int (uint x + 2 ^ k - 1)" by simp
    moreover have "0 \<le> uint x + 2 ^ k - 1" "uint x + 2 ^ k - 1 < 2 ^ 64" using assms(2) nn zero_less_power [of "2::int" k] by linarith+
    ultimately show ?thesis by (simp add: uint_word_of_int del: of_int_add of_int_diff)
  qed
  note y = uint_AND_neg_exp [of ?z k]
  have "uint ?z mod 2 ^ k < 2 ^ k" "0 \<le> uint ?z mod 2 ^ k" by simp_all
  then have "uint x \<le> uint (?z AND - (2 ^ k))" "uint (?z AND - (2 ^ k)) < uint x + 2 ^ k" unfolding y z by linarith+
  moreover have "2 ^ k dvd uint (?z AND - (2 ^ k))" unfolding y by (simp add: dvd_minus_mod)
  ultimately show ?thesis using that [of "?z AND - (2 ^ k)"] IsPowerOfTwo_exp [OF assms(1)] by (simp add: RoundUp_def RoundDown_def)
qed

end
