(* ===== verification/Range_Boundary.thy ===== *)
theory Range_Boundary
  imports Dart_Utils
begin

text \<open>
  Class \<open>RangeBoundary\<close> of \<open>vm/flow_graph_range_analysis.h/.cc\<close>, with the part of the flow graph
  it inspects. A boundary is a constant, an infinity, or a symbol (an SSA definition) plus an offset.
  A definition is identified by a number, its \<open>ssa_temp_index\<close>; the flow graph maps it to the
  attributes range analysis reads. \<open>Instruction::Equals\<close>, \<open>AllowsCSE\<close>, \<open>Dependencies().IsNone()\<close>
  and block dominance are attributes of the graph: their code belongs to other passes.

  The walks over the graph (\<open>UnwrapConstraint\<close>, \<open>LowerBound\<close>, \<open>CanonicalizeBoundary\<close>,
  \<open>CanonicalizeForComparison\<close>) are unbounded loops or recursions in the source and are partial
  functions here; that they return on every acyclic graph is proved in \<open>Range_Soundness\<close>.
\<close>

type_synonym defn_id = nat

datatype token_kind = kADD | kSUB | kMUL | kSHL | kSHR | kBIT_AND | kBIT_XOR | kBIT_OR
  | kTRUNCDIV | kMOD | kEQ | kNE | kLT | kGT | kLTE | kGTE | kILLEGAL

datatype range_boundary = kUnknown | kNegativeInfinity | kPositiveInfinity
  | kSymbol defn_id int | kConstant int

datatype range_size = kRangeBoundarySmi | kRangeBoundaryInt32 | kRangeBoundaryInt64

record range =
  range_min :: range_boundary
  range_max :: range_boundary

datatype const_value = SmiValue int | MintValue int | OtherObject

datatype cid = kSmiCid | kMintCid | kDynamicCid
  | kTypedDataInt8ArrayCid | kTypedDataUint8ArrayCid | kTypedDataUint8ClampedArrayCid
  | kExternalTypedDataUint8ArrayCid | kExternalTypedDataUint8ClampedArrayCid
  | kTypedDataInt16ArrayCid | kTypedDataUint16ArrayCid
  | kTypedDataInt32ArrayCid | kTypedDataUint32ArrayCid
  | kOneByteStringCid | kTwoByteStringCid | kExternalOneByteStringCid | kExternalTwoByteStringCid
  | kOtherCid

datatype recognized_kind = kObjectArrayLength | kImmutableArrayLength | kTypedDataLength
  | kStringBaseLength | kOtherField

datatype representation = kTagged | kUnboxedInt32 | kUnboxedUint32 | kUnboxedMint
  | kOtherRepresentation

text \<open>
  The instructions range analysis distinguishes, with their inputs. The unboxing instructions also
  carry the class id of the type that reaches their input (\<open>value()->Type()->ToCid()\<close>), which may be
  more precise than the type of the definition.
\<close>

datatype instruction =
    ConstantInstr const_value
  | ConstraintInstr defn_id range
  | BinarySmiOpInstr token_kind defn_id defn_id
  | BinaryInt32OpInstr token_kind defn_id defn_id
  | BinaryMintOpInstr token_kind defn_id defn_id
  | ShiftMintOpInstr token_kind defn_id defn_id
  | PhiInstr "defn_id list"
  | LoadFieldInstr recognized_kind
  | LoadIndexedInstr cid
  | LoadCodeUnitsInstr cid
  | IfThenElseInstr int int
  | BoxInt64Instr defn_id
  | BoxInt32Instr defn_id
  | BoxUint32Instr defn_id
  | UnboxInt32Instr defn_id cid
  | UnboxUint32Instr defn_id cid
  | UnboxInt64Instr defn_id
  | UnboxedIntConverterInstr representation representation defn_id
  | UnaryMintOpInstr defn_id
  | OtherInstr

record defn =
  instr :: instruction
  defn_range :: "range option"
  type_cid :: cid
  type_is_int :: bool
  defn_representation :: representation
  block_of :: nat
  is_truncating :: bool
  can_overflow :: bool
  allows_CSE :: bool
  no_dependencies :: bool

record flow_graph =
  defs :: "defn_id \<Rightarrow> defn"
  instr_equals :: "defn_id \<Rightarrow> defn_id \<Rightarrow> bool"
  dominates :: "nat \<Rightarrow> nat \<Rightarrow> bool"

abbreviation instr_of :: "flow_graph \<Rightarrow> defn_id \<Rightarrow> instruction" where
  "instr_of g d \<equiv> instr (defs g d)"

abbreviation range_of :: "flow_graph \<Rightarrow> defn_id \<Rightarrow> range option" where
  "range_of g d \<equiv> defn_range (defs g d)"

subsection \<open>Definitions\<close>

partial_function (option) UnwrapConstraint :: "flow_graph \<Rightarrow> defn_id \<Rightarrow> defn_id option" where
  "UnwrapConstraint g d =
     (case instr_of g d of ConstraintInstr v c \<Rightarrow> UnwrapConstraint g v | _ \<Rightarrow> Some d)"

definition AreEqualDefinitions :: "flow_graph \<Rightarrow> defn_id \<Rightarrow> defn_id \<Rightarrow> bool option" where
  "AreEqualDefinitions g a b = do {
     a \<leftarrow> UnwrapConstraint g a;
     b \<leftarrow> UnwrapConstraint g b;
     Some (a = b \<or>
       (allows_CSE (defs g a) \<and> no_dependencies (defs g a) \<and>
        allows_CSE (defs g b) \<and> no_dependencies (defs g b) \<and> instr_equals g a b))
   }"

fun DependOnSameSymbol :: "flow_graph \<Rightarrow> range_boundary \<Rightarrow> range_boundary \<Rightarrow> bool option" where
  "DependOnSameSymbol g (kSymbol s so) (kSymbol t to) = AreEqualDefinitions g s t"
| "DependOnSameSymbol g a b = Some False"

fun DependsOnSymbol :: "flow_graph \<Rightarrow> range_boundary \<Rightarrow> defn_id \<Rightarrow> bool option" where
  "DependsOnSymbol g (kSymbol s so) symbol = do { u \<leftarrow> UnwrapConstraint g s; Some (u = symbol) }"
| "DependsOnSymbol g a symbol = Some False"

definition IsConstantDefn :: "flow_graph \<Rightarrow> defn_id \<Rightarrow> bool" where
  "IsConstantDefn g d \<longleftrightarrow> (case instr_of g d of ConstantInstr v \<Rightarrow> True | _ \<Rightarrow> False)"

text \<open>\<open>Smi::Cast(d->AsConstant()->value()).Value()\<close>: the cast asserts that the object is a Smi.\<close>

definition SmiConstantValue :: "flow_graph \<Rightarrow> defn_id \<Rightarrow> int option" where
  "SmiConstantValue g d = (case instr_of g d of ConstantInstr (SmiValue v) \<Rightarrow> Some v | _ \<Rightarrow> None)"

fun IsImmutableLengthLoad :: "recognized_kind \<Rightarrow> bool" where
  "IsImmutableLengthLoad kObjectArrayLength = True"
| "IsImmutableLengthLoad kImmutableArrayLength = True"
| "IsImmutableLengthLoad kTypedDataLength = True"
| "IsImmutableLengthLoad kStringBaseLength = True"
| "IsImmutableLengthLoad kOtherField = False"

definition IsArrayLength :: "flow_graph \<Rightarrow> defn_id option \<Rightarrow> bool option" where
  "IsArrayLength g defn = (case defn of None \<Rightarrow> Some False
     | Some d \<Rightarrow> do {
         u \<leftarrow> UnwrapConstraint g d;
         Some (case instr_of g u of LoadFieldInstr k \<Rightarrow> IsImmutableLengthLoad k | _ \<Rightarrow> False)
       })"

subsection \<open>Kind tests and constant boundaries\<close>

definition IsConstant :: "range_boundary \<Rightarrow> bool" where
  "IsConstant b \<longleftrightarrow> (case b of kConstant c \<Rightarrow> True | _ \<Rightarrow> False)"

definition IsSymbol :: "range_boundary \<Rightarrow> bool" where
  "IsSymbol b \<longleftrightarrow> (case b of kSymbol s off \<Rightarrow> True | _ \<Rightarrow> False)"

definition IsInfinity :: "range_boundary \<Rightarrow> bool" where
  "IsInfinity b \<longleftrightarrow> b = kNegativeInfinity \<or> b = kPositiveInfinity"

fun ConstantValue :: "range_boundary \<Rightarrow> int option" where
  "ConstantValue (kConstant c) = Some c"
| "ConstantValue b = None"

text \<open>\<open>offset()\<close> reads the field: it is zero for everything but a symbol.\<close>

fun offset :: "range_boundary \<Rightarrow> int" where
  "offset (kSymbol s off) = off"
| "offset b = 0"

fun MinValue :: "range_size \<Rightarrow> int" where
  "MinValue kRangeBoundarySmi = kSmiMin"
| "MinValue kRangeBoundaryInt32 = kMinInt32"
| "MinValue kRangeBoundaryInt64 = kMinInt64"

fun MaxValue :: "range_size \<Rightarrow> int" where
  "MaxValue kRangeBoundarySmi = kSmiMax"
| "MaxValue kRangeBoundaryInt32 = kMaxInt32"
| "MaxValue kRangeBoundaryInt64 = kMaxInt64"

definition MinConstant :: "range_size \<Rightarrow> range_boundary" where
  "MinConstant sz = kConstant (MinValue sz)"

definition MaxConstant :: "range_size \<Rightarrow> range_boundary" where
  "MaxConstant sz = kConstant (MaxValue sz)"

definition MinSmi :: range_boundary where
  "MinSmi = kConstant kSmiMin"

definition MaxSmi :: range_boundary where
  "MaxSmi = kConstant kSmiMax"

definition FromDefinition :: "flow_graph \<Rightarrow> defn_id \<Rightarrow> int \<Rightarrow> range_boundary option" where
  "FromDefinition g d offs =
     (case instr_of g d of
        ConstantInstr (SmiValue v) \<Rightarrow> do { c \<leftarrow> add64 v offs; Some (kConstant c) }
      | _ \<Rightarrow> Some (kSymbol d offs))"

fun RangeBoundary_Clamp :: "range_boundary \<Rightarrow> range_size \<Rightarrow> range_boundary" where
  "RangeBoundary_Clamp kNegativeInfinity sz = MinConstant sz"
| "RangeBoundary_Clamp kPositiveInfinity sz = MaxConstant sz"
| "RangeBoundary_Clamp (kConstant c) sz =
     (if c \<le> MinValue sz then MinConstant sz
      else if c \<ge> MaxValue sz then MaxConstant sz
      else kConstant c)"
| "RangeBoundary_Clamp b sz = b"

fun IsMinimumOrBelow :: "range_boundary \<Rightarrow> range_size \<Rightarrow> bool" where
  "IsMinimumOrBelow kNegativeInfinity sz = True"
| "IsMinimumOrBelow (kConstant c) sz = (c \<le> MinValue sz)"
| "IsMinimumOrBelow b sz = False"

fun IsMaximumOrAbove :: "range_boundary \<Rightarrow> range_size \<Rightarrow> bool" where
  "IsMaximumOrAbove kPositiveInfinity sz = True"
| "IsMaximumOrAbove (kConstant c) sz = (c \<ge> MaxValue sz)"
| "IsMaximumOrAbove b sz = False"

fun OverflowedSmi :: "range_boundary \<Rightarrow> bool" where
  "OverflowedSmi (kConstant c) = (\<not> (kSmiMin \<le> c \<and> c \<le> kSmiMax))"
| "OverflowedSmi kNegativeInfinity = True"
| "OverflowedSmi kPositiveInfinity = True"
| "OverflowedSmi b = False"

definition OverflowedMint :: "range_boundary \<Rightarrow> bool" where
  "OverflowedMint b = IsInfinity b"

fun RangeBoundary_Equals :: "flow_graph \<Rightarrow> range_boundary \<Rightarrow> range_boundary \<Rightarrow> bool option" where
  "RangeBoundary_Equals g (kConstant c) (kConstant d) = Some (c = d)"
| "RangeBoundary_Equals g kNegativeInfinity kNegativeInfinity = Some True"
| "RangeBoundary_Equals g kPositiveInfinity kPositiveInfinity = Some True"
| "RangeBoundary_Equals g (kSymbol s so) (kSymbol t to) =
     (if so = to then DependOnSameSymbol g (kSymbol s so) (kSymbol t to) else Some False)"
| "RangeBoundary_Equals g kUnknown kUnknown = Some True"
| "RangeBoundary_Equals g a b = Some False"

definition Overflowed :: "flow_graph \<Rightarrow> range_boundary \<Rightarrow> range_size \<Rightarrow> bool option" where
  "Overflowed g b sz = do {
     ASSERT (IsConstant b \<or> IsInfinity b);
     e \<leftarrow> RangeBoundary_Equals g b (RangeBoundary_Clamp b sz);
     Some (\<not> e)
   }"

subsection \<open>Arithmetic on boundaries\<close>

definition RangeBoundary_Add :: "range_boundary \<Rightarrow> range_boundary \<Rightarrow> range_boundary \<Rightarrow> range_boundary option" where
  "RangeBoundary_Add a b overflow =
     (if IsInfinity a \<or> IsInfinity b then Some overflow
      else do {
        ASSERT (IsConstant a \<and> IsConstant b);
        x \<leftarrow> ConstantValue a;
        y \<leftarrow> ConstantValue b;
        w \<leftarrow> WillAddOverflow x y;
        if w then Some overflow
        else do { result \<leftarrow> add64 x y; Some (kConstant result) }
      })"

definition RangeBoundary_Sub :: "range_boundary \<Rightarrow> range_boundary \<Rightarrow> range_boundary \<Rightarrow> range_boundary option" where
  "RangeBoundary_Sub a b overflow =
     (if IsInfinity a \<or> IsInfinity b then Some overflow
      else do {
        ASSERT (IsConstant a \<and> IsConstant b);
        x \<leftarrow> ConstantValue a;
        y \<leftarrow> ConstantValue b;
        w \<leftarrow> WillSubOverflow x y;
        if w then Some overflow
        else do { result \<leftarrow> sub64 x y; Some (kConstant result) }
      })"

text \<open>
  The symbolic operations return false (here \<open>None\<close> inside the outer \<open>Some\<close>) when they do not
  apply; otherwise they store the boundary they computed.
\<close>

definition SymbolicAdd_sc :: "flow_graph \<Rightarrow> defn_id \<Rightarrow> int \<Rightarrow> int \<Rightarrow> range_boundary option option" where
  "SymbolicAdd_sc g s off c = do {
     w \<leftarrow> WillAddOverflow off c;
     if w then Some None
     else do { off' \<leftarrow> add64 off c; r \<leftarrow> FromDefinition g s off'; Some (Some r) }
   }"

fun SymbolicAdd :: "flow_graph \<Rightarrow> range_boundary \<Rightarrow> range_boundary \<Rightarrow> range_boundary option option" where
  "SymbolicAdd g (kSymbol s off) (kConstant c) = SymbolicAdd_sc g s off c"
| "SymbolicAdd g (kConstant c) (kSymbol s off) = SymbolicAdd_sc g s off c"
| "SymbolicAdd g a b = Some None"

fun SymbolicSub :: "flow_graph \<Rightarrow> range_boundary \<Rightarrow> range_boundary \<Rightarrow> range_boundary option option" where
  "SymbolicSub g (kSymbol s off) (kConstant c) = do {
     w \<leftarrow> WillSubOverflow off c;
     if w then Some None
     else do { off' \<leftarrow> sub64 off c; r \<leftarrow> FromDefinition g s off'; Some (Some r) }
   }"
| "SymbolicSub g a b = Some None"

definition RangeBoundary_Shl :: "range_boundary \<Rightarrow> int \<Rightarrow> range_boundary \<Rightarrow> range_boundary option" where
  "RangeBoundary_Shl value_boundary shift_count overflow = do {
     ASSERT (IsConstant value_boundary);
     ASSERT (shift_count \<ge> 0);
     limit \<leftarrow> sub64 64 shift_count;
     value \<leftarrow> ConstantValue value_boundary;
     fits \<leftarrow> (if value = 0 then Some True
              else if shift_count = 0 then Some True
              else if limit > 0 then IsInt limit value
              else Some False);
     if fits then do { result \<leftarrow> shl64 value shift_count; Some (kConstant result) }
     else Some overflow
   }"

definition RangeBoundary_Shr :: "range_boundary \<Rightarrow> int \<Rightarrow> range_boundary option" where
  "RangeBoundary_Shr value_boundary shift_count = do {
     ASSERT (IsConstant value_boundary);
     ASSERT (shift_count \<ge> 0);
     value \<leftarrow> ConstantValue value_boundary;
     result \<leftarrow> shr64 value shift_count;
     Some (kConstant result)
   }"

subsection \<open>Bounds of a boundary\<close>

text \<open>
  \<open>LowerBound\<close> of a symbol is \<open>Range::ConstantMinSmi(symbol()->range()) + offset\<close>, and
  \<open>ConstantMinSmi\<close> calls \<open>LowerBound\<close> on the minimum of that range; the two are one recursion.
\<close>

partial_function (option) LowerBound :: "flow_graph \<Rightarrow> range_boundary \<Rightarrow> range_boundary option" where
  "LowerBound g b = (case b of
     kNegativeInfinity \<Rightarrow> Some kNegativeInfinity
   | kPositiveInfinity \<Rightarrow> Some kNegativeInfinity
   | kConstant c \<Rightarrow> Some (kConstant c)
   | kUnknown \<Rightarrow> None
   | kSymbol s off \<Rightarrow>
       (case range_of g s of
          None \<Rightarrow> RangeBoundary_Add (MinConstant kRangeBoundarySmi) (kConstant off) kNegativeInfinity
        | Some r \<Rightarrow> do {
            lb \<leftarrow> LowerBound g (range_min r);
            RangeBoundary_Add (RangeBoundary_Clamp lb kRangeBoundarySmi) (kConstant off) kNegativeInfinity
          }))"

partial_function (option) UpperBound :: "flow_graph \<Rightarrow> range_boundary \<Rightarrow> range_boundary option" where
  "UpperBound g b = (case b of
     kNegativeInfinity \<Rightarrow> Some kPositiveInfinity
   | kPositiveInfinity \<Rightarrow> Some kPositiveInfinity
   | kConstant c \<Rightarrow> Some (kConstant c)
   | kUnknown \<Rightarrow> None
   | kSymbol s off \<Rightarrow>
       (case range_of g s of
          None \<Rightarrow> RangeBoundary_Add (MaxConstant kRangeBoundarySmi) (kConstant off) kPositiveInfinity
        | Some r \<Rightarrow> do {
            ub \<leftarrow> UpperBound g (range_max r);
            RangeBoundary_Add (RangeBoundary_Clamp ub kRangeBoundarySmi) (kConstant off) kPositiveInfinity
          }))"

definition LowerBound_sz :: "flow_graph \<Rightarrow> range_boundary \<Rightarrow> range_size \<Rightarrow> int option" where
  "LowerBound_sz g b sz = do {
     lb \<leftarrow> LowerBound g b;
     ConstantValue (RangeBoundary_Clamp lb sz)
   }"

definition UpperBound_sz :: "flow_graph \<Rightarrow> range_boundary \<Rightarrow> range_size \<Rightarrow> int option" where
  "UpperBound_sz g b sz = do {
     ub \<leftarrow> UpperBound g b;
     ConstantValue (RangeBoundary_Clamp ub sz)
   }"

definition SmiLowerBound :: "flow_graph \<Rightarrow> range_boundary \<Rightarrow> int option" where
  "SmiLowerBound g b = LowerBound_sz g b kRangeBoundarySmi"

definition SmiUpperBound :: "flow_graph \<Rightarrow> range_boundary \<Rightarrow> int option" where
  "SmiUpperBound g b = UpperBound_sz g b kRangeBoundarySmi"

subsection \<open>Canonicalization\<close>

partial_function (option) canonicalize_loop ::
  "flow_graph \<Rightarrow> range_boundary \<Rightarrow> defn_id \<Rightarrow> int \<Rightarrow> range_boundary option" where
  "canonicalize_loop g overflow symbol off =
     (case instr_of g symbol of
        ConstraintInstr v c \<Rightarrow> canonicalize_loop g overflow v off
      | BinarySmiOpInstr op left right \<Rightarrow>
          (if op = kADD then
             (if IsConstantDefn g right then do {
                rhs \<leftarrow> SmiConstantValue g right;
                w \<leftarrow> WillAddOverflow off rhs;
                if w then Some overflow
                else do { off' \<leftarrow> add64 off rhs; canonicalize_loop g overflow left off' }
              }
              else if IsConstantDefn g left then do {
                rhs \<leftarrow> SmiConstantValue g left;
                w \<leftarrow> WillAddOverflow off rhs;
                if w then Some overflow
                else do { off' \<leftarrow> add64 off rhs; canonicalize_loop g overflow right off' }
              }
              else FromDefinition g symbol off)
           else if op = kSUB then
             (if IsConstantDefn g right then do {
                rhs \<leftarrow> SmiConstantValue g right;
                w \<leftarrow> WillSubOverflow off rhs;
                if w then Some overflow
                else do { off' \<leftarrow> sub64 off rhs; canonicalize_loop g overflow left off' }
              }
              else FromDefinition g symbol off)
           else FromDefinition g symbol off)
      | _ \<Rightarrow> FromDefinition g symbol off)"

fun CanonicalizeBoundary :: "flow_graph \<Rightarrow> range_boundary \<Rightarrow> range_boundary \<Rightarrow> range_boundary option" where
  "CanonicalizeBoundary g (kSymbol s off) overflow = canonicalize_loop g overflow s off"
| "CanonicalizeBoundary g kUnknown overflow = None"
| "CanonicalizeBoundary g a overflow = Some a"

text \<open>
  The source updates \<open>*a\<close> and returns whether it did: here \<open>None\<close> inside the outer \<open>Some\<close>
  is "false", \<open>Some b\<close> is "true, and \<open>*a\<close> is now \<open>b\<close>".
\<close>

fun CanonicalizeMaxBoundary :: "flow_graph \<Rightarrow> range_boundary \<Rightarrow> range_boundary option option" where
  "CanonicalizeMaxBoundary g (kSymbol s off) =
     (case range_of g s of
        None \<Rightarrow> Some None
      | Some r \<Rightarrow>
          (case range_max r of
             kSymbol t toff \<Rightarrow> do {
               w \<leftarrow> WillAddOverflow toff off;
               if w then Some (Some kPositiveInfinity)
               else do {
                 o' \<leftarrow> add64 toff off;
                 b \<leftarrow> FromDefinition g t o';
                 c \<leftarrow> CanonicalizeBoundary g b kPositiveInfinity;
                 Some (Some c)
               }
             }
           | _ \<Rightarrow> Some None))"
| "CanonicalizeMaxBoundary g a = Some None"

fun CanonicalizeMinBoundary :: "flow_graph \<Rightarrow> range_boundary \<Rightarrow> range_boundary option option" where
  "CanonicalizeMinBoundary g (kSymbol s off) =
     (case range_of g s of
        None \<Rightarrow> Some None
      | Some r \<Rightarrow>
          (case range_min r of
             kSymbol t toff \<Rightarrow> do {
               w \<leftarrow> WillAddOverflow toff off;
               if w then Some (Some kNegativeInfinity)
               else do {
                 o' \<leftarrow> add64 toff off;
                 b \<leftarrow> FromDefinition g t o';
                 c \<leftarrow> CanonicalizeBoundary g b kNegativeInfinity;
                 Some (Some c)
               }
             }
           | _ \<Rightarrow> Some None))"
| "CanonicalizeMinBoundary g a = Some None"

text \<open>\<open>op(&canonical_a) || op(&canonical_b)\<close>: the second boundary is only advanced when the first is stuck.\<close>

partial_function (option) comparison_loop ::
  "flow_graph \<Rightarrow> (range_boundary \<Rightarrow> range_boundary option option) \<Rightarrow> range_boundary \<Rightarrow> range_boundary
     \<Rightarrow> (range_boundary \<times> range_boundary) option option" where
  "comparison_loop g op ca cb = do {
     same \<leftarrow> DependOnSameSymbol g ca cb;
     if same then Some (Some (ca, cb))
     else do {
       ra \<leftarrow> op ca;
       case ra of
         Some ca' \<Rightarrow> comparison_loop g op ca' cb
       | None \<Rightarrow> do {
           rb \<leftarrow> op cb;
           case rb of
             Some cb' \<Rightarrow> comparison_loop g op ca cb'
           | None \<Rightarrow> Some None
         }
     }
   }"

definition CanonicalizeForComparison ::
  "flow_graph \<Rightarrow> (range_boundary \<Rightarrow> range_boundary option option) \<Rightarrow> range_boundary \<Rightarrow> range_boundary
     \<Rightarrow> (range_boundary \<times> range_boundary) option option" where
  "CanonicalizeForComparison g op a b =
     (if \<not> IsSymbol a \<or> \<not> IsSymbol b then Some None else comparison_loop g op a b)"

subsection \<open>Join and intersection of boundaries\<close>

definition JoinMin :: "flow_graph \<Rightarrow> range_boundary \<Rightarrow> range_boundary \<Rightarrow> range_size \<Rightarrow> range_boundary option" where
  "JoinMin g a b sz = do {
     e \<leftarrow> RangeBoundary_Equals g a b;
     if e then Some b
     else do {
       c \<leftarrow> CanonicalizeForComparison g (CanonicalizeMinBoundary g) a b;
       case c of
         Some (a, b) \<Rightarrow> Some (if offset a \<le> offset b then a else b)
       | None \<Rightarrow> do {
           inf_a \<leftarrow> LowerBound_sz g a sz;
           inf_b \<leftarrow> LowerBound_sz g b sz;
           sup_a \<leftarrow> UpperBound_sz g a sz;
           sup_b \<leftarrow> UpperBound_sz g b sz;
           use_a \<leftarrow> (if sup_a \<le> inf_b
                     then do { l \<leftarrow> LowerBound g a; ov \<leftarrow> Overflowed g l sz; Some (\<not> ov) }
                     else Some False);
           if use_a then Some a
           else do {
             use_b \<leftarrow> (if sup_b \<le> inf_a
                       then do { l \<leftarrow> LowerBound g b; ov \<leftarrow> Overflowed g l sz; Some (\<not> ov) }
                       else Some False);
             if use_b then Some b
             else Some (kConstant (Minimum inf_a inf_b))
           }
         }
     }
   }"

definition JoinMax :: "flow_graph \<Rightarrow> range_boundary \<Rightarrow> range_boundary \<Rightarrow> range_size \<Rightarrow> range_boundary option" where
  "JoinMax g a b sz = do {
     e \<leftarrow> RangeBoundary_Equals g a b;
     if e then Some b
     else do {
       c \<leftarrow> CanonicalizeForComparison g (CanonicalizeMaxBoundary g) a b;
       case c of
         Some (a, b) \<Rightarrow> Some (if offset a \<ge> offset b then a else b)
       | None \<Rightarrow> do {
           inf_a \<leftarrow> LowerBound_sz g a sz;
           inf_b \<leftarrow> LowerBound_sz g b sz;
           sup_a \<leftarrow> UpperBound_sz g a sz;
           sup_b \<leftarrow> UpperBound_sz g b sz;
           use_b \<leftarrow> (if sup_a \<le> inf_b
                     then do { u \<leftarrow> UpperBound g b; ov \<leftarrow> Overflowed g u sz; Some (\<not> ov) }
                     else Some False);
           if use_b then Some b
           else do {
             use_a \<leftarrow> (if sup_b \<le> inf_a
                       then do { u \<leftarrow> UpperBound g a; ov \<leftarrow> Overflowed g u sz; Some (\<not> ov) }
                       else Some False);
             if use_a then Some a
             else Some (kConstant (Maximum sup_a sup_b))
           }
         }
     }
   }"

definition IntersectionMin :: "flow_graph \<Rightarrow> range_boundary \<Rightarrow> range_boundary \<Rightarrow> range_boundary option" where
  "IntersectionMin g a b = do {
     ASSERT (a \<noteq> kPositiveInfinity \<and> b \<noteq> kPositiveInfinity);
     ASSERT (a \<noteq> kUnknown \<and> b \<noteq> kUnknown);
     e \<leftarrow> RangeBoundary_Equals g a b;
     if e then Some a
     else if IsMinimumOrBelow a kRangeBoundarySmi then Some b
     else if IsMinimumOrBelow b kRangeBoundarySmi then Some a
     else do {
       c \<leftarrow> CanonicalizeForComparison g (CanonicalizeMinBoundary g) a b;
       case c of
         Some (a, b) \<Rightarrow> Some (if offset a \<ge> offset b then a else b)
       | None \<Rightarrow> do {
           inf_a \<leftarrow> SmiLowerBound g a;
           inf_b \<leftarrow> SmiLowerBound g b;
           Some (if inf_a \<ge> inf_b then a else b)
         }
     }
   }"

definition IntersectionMax :: "flow_graph \<Rightarrow> range_boundary \<Rightarrow> range_boundary \<Rightarrow> range_boundary option" where
  "IntersectionMax g a b = do {
     ASSERT (a \<noteq> kNegativeInfinity \<and> b \<noteq> kNegativeInfinity);
     ASSERT (a \<noteq> kUnknown \<and> b \<noteq> kUnknown);
     e \<leftarrow> RangeBoundary_Equals g a b;
     if e then Some a
     else if IsMaximumOrAbove a kRangeBoundarySmi then Some b
     else if IsMaximumOrAbove b kRangeBoundarySmi then Some a
     else do {
       c \<leftarrow> CanonicalizeForComparison g (CanonicalizeMaxBoundary g) a b;
       case c of
         Some (a, b) \<Rightarrow> Some (if offset a \<le> offset b then a else b)
       | None \<Rightarrow> do {
           sup_a \<leftarrow> SmiUpperBound g a;
           sup_b \<leftarrow> SmiUpperBound g b;
           Some (if sup_a \<le> sup_b then a else b)
         }
     }
   }"

subsection \<open>Evaluation rules\<close>

declare UnwrapConstraint.simps [code] LowerBound.simps [code] UpperBound.simps [code]
  canonicalize_loop.simps [code] comparison_loop.simps [code]

named_theorems rb_simps \<open>the definitions of boundaries and their bounds\<close>

lemmas [rb_simps] = MinConstant_def MaxConstant_def MinSmi_def MaxSmi_def
  IsConstant_def IsInfinity_def IsSymbol_def

lemma MinValue_in64 [simp]: "in64 (MinValue sz)"
  by (cases sz) simp_all

lemma MaxValue_in64 [simp]: "in64 (MaxValue sz)"
  by (cases sz) simp_all

lemma MinValue_less_MaxValue [simp]: "MinValue sz < MaxValue sz"
  by (cases sz) simp_all

lemma MinValue_le_MaxValue [simp]: "MinValue sz \<le> MaxValue sz"
  using MinValue_less_MaxValue [of sz] by linarith

lemma Clamp_const:
  "RangeBoundary_Clamp (kConstant c) sz = kConstant (max (MinValue sz) (min (MaxValue sz) c))"
  using MinValue_le_MaxValue [of sz] by (auto simp: rb_simps simp del: MinValue_le_MaxValue)

declare RangeBoundary_Clamp.simps(3) [simp del]
declare Clamp_const [simp]

end
