(* ===== verification/Range_Arith.thy ===== *)
theory Range_Arith
  imports Range_Boundary
begin

text \<open>
  Class \<open>Range\<close> of \<open>vm/flow_graph_range_analysis.h/.cc\<close>: queries, intersection and the transfer
  functions of the binary integer operations. A \<open>Range*\<close> that may be \<open>NULL\<close> is a \<open>range option\<close>.
  The out-parameters \<open>min\<close> and \<open>max\<close> of the transfer functions are their result.
\<close>

unbundle bit_operations_syntax

subsection \<open>Construction and queries\<close>

definition Range :: "range_boundary \<Rightarrow> range_boundary \<Rightarrow> range option" where
  "Range mn mx = do {
     ASSERT ((mn = kUnknown) = (mx = kUnknown));
     Some \<lparr>range_min = mn, range_max = mx\<rparr>
   }"

definition UnknownRange :: range where
  "UnknownRange = \<lparr>range_min = kUnknown, range_max = kUnknown\<rparr>"

definition Range_IsUnknown :: "range option \<Rightarrow> bool" where
  "Range_IsUnknown other = (case other of None \<Rightarrow> True | Some r \<Rightarrow> range_min r = kUnknown)"

definition Full :: "range_size \<Rightarrow> range" where
  "Full sz = \<lparr>range_min = MinConstant sz, range_max = MaxConstant sz\<rparr>"

definition Range_Equals :: "flow_graph \<Rightarrow> range \<Rightarrow> range option \<Rightarrow> bool option" where
  "Range_Equals g r other = do {
     ASSERT ((range_min r = kUnknown) = (range_max r = kUnknown));
     case other of
       None \<Rightarrow> Some (range_min r = kUnknown)
     | Some q \<Rightarrow> do {
         e \<leftarrow> RangeBoundary_Equals g (range_min r) (range_min q);
         if e then RangeBoundary_Equals g (range_max r) (range_max q) else Some False
       }
   }"

definition ConstantMin :: "flow_graph \<Rightarrow> range option \<Rightarrow> range_size \<Rightarrow> range_boundary option" where
  "ConstantMin g rng sz = (case rng of
     None \<Rightarrow> Some (MinConstant sz)
   | Some r \<Rightarrow> do { lb \<leftarrow> LowerBound g (range_min r); Some (RangeBoundary_Clamp lb sz) })"

definition ConstantMax :: "flow_graph \<Rightarrow> range option \<Rightarrow> range_size \<Rightarrow> range_boundary option" where
  "ConstantMax g rng sz = (case rng of
     None \<Rightarrow> Some (MaxConstant sz)
   | Some r \<Rightarrow> do { ub \<leftarrow> UpperBound g (range_max r); Some (RangeBoundary_Clamp ub sz) })"

text \<open>\<open>ConstantMin(range, size).ConstantValue()\<close> and its dual; the default size is \<open>Int64\<close>.\<close>

definition ConstantMinValue :: "flow_graph \<Rightarrow> range option \<Rightarrow> range_size \<Rightarrow> int option" where
  "ConstantMinValue g rng sz = do { b \<leftarrow> ConstantMin g rng sz; ConstantValue b }"

definition ConstantMaxValue :: "flow_graph \<Rightarrow> range option \<Rightarrow> range_size \<Rightarrow> int option" where
  "ConstantMaxValue g rng sz = do { b \<leftarrow> ConstantMax g rng sz; ConstantValue b }"

abbreviation "CMin g r \<equiv> ConstantMinValue g (Some r) kRangeBoundaryInt64"
abbreviation "CMax g r \<equiv> ConstantMaxValue g (Some r) kRangeBoundaryInt64"

definition OnlyLessThanOrEqualTo :: "flow_graph \<Rightarrow> range \<Rightarrow> int \<Rightarrow> bool option" where
  "OnlyLessThanOrEqualTo g r val = do {
     upper_bound \<leftarrow> UpperBound g (range_max r);
     if upper_bound = kPositiveInfinity then Some False
     else do { c \<leftarrow> ConstantValue upper_bound; Some (c \<le> val) }
   }"

definition OnlyGreaterThanOrEqualTo :: "flow_graph \<Rightarrow> range \<Rightarrow> int \<Rightarrow> bool option" where
  "OnlyGreaterThanOrEqualTo g r val = do {
     lower_bound \<leftarrow> LowerBound g (range_min r);
     if lower_bound = kNegativeInfinity then Some False
     else do { c \<leftarrow> ConstantValue lower_bound; Some (c \<ge> val) }
   }"

definition IsPositive :: "flow_graph \<Rightarrow> range \<Rightarrow> bool option" where
  "IsPositive g r = OnlyGreaterThanOrEqualTo g r 0"

definition IsWithin :: "flow_graph \<Rightarrow> range \<Rightarrow> int \<Rightarrow> int \<Rightarrow> bool option" where
  "IsWithin g r min_int max_int = do {
     ge \<leftarrow> OnlyGreaterThanOrEqualTo g r min_int;
     if ge then OnlyLessThanOrEqualTo g r max_int else Some False
   }"

definition Overlaps :: "flow_graph \<Rightarrow> range \<Rightarrow> int \<Rightarrow> int \<Rightarrow> bool option" where
  "Overlaps g r min_int max_int = do {
     lower \<leftarrow> LowerBound g (range_min r);
     upper \<leftarrow> UpperBound g (range_max r);
     this_min \<leftarrow> (if lower = kNegativeInfinity then Some kMinInt64 else ConstantValue lower);
     this_max \<leftarrow> (if upper = kPositiveInfinity then Some kMaxInt64 else ConstantValue upper);
     Some (if this_min \<le> min_int \<and> min_int \<le> this_max then True
           else if this_min \<le> max_int \<and> max_int \<le> this_max then True
           else if min_int < this_min \<and> max_int > this_max then True
           else False)
   }"

definition IsUnsatisfiable :: "flow_graph \<Rightarrow> range \<Rightarrow> bool option" where
  "IsUnsatisfiable g r =
     (if range_min r = kPositiveInfinity \<or> range_max r = kNegativeInfinity then Some True
      else do {
        mn \<leftarrow> CMin g r;
        mx \<leftarrow> CMax g r;
        if mn > mx then Some True
        else do {
          same \<leftarrow> DependOnSameSymbol g (range_min r) (range_max r);
          Some (same \<and> offset (range_min r) > offset (range_max r))
        }
      })"

definition IsFinite :: "range \<Rightarrow> bool" where
  "IsFinite r \<longleftrightarrow> \<not> IsInfinity (range_min r) \<and> \<not> IsInfinity (range_max r)"

definition Intersect :: "flow_graph \<Rightarrow> range \<Rightarrow> range \<Rightarrow> range option" where
  "Intersect g r other = do {
     mn \<leftarrow> IntersectionMin g (range_min r) (range_min other);
     mx \<leftarrow> IntersectionMax g (range_max r) (range_max other);
     Range mn mx
   }"

definition Fits :: "flow_graph \<Rightarrow> range \<Rightarrow> range_size \<Rightarrow> bool option" where
  "Fits g r sz = do {
     lb \<leftarrow> LowerBound g (range_min r);
     ol \<leftarrow> Overflowed g lb sz;
     if ol then Some False
     else do {
       ub \<leftarrow> UpperBound g (range_max r);
       ou \<leftarrow> Overflowed g ub sz;
       Some (\<not> ou)
     }
   }"

definition Range_Clamp :: "range \<Rightarrow> range_size \<Rightarrow> range" where
  "Range_Clamp r sz = \<lparr>range_min = RangeBoundary_Clamp (range_min r) sz,
                       range_max = RangeBoundary_Clamp (range_max r) sz\<rparr>"

definition RangeUtils_Fits :: "flow_graph \<Rightarrow> range option \<Rightarrow> range_size \<Rightarrow> bool option" where
  "RangeUtils_Fits g r sz = (case r of None \<Rightarrow> Some False
     | Some q \<Rightarrow> if Range_IsUnknown (Some q) then Some False else Fits g q sz)"

definition RangeUtils_IsWithin :: "flow_graph \<Rightarrow> range option \<Rightarrow> int \<Rightarrow> int \<Rightarrow> bool option" where
  "RangeUtils_IsWithin g r mn mx = (case r of None \<Rightarrow> Some False
     | Some q \<Rightarrow> if Range_IsUnknown (Some q) then Some False else IsWithin g q mn mx)"

definition RangeUtils_IsPositive :: "flow_graph \<Rightarrow> range option \<Rightarrow> bool option" where
  "RangeUtils_IsPositive g r = (case r of None \<Rightarrow> Some False
     | Some q \<Rightarrow> if Range_IsUnknown (Some q) then Some False else IsPositive g q)"

subsection \<open>Transfer functions\<close>

type_synonym boundaries = "range_boundary \<times> range_boundary"

definition Range_Shl :: "flow_graph \<Rightarrow> range \<Rightarrow> range \<Rightarrow> boundaries option" where
  "Range_Shl g left right = do {
     left_max \<leftarrow> CMax g left;
     left_min \<leftarrow> CMin g left;
     rmax \<leftarrow> CMax g right;
     rmin \<leftarrow> CMin g right;
     let right_max = Maximum rmax 0;
     let right_min = Maximum rmin 0;
     result_min \<leftarrow> RangeBoundary_Shl (kConstant left_min)
        (if left_min > 0 then right_min else right_max)
        (if left_min > 0 then kPositiveInfinity else kNegativeInfinity);
     result_max \<leftarrow> RangeBoundary_Shl (kConstant left_max)
        (if left_max > 0 then right_max else right_min)
        (if left_max > 0 then kPositiveInfinity else kNegativeInfinity);
     Some (result_min, result_max)
   }"

definition Range_Shr :: "flow_graph \<Rightarrow> range \<Rightarrow> range \<Rightarrow> boundaries option" where
  "Range_Shr g left right = do {
     left_max \<leftarrow> CMax g left;
     left_min \<leftarrow> CMin g left;
     rmax \<leftarrow> CMax g right;
     rmin \<leftarrow> CMin g right;
     let right_max = Maximum rmax 0;
     let right_min = Maximum rmin 0;
     result_min \<leftarrow> RangeBoundary_Shr (kConstant left_min) (if left_min > 0 then right_max else right_min);
     result_max \<leftarrow> RangeBoundary_Shr (kConstant left_max) (if left_max > 0 then right_min else right_max);
     Some (result_min, result_max)
   }"

definition BitSize :: "flow_graph \<Rightarrow> range \<Rightarrow> int option" where
  "BitSize g rng = do {
     mn \<leftarrow> CMin g rng;
     mx \<leftarrow> CMax g rng;
     a \<leftarrow> BitLength mn;
     b \<leftarrow> BitLength mx;
     Some (Maximum a b)
   }"

definition Range_BitwiseOp :: "flow_graph \<Rightarrow> range \<Rightarrow> range \<Rightarrow> boundaries option" where
  "Range_BitwiseOp g left_range right_range = do {
     a \<leftarrow> BitSize g left_range;
     b \<leftarrow> BitSize g right_range;
     let bitsize = Maximum a b;
     lp \<leftarrow> IsPositive g left_range;
     positive \<leftarrow> (if lp then IsPositive g right_range else Some False);
     result_min \<leftarrow> (if positive then Some 0 else shl64 (-1) bitsize);
     result_max \<leftarrow> (if 0 \<le> bitsize \<and> bitsize < 64
        then Some (sint (push_bit (nat bitsize) (1 :: 64 word) - 1)) else None);
     Some (kConstant result_min, kConstant result_max)
   }"

definition Range_And :: "flow_graph \<Rightarrow> range \<Rightarrow> range \<Rightarrow> boundaries option" where
  "Range_And g left_range right_range = do {
     rmin \<leftarrow> CMin g right_range;
     if rmin \<ge> 0 then do {
       result_max \<leftarrow> ConstantMax g (Some right_range) kRangeBoundaryInt64;
       Some (kConstant 0, result_max)
     }
     else do {
       lmin \<leftarrow> CMin g left_range;
       if lmin \<ge> 0 then do {
         result_max \<leftarrow> ConstantMax g (Some left_range) kRangeBoundaryInt64;
         Some (kConstant 0, result_max)
       }
       else Range_BitwiseOp g left_range right_range
     }
   }"

text \<open>
  \<open>left_min\<close> and \<open>left_max\<close> of \<open>Range::Add\<close> and \<open>Range::Sub\<close>: when the left operand is the
  length of an array the symbol is used instead of its range.
\<close>

definition left_boundary :: "flow_graph \<Rightarrow> defn_id option \<Rightarrow> range_boundary \<Rightarrow> range_boundary option" where
  "left_boundary g left_defn b = do {
     is_len \<leftarrow> IsArrayLength g left_defn;
     if is_len then (case left_defn of Some d \<Rightarrow> FromDefinition g d 0 | None \<Rightarrow> None) else Some b
   }"

definition Range_Add :: "flow_graph \<Rightarrow> range \<Rightarrow> range \<Rightarrow> defn_id option \<Rightarrow> boundaries option" where
  "Range_Add g left_range right_range left_defn = do {
     left_min \<leftarrow> left_boundary g left_defn (range_min left_range);
     left_max \<leftarrow> left_boundary g left_defn (range_max left_range);
     smin \<leftarrow> SymbolicAdd g left_min (range_min right_range);
     result_min \<leftarrow> (case smin of
         Some b \<Rightarrow> Some b
       | None \<Rightarrow> do {
           l \<leftarrow> LowerBound g (range_min left_range);
           r \<leftarrow> LowerBound g (range_min right_range);
           RangeBoundary_Add l r kNegativeInfinity
         });
     smax \<leftarrow> SymbolicAdd g left_max (range_max right_range);
     result_max \<leftarrow> (case smax of
         Some b \<Rightarrow> Some b
       | None \<Rightarrow> do {
           r \<leftarrow> UpperBound g (range_max right_range);
           l \<leftarrow> UpperBound g (range_max left_range);
           RangeBoundary_Add r l kPositiveInfinity
         });
     Some (result_min, result_max)
   }"

definition Range_Sub :: "flow_graph \<Rightarrow> range \<Rightarrow> range \<Rightarrow> defn_id option \<Rightarrow> boundaries option" where
  "Range_Sub g left_range right_range left_defn = do {
     left_min \<leftarrow> left_boundary g left_defn (range_min left_range);
     left_max \<leftarrow> left_boundary g left_defn (range_max left_range);
     smin \<leftarrow> SymbolicSub g left_min (range_max right_range);
     result_min \<leftarrow> (case smin of
         Some b \<Rightarrow> Some b
       | None \<Rightarrow> do {
           l \<leftarrow> LowerBound g (range_min left_range);
           r \<leftarrow> UpperBound g (range_max right_range);
           RangeBoundary_Sub l r kNegativeInfinity
         });
     smax \<leftarrow> SymbolicSub g left_max (range_min right_range);
     result_max \<leftarrow> (case smax of
         Some b \<Rightarrow> Some b
       | None \<Rightarrow> do {
           l \<leftarrow> UpperBound g (range_max left_range);
           r \<leftarrow> LowerBound g (range_min right_range);
           RangeBoundary_Sub l r kPositiveInfinity
         });
     Some (result_min, result_max)
   }"

definition OnlyPositiveOrZero :: "flow_graph \<Rightarrow> range \<Rightarrow> range \<Rightarrow> bool option" where
  "OnlyPositiveOrZero g a b = do {
     p \<leftarrow> OnlyGreaterThanOrEqualTo g a 0;
     if p then OnlyGreaterThanOrEqualTo g b 0 else Some False
   }"

definition OnlyNegativeOrZero :: "flow_graph \<Rightarrow> range \<Rightarrow> range \<Rightarrow> bool option" where
  "OnlyNegativeOrZero g a b = do {
     p \<leftarrow> OnlyLessThanOrEqualTo g a 0;
     if p then OnlyLessThanOrEqualTo g b 0 else Some False
   }"

definition SameSign :: "flow_graph \<Rightarrow> range \<Rightarrow> range \<Rightarrow> bool option" where
  "SameSign g a b = do {
     p \<leftarrow> OnlyPositiveOrZero g a b;
     if p then Some True else OnlyNegativeOrZero g a b
   }"

definition ConstantAbsMax :: "flow_graph \<Rightarrow> range \<Rightarrow> int option" where
  "ConstantAbsMax g rng = do {
     mn \<leftarrow> CMin g rng;
     abs_min \<leftarrow> Abs mn;
     mx \<leftarrow> CMax g rng;
     abs_max \<leftarrow> Abs mx;
     Some (Maximum abs_min abs_max)
   }"

definition ConstantAbsMin :: "flow_graph \<Rightarrow> range \<Rightarrow> int option" where
  "ConstantAbsMin g rng = do {
     mn \<leftarrow> CMin g rng;
     abs_min \<leftarrow> Abs mn;
     mx \<leftarrow> CMax g rng;
     abs_max \<leftarrow> Abs mx;
     Some (Minimum abs_min abs_max)
   }"

definition Range_Mul :: "flow_graph \<Rightarrow> range \<Rightarrow> range \<Rightarrow> boundaries option" where
  "Range_Mul g left_range right_range = do {
     left_max \<leftarrow> ConstantAbsMax g left_range;
     right_max \<leftarrow> ConstantAbsMax g right_range;
     if left_max \<le> - kSmiMin \<and> right_max \<le> - kSmiMin \<and>
        (left_max = 0 \<or> right_max \<le> kMaxInt64 div left_max)
     then do {
       mul_max \<leftarrow> mul64 left_max right_max;
       same \<leftarrow> SameSign g left_range right_range;
       if same then do {
         lm \<leftarrow> ConstantAbsMin g left_range;
         rm \<leftarrow> ConstantAbsMin g right_range;
         mul_min \<leftarrow> mul64 lm rm;
         Some (kConstant mul_min, kConstant mul_max)
       }
       else do { n \<leftarrow> neg64 mul_max; Some (kConstant n, kConstant mul_max) }
     }
     else do {
       same \<leftarrow> SameSign g left_range right_range;
       if same then Some (kConstant 0, kPositiveInfinity)
       else Some (kNegativeInfinity, kPositiveInfinity)
     }
   }"

fun BinaryOp_boundaries ::
  "token_kind \<Rightarrow> flow_graph \<Rightarrow> range \<Rightarrow> range \<Rightarrow> defn_id option \<Rightarrow> boundaries option" where
  "BinaryOp_boundaries kADD g l r d = Range_Add g l r d"
| "BinaryOp_boundaries kSUB g l r d = Range_Sub g l r d"
| "BinaryOp_boundaries kMUL g l r d = Range_Mul g l r"
| "BinaryOp_boundaries kSHL g l r d = Range_Shl g l r"
| "BinaryOp_boundaries kSHR g l r d = Range_Shr g l r"
| "BinaryOp_boundaries kBIT_AND g l r d = Range_And g l r"
| "BinaryOp_boundaries kBIT_XOR g l r d = Range_BitwiseOp g l r"
| "BinaryOp_boundaries kBIT_OR g l r d = Range_BitwiseOp g l r"
| "BinaryOp_boundaries op g l r d = Some (kNegativeInfinity, kPositiveInfinity)"

definition Range_BinaryOp ::
  "token_kind \<Rightarrow> flow_graph \<Rightarrow> range \<Rightarrow> range \<Rightarrow> defn_id option \<Rightarrow> range option" where
  "Range_BinaryOp op g left_range right_range left_defn = do {
     ASSERT (IsFinite left_range);
     ASSERT (IsFinite right_range);
     (mn, mx) \<leftarrow> BinaryOp_boundaries op g left_range right_range left_defn;
     ASSERT (mn \<noteq> kUnknown \<and> mx \<noteq> kUnknown);
     Range mn mx
   }"

end
