(* ===== verification/Range_Soundness.thy ===== *)
theory Range_Soundness
  imports Range_Arith
begin

text \<open>
  The meaning of boundaries and ranges, and the facts on boundaries the soundness proofs share.
  An \<open>execution\<close> is one activation of the compiled function at one of its instructions: the
  definitions that have been executed and the values they have. \<open>consistent g \<nu>\<close> says that it
  agrees with the graph, for the executed definitions only: a range that has been computed holds,
  a constraint has the value of its input, a Smi constant its own value, an overflow-checked Smi
  addition or subtraction the exact result, and instructions that common subexpression elimination
  may merge have equal values. The inputs of an executed definition and the symbols of its range
  have been executed, because they dominate it.
\<close>

subsection \<open>Meaning\<close>

record execution =
  executed :: "defn_id set"
  val :: "defn_id \<Rightarrow> int"

definition smi :: "int \<Rightarrow> bool" where
  "smi x \<longleftrightarrow> kSmiMin \<le> x \<and> x \<le> kSmiMax"

definition smi_value :: "execution \<Rightarrow> defn_id \<Rightarrow> bool" where
  "smi_value \<nu> s \<longleftrightarrow> s \<in> executed \<nu> \<and> smi (val \<nu> s)"

fun lower_ok :: "execution \<Rightarrow> range_boundary \<Rightarrow> int \<Rightarrow> bool" where
  "lower_ok \<nu> kUnknown v = False"
| "lower_ok \<nu> kNegativeInfinity v = True"
| "lower_ok \<nu> kPositiveInfinity v = (v > kMaxInt64)"
| "lower_ok \<nu> (kSymbol s off) v = (val \<nu> s + off \<le> v)"
| "lower_ok \<nu> (kConstant c) v = (c \<le> v)"

fun upper_ok :: "execution \<Rightarrow> range_boundary \<Rightarrow> int \<Rightarrow> bool" where
  "upper_ok \<nu> kUnknown v = False"
| "upper_ok \<nu> kNegativeInfinity v = (v < kMinInt64)"
| "upper_ok \<nu> kPositiveInfinity v = True"
| "upper_ok \<nu> (kSymbol s off) v = (v \<le> val \<nu> s + off)"
| "upper_ok \<nu> (kConstant c) v = (v \<le> c)"

definition in_range :: "execution \<Rightarrow> range \<Rightarrow> int \<Rightarrow> bool" where
  "in_range \<nu> r v \<longleftrightarrow> lower_ok \<nu> (range_min r) v \<and> upper_ok \<nu> (range_max r) v"

definition in_size :: "range_size \<Rightarrow> int \<Rightarrow> bool" where
  "in_size sz v \<longleftrightarrow> MinValue sz \<le> v \<and> v \<le> MaxValue sz"

text \<open>A well-formed boundary: constants and offsets are 64-bit, symbols stand for Smis.\<close>

fun b_ok :: "execution \<Rightarrow> range_boundary \<Rightarrow> bool" where
  "b_ok \<nu> (kSymbol s off) \<longleftrightarrow> in64 off \<and> smi_value \<nu> s"
| "b_ok \<nu> (kConstant c) \<longleftrightarrow> in64 c"
| "b_ok \<nu> b \<longleftrightarrow> True"

definition r_ok :: "execution \<Rightarrow> range \<Rightarrow> bool" where
  "r_ok \<nu> r \<longleftrightarrow> b_ok \<nu> (range_min r) \<and> b_ok \<nu> (range_max r)"

definition ranges_hold :: "flow_graph \<Rightarrow> execution \<Rightarrow> bool" where
  "ranges_hold g \<nu> \<longleftrightarrow> (\<forall>d r. d \<in> executed \<nu> \<and> range_of g d = Some r \<longrightarrow> r_ok \<nu> r \<and>
     (range_min r \<noteq> kUnknown \<longrightarrow> lower_ok \<nu> (range_min r) (val \<nu> d)) \<and>
     (range_max r \<noteq> kUnknown \<longrightarrow> upper_ok \<nu> (range_max r) (val \<nu> d)))"

fun instr_holds :: "execution \<Rightarrow> instruction \<Rightarrow> int \<Rightarrow> bool" where
  "instr_holds \<nu> (ConstraintInstr v c) x \<longleftrightarrow> v \<in> executed \<nu> \<and> x = val \<nu> v"
| "instr_holds \<nu> (ConstantInstr (SmiValue c)) x \<longleftrightarrow> x = c \<and> smi c"
| "instr_holds \<nu> (BinarySmiOpInstr op l r) x \<longleftrightarrow>
     (op = kADD \<longrightarrow> x = val \<nu> l + val \<nu> r \<and> smi_value \<nu> l \<and> smi_value \<nu> r) \<and>
     (op = kSUB \<longrightarrow> x = val \<nu> l - val \<nu> r \<and> smi_value \<nu> l \<and> smi_value \<nu> r)"
| "instr_holds \<nu> i x \<longleftrightarrow> True"

definition instrs_hold :: "flow_graph \<Rightarrow> execution \<Rightarrow> bool" where
  "instrs_hold g \<nu> \<longleftrightarrow> (\<forall>d \<in> executed \<nu>. instr_holds \<nu> (instr_of g d) (val \<nu> d))"

definition cse_holds :: "flow_graph \<Rightarrow> execution \<Rightarrow> bool" where
  "cse_holds g \<nu> \<longleftrightarrow> (\<forall>a \<in> executed \<nu>. \<forall>b \<in> executed \<nu>.
     allows_CSE (defs g a) \<and> no_dependencies (defs g a) \<and>
     allows_CSE (defs g b) \<and> no_dependencies (defs g b) \<and> instr_equals g a b \<longrightarrow> val \<nu> a = val \<nu> b)"

definition consistent :: "flow_graph \<Rightarrow> execution \<Rightarrow> bool" where
  "consistent g \<nu> \<longleftrightarrow> ranges_hold g \<nu> \<and> instrs_hold g \<nu> \<and> cse_holds g \<nu>"

lemma smi_in64: "smi x \<Longrightarrow> in64 x"
  by (simp add: smi_def in64_def konst)

lemma smi_in_size: "smi = in_size kRangeBoundarySmi"
  by (simp add: smi_def in_size_def fun_eq_iff)

lemma in64_in_size: "in64 = in_size kRangeBoundaryInt64"
  by (simp add: in64_def in_size_def fun_eq_iff)

lemma smi_valueD: "smi_value \<nu> s \<Longrightarrow> s \<in> executed \<nu>" "smi_value \<nu> s \<Longrightarrow> smi (val \<nu> s)"
  by (simp_all add: smi_value_def)

lemma consistent_range:
  assumes "consistent g \<nu>" "range_of g d = Some r" "d \<in> executed \<nu>"
  shows "b_ok \<nu> (range_min r)" "b_ok \<nu> (range_max r)"
    "range_min r \<noteq> kUnknown \<Longrightarrow> lower_ok \<nu> (range_min r) (val \<nu> d)"
    "range_max r \<noteq> kUnknown \<Longrightarrow> upper_ok \<nu> (range_max r) (val \<nu> d)"
  using assms by (auto simp: consistent_def ranges_hold_def r_ok_def)

lemma consistent_instr:
  assumes "consistent g \<nu>" "d \<in> executed \<nu>"
  shows "instr_of g d = ConstraintInstr v c \<Longrightarrow> v \<in> executed \<nu> \<and> val \<nu> d = val \<nu> v"
    and "instr_of g d = ConstantInstr (SmiValue k) \<Longrightarrow> val \<nu> d = k \<and> smi k"
    and "instr_of g d = BinarySmiOpInstr kADD l r \<Longrightarrow>
      val \<nu> d = val \<nu> l + val \<nu> r \<and> smi_value \<nu> l \<and> smi_value \<nu> r"
    and "instr_of g d = BinarySmiOpInstr kSUB l r \<Longrightarrow>
      val \<nu> d = val \<nu> l - val \<nu> r \<and> smi_value \<nu> l \<and> smi_value \<nu> r"
proof -
  have "instr_holds \<nu> (instr_of g d) (val \<nu> d)" using assms by (simp add: consistent_def instrs_hold_def)
  then show "instr_of g d = ConstraintInstr v c \<Longrightarrow> v \<in> executed \<nu> \<and> val \<nu> d = val \<nu> v"
    "instr_of g d = ConstantInstr (SmiValue k) \<Longrightarrow> val \<nu> d = k \<and> smi k"
    "instr_of g d = BinarySmiOpInstr kADD l r \<Longrightarrow>
      val \<nu> d = val \<nu> l + val \<nu> r \<and> smi_value \<nu> l \<and> smi_value \<nu> r"
    "instr_of g d = BinarySmiOpInstr kSUB l r \<Longrightarrow>
      val \<nu> d = val \<nu> l - val \<nu> r \<and> smi_value \<nu> l \<and> smi_value \<nu> r"
    by simp_all
qed

subsection \<open>Equal definitions\<close>

lemmas UnwrapConstraint_run = UnwrapConstraint.raw_induct [rotated, consumes 1, case_names step]

lemma UnwrapConstraint_value:
  "UnwrapConstraint g d = Some u \<Longrightarrow> consistent g \<nu> \<Longrightarrow> d \<in> executed \<nu> \<Longrightarrow>
     u \<in> executed \<nu> \<and> val \<nu> u = val \<nu> d"
proof (induction g d u rule: UnwrapConstraint_run)
  case (step f g d u)
  then show ?case using consistent_instr(1) [OF step.prems] by (auto split: instruction.splits)
qed

lemma AreEqualDefinitions_value:
  assumes "AreEqualDefinitions g a b = Some True" "consistent g \<nu>" "a \<in> executed \<nu>" "b \<in> executed \<nu>"
  shows "val \<nu> a = val \<nu> b"
proof -
  from assms(1) obtain u w where u: "UnwrapConstraint g a = Some u" "UnwrapConstraint g b = Some w"
    and e: "u = w \<or> (allows_CSE (defs g u) \<and> no_dependencies (defs g u) \<and>
      allows_CSE (defs g w) \<and> no_dependencies (defs g w) \<and> instr_equals g u w)"
    by (auto simp: AreEqualDefinitions_def)
  have v: "u \<in> executed \<nu> \<and> val \<nu> u = val \<nu> a" "w \<in> executed \<nu> \<and> val \<nu> w = val \<nu> b"
    using UnwrapConstraint_value [OF u(1) assms(2,3)] UnwrapConstraint_value [OF u(2) assms(2,4)] by simp_all
  then have "val \<nu> u = val \<nu> w" using e assms(2) unfolding consistent_def cse_holds_def by blast
  with v show ?thesis by simp
qed

lemma DependOnSameSymbol_value:
  assumes "DependOnSameSymbol g a b = Some True" "consistent g \<nu>" "b_ok \<nu> a" "b_ok \<nu> b"
  obtains s so t to where "a = kSymbol s so" "b = kSymbol t to" "val \<nu> s = val \<nu> t"
  using assms
  by (cases "(g, a, b)" rule: DependOnSameSymbol.cases) (auto dest: AreEqualDefinitions_value smi_valueD(1))

lemma RangeBoundary_Equals_value:
  assumes "RangeBoundary_Equals g a b = Some True" "consistent g \<nu>" "b_ok \<nu> a" "b_ok \<nu> b"
  shows "lower_ok \<nu> a v = lower_ok \<nu> b v" "upper_ok \<nu> a v = upper_ok \<nu> b v"
  using assms
  by (cases "(g, a, b)" rule: RangeBoundary_Equals.cases;
      auto split: if_splits dest: AreEqualDefinitions_value smi_valueD(1))+

subsection \<open>Arithmetic on constant boundaries\<close>

text \<open>The boundaries \<open>LowerBound\<close> and \<open>UpperBound\<close> produce.\<close>

definition lower_const :: "range_boundary \<Rightarrow> bool" where
  "lower_const l \<longleftrightarrow> l = kNegativeInfinity \<or> (\<exists>c. l = kConstant c \<and> in64 c)"

definition upper_const :: "range_boundary \<Rightarrow> bool" where
  "upper_const l \<longleftrightarrow> l = kPositiveInfinity \<or> (\<exists>c. l = kConstant c \<and> in64 c)"

lemma RangeBoundary_Add_const:
  "in64 x \<Longrightarrow> in64 y \<Longrightarrow> RangeBoundary_Add (kConstant x) (kConstant y) ov =
     Some (if in64 (x + y) then kConstant (x + y) else ov)"
  by (simp add: RangeBoundary_Add_def rb_simps)

lemma RangeBoundary_Sub_const:
  "in64 x \<Longrightarrow> in64 y \<Longrightarrow> RangeBoundary_Sub (kConstant x) (kConstant y) ov =
     Some (if in64 (x - y) then kConstant (x - y) else ov)"
  by (simp add: RangeBoundary_Sub_def rb_simps)

lemma RangeBoundary_Add_infinite [simp]:
  "RangeBoundary_Add kNegativeInfinity b ov = Some ov" "RangeBoundary_Add kPositiveInfinity b ov = Some ov"
  "RangeBoundary_Add a kNegativeInfinity ov = Some ov" "RangeBoundary_Add a kPositiveInfinity ov = Some ov"
  by (simp_all add: RangeBoundary_Add_def rb_simps)

lemma RangeBoundary_Sub_infinite [simp]:
  "RangeBoundary_Sub kNegativeInfinity b ov = Some ov" "RangeBoundary_Sub kPositiveInfinity b ov = Some ov"
  "RangeBoundary_Sub a kNegativeInfinity ov = Some ov" "RangeBoundary_Sub a kPositiveInfinity ov = Some ov"
  by (simp_all add: RangeBoundary_Sub_def rb_simps)

lemma clamp_bounds:
  "MinValue sz \<le> max (MinValue sz) (min (MaxValue sz) c)"
  "max (MinValue sz) (min (MaxValue sz) c) \<le> MaxValue sz"
  by (auto simp: max_def min_def)

lemma Overflowed_const [simp]:
  "Overflowed g (kConstant c) sz = Some (\<not> in_size sz c)"
  by (auto simp: Overflowed_def rb_simps in_size_def max_def min_def)

lemma Overflowed_infinite [simp]:
  "Overflowed g kNegativeInfinity sz = Some True" "Overflowed g kPositiveInfinity sz = Some True"
  by (simp_all add: Overflowed_def rb_simps)

subsection \<open>Lower and upper bounds\<close>

lemma LowerBound_simps [simp]:
  "LowerBound g kNegativeInfinity = Some kNegativeInfinity"
  "LowerBound g kPositiveInfinity = Some kNegativeInfinity"
  "LowerBound g (kConstant c) = Some (kConstant c)"
  "LowerBound g kUnknown = None"
  by (simp_all add: LowerBound.simps)

lemma UpperBound_simps [simp]:
  "UpperBound g kNegativeInfinity = Some kPositiveInfinity"
  "UpperBound g kPositiveInfinity = Some kPositiveInfinity"
  "UpperBound g (kConstant c) = Some (kConstant c)"
  "UpperBound g kUnknown = None"
  by (simp_all add: UpperBound.simps)

lemma clamp_add_lower:
  assumes "lower_const l" "lower_ok \<nu> l x" "smi x" "in64 off"
    "RangeBoundary_Add (RangeBoundary_Clamp l kRangeBoundarySmi) (kConstant off) kNegativeInfinity = Some r"
  shows "lower_const r \<and> lower_ok \<nu> r (x + off)"
proof -
  obtain c where c: "RangeBoundary_Clamp l kRangeBoundarySmi = kConstant c" "in64 c" "c \<le> x"
    using assms(1-3) by (auto simp: lower_const_def rb_simps smi_def in64_def konst)
  with assms(4,5) show ?thesis
    by (auto simp: RangeBoundary_Add_const lower_const_def split: if_splits)
qed

lemma clamp_add_upper:
  assumes "upper_const u" "upper_ok \<nu> u x" "smi x" "in64 off"
    "RangeBoundary_Add (RangeBoundary_Clamp u kRangeBoundarySmi) (kConstant off) kPositiveInfinity = Some r"
  shows "upper_const r \<and> upper_ok \<nu> r (x + off)"
proof -
  obtain c where c: "RangeBoundary_Clamp u kRangeBoundarySmi = kConstant c" "in64 c" "x \<le> c"
    using assms(1-3) by (auto simp: upper_const_def rb_simps smi_def in64_def konst)
  with assms(4,5) show ?thesis
    by (auto simp: RangeBoundary_Add_const upper_const_def split: if_splits)
qed

lemmas LowerBound_run = LowerBound.raw_induct [rotated, consumes 1, case_names step]
lemmas UpperBound_run = UpperBound.raw_induct [rotated, consumes 1, case_names step]

lemma smi_bound_const: "lower_const (MinConstant sz)" "upper_const (MaxConstant sz)"
  by (simp_all add: lower_const_def upper_const_def rb_simps)

lemma LowerBound_sound:
  "LowerBound g b = Some l \<Longrightarrow> consistent g \<nu> \<Longrightarrow> b_ok \<nu> b \<Longrightarrow>
     b \<noteq> kUnknown \<and> lower_const l \<and> (\<forall>v. lower_ok \<nu> b v \<longrightarrow> lower_ok \<nu> l v)"
proof (induction g b l rule: LowerBound_run)
  case (step f g b l)
  show ?case
  proof (cases b)
    case (kSymbol s off)
    then have ex: "s \<in> executed \<nu>" and ok: "smi (val \<nu> s)" "in64 off"
      using step.prems by (auto dest: smi_valueD)
    have "lower_const l \<and> lower_ok \<nu> l (val \<nu> s + off)"
    proof (cases "range_of g s")
      case None
      then have *: "RangeBoundary_Add (RangeBoundary_Clamp (MinConstant kRangeBoundarySmi) kRangeBoundarySmi)
          (kConstant off) kNegativeInfinity = Some l"
        using step.hyps kSymbol by (simp add: rb_simps)
      show ?thesis
        by (rule clamp_add_lower [OF smi_bound_const(1) _ ok *]) (use ok(1) in \<open>simp add: rb_simps smi_def\<close>)
    next
      case (Some r)
      then obtain lb where lb: "f g (range_min r) = Some lb"
        "RangeBoundary_Add (RangeBoundary_Clamp lb kRangeBoundarySmi) (kConstant off) kNegativeInfinity = Some l"
        using step.hyps kSymbol by auto
      note cr = consistent_range [OF step.prems(1) Some ex]
      note IH = step.IH [OF lb(1) step.prems(1) cr(1)]
      show ?thesis
        by (rule clamp_add_lower [OF _ _ ok lb(2)]) (use IH cr(3) in auto)
    qed
    then show ?thesis using kSymbol by (cases l) (auto simp: lower_const_def)
  qed (use step in \<open>auto simp: lower_const_def\<close>)
qed

lemma UpperBound_sound:
  "UpperBound g b = Some l \<Longrightarrow> consistent g \<nu> \<Longrightarrow> b_ok \<nu> b \<Longrightarrow>
     b \<noteq> kUnknown \<and> upper_const l \<and> (\<forall>v. upper_ok \<nu> b v \<longrightarrow> upper_ok \<nu> l v)"
proof (induction g b l rule: UpperBound_run)
  case (step f g b l)
  show ?case
  proof (cases b)
    case (kSymbol s off)
    then have ex: "s \<in> executed \<nu>" and ok: "smi (val \<nu> s)" "in64 off"
      using step.prems by (auto dest: smi_valueD)
    have "upper_const l \<and> upper_ok \<nu> l (val \<nu> s + off)"
    proof (cases "range_of g s")
      case None
      then have *: "RangeBoundary_Add (RangeBoundary_Clamp (MaxConstant kRangeBoundarySmi) kRangeBoundarySmi)
          (kConstant off) kPositiveInfinity = Some l"
        using step.hyps kSymbol by (simp add: rb_simps)
      show ?thesis
        by (rule clamp_add_upper [OF smi_bound_const(2) _ ok *]) (use ok(1) in \<open>simp add: rb_simps smi_def\<close>)
    next
      case (Some r)
      then obtain lb where lb: "f g (range_max r) = Some lb"
        "RangeBoundary_Add (RangeBoundary_Clamp lb kRangeBoundarySmi) (kConstant off) kPositiveInfinity = Some l"
        using step.hyps kSymbol by auto
      note cr = consistent_range [OF step.prems(1) Some ex]
      note IH = step.IH [OF lb(1) step.prems(1) cr(2)]
      show ?thesis
        by (rule clamp_add_upper [OF _ _ ok lb(2)]) (use IH cr(4) in auto)
    qed
    then show ?thesis using kSymbol by (cases l) (auto simp: upper_const_def)
  qed (use step in \<open>auto simp: upper_const_def\<close>)
qed

subsection \<open>Canonicalization keeps the meaning\<close>

lemma IsConstantDefn_value:
  assumes "SmiConstantValue g d = Some c" "consistent g \<nu>" "smi_value \<nu> d"
  shows "val \<nu> d = c" "in64 c"
  using assms consistent_instr(2) [OF assms(2) smi_valueD(1) [OF assms(3)], of c]
  by (auto simp: SmiConstantValue_def smi_in64 split: instruction.splits const_value.splits)

definition means :: "execution \<Rightarrow> range_boundary \<Rightarrow> int \<Rightarrow> bool" where
  "means \<nu> b x \<longleftrightarrow> b_ok \<nu> b \<and> (b = kConstant x \<or> (\<exists>s. b = kSymbol s (x - val \<nu> s)))"

lemma means_simps:
  "means \<nu> b x \<Longrightarrow> b_ok \<nu> b" "means \<nu> b x \<Longrightarrow> lower_ok \<nu> b v \<longleftrightarrow> x \<le> v"
  "means \<nu> b x \<Longrightarrow> upper_ok \<nu> b v \<longleftrightarrow> v \<le> x"
  by (auto simp: means_def)

lemma FromDefinition_means:
  assumes "FromDefinition g d off = Some b" "consistent g \<nu>" "in64 off" "smi_value \<nu> d"
  shows "means \<nu> b (val \<nu> d + off)"
  using assms(1,3,4) consistent_instr(2) [OF assms(2) smi_valueD(1) [OF assms(4)]]
  by (auto simp: FromDefinition_def means_def split: instruction.splits const_value.splits)

lemmas canonicalize_loop_run = canonicalize_loop.raw_induct [rotated, consumes 1, case_names step]

lemma canonicalize_loop_means:
  "canonicalize_loop g ov s off = Some b \<Longrightarrow> consistent g \<nu> \<Longrightarrow> smi_value \<nu> s \<Longrightarrow> in64 off \<Longrightarrow>
     b = ov \<or> means \<nu> b (val \<nu> s + off)"
proof (induction g ov s off b rule: canonicalize_loop_run)
  case (step f g ov s off b)
  note cst = IsConstantDefn_value [OF _ step.prems(1)]
  note FD = FromDefinition_means [OF _ step.prems(1,3,2)]
  note ci = consistent_instr [OF step.prems(1) smi_valueD(1) [OF step.prems(2)]]
  show ?case
  proof (cases "instr_of g s")
    case (ConstraintInstr v c)
    then show ?thesis
      using step ci(1) [OF ConstraintInstr] by (auto simp: smi_value_def)
  next
    case (BinarySmiOpInstr op l r)
    consider (add) "op = kADD" | (sub) "op = kSUB" | (other) "op \<noteq> kADD" "op \<noteq> kSUB" by blast
    then show ?thesis
    proof cases
      case add
      note v = ci(3) [OF BinarySmiOpInstr [unfolded add]]
      show ?thesis
        using step.hyps step.prems BinarySmiOpInstr add v FD
        by (fastforce split: if_splits dest: step.IH cst simp: cst algebra_simps)
    next
      case sub
      note v = ci(4) [OF BinarySmiOpInstr [unfolded sub]]
      show ?thesis
        using step.hyps step.prems BinarySmiOpInstr sub v FD
        by (fastforce split: if_splits dest: step.IH cst simp: cst algebra_simps)
    next
      case other
      then show ?thesis using step.hyps BinarySmiOpInstr FD by simp
    qed
  qed (use step.hyps FD in simp_all)
qed

text \<open>
  A step of \<open>CanonicalizeForComparison\<close> rewrites one of the two boundaries. The locale states what
  the loop needs of the step: it keeps an invariant \<open>I\<close> and moves a boundary along a preorder \<open>R\<close>.
\<close>

locale boundary_walk =
  fixes g :: flow_graph
    and step_op :: "range_boundary \<Rightarrow> range_boundary option option"
    and I :: "range_boundary \<Rightarrow> bool"
    and R :: "range_boundary \<Rightarrow> range_boundary \<Rightarrow> bool"
  assumes step_sound: "I x \<Longrightarrow> step_op x = Some (Some y) \<Longrightarrow> I y \<and> R x y"
    and R_refl: "R x x"
    and R_trans: "R x y \<Longrightarrow> R y z \<Longrightarrow> R x z"
begin

lemma comparison_loop_sound:
  "comparison_loop h p a b = Some res \<Longrightarrow> h = g \<Longrightarrow> p = step_op \<Longrightarrow> I a \<Longrightarrow> I b \<Longrightarrow> res = Some (a', b') \<Longrightarrow>
     I a' \<and> I b' \<and> R a a' \<and> R b b' \<and> DependOnSameSymbol g a' b' = Some True"
proof (induction h p a b res rule: comparison_loop.raw_induct [rotated, consumes 1, case_names step])
  case (step f h p a b res)
  from step.hyps step.prems obtain same where same: "DependOnSameSymbol g a b = Some same" by auto
  show ?case
  proof (cases same)
    case True
    then show ?thesis using step.hyps step.prems same R_refl by auto
  next
    case False
    with step.hyps step.prems same obtain ra where ra: "step_op a = Some ra" by auto
    show ?thesis
    proof (cases ra)
      case (Some a1)
      then have "f g step_op a1 b = Some res" using step.hyps step.prems same False ra by simp
      from step.IH [OF this] step_sound [OF step.prems(3), of a1] ra Some step.prems
      show ?thesis using R_trans by blast
    next
      case None
      then obtain b1 where b1: "step_op b = Some (Some b1)" "f g step_op a b1 = Some res"
        using step.hyps step.prems same False ra by (auto split: option.splits)
      from step.IH [OF b1(2)] step_sound [OF step.prems(4) b1(1)] step.prems
      show ?thesis using R_trans by blast
    qed
  qed
qed

lemma CanonicalizeForComparison_sound:
  assumes "CanonicalizeForComparison g step_op a b = Some (Some (a', b'))" "I a" "I b"
  shows "I a' \<and> I b' \<and> R a a' \<and> R b b' \<and> DependOnSameSymbol g a' b' = Some True"
  using assms comparison_loop_sound by (auto simp: CanonicalizeForComparison_def split: if_splits)

end

lemma CanonicalizeBoundary_means:
  assumes "CanonicalizeBoundary g b ov = Some c" "consistent g \<nu>" "means \<nu> b x"
  shows "c = ov \<or> means \<nu> c x"
  using assms canonicalize_loop_means [OF _ assms(2)] by (fastforce simp: means_def)

lemma CanonicalizeMinBoundary_sound:
  assumes "CanonicalizeMinBoundary g a = Some (Some b)" "consistent g \<nu>" "b_ok \<nu> a"
  shows "b_ok \<nu> b \<and> (\<forall>v. lower_ok \<nu> a v \<longrightarrow> lower_ok \<nu> b v)"
proof -
  from assms(1) obtain s off r t toff where a: "a = kSymbol s off" and r: "range_of g s = Some r"
    and t: "range_min r = kSymbol t toff"
    by (cases "(g, a)" rule: CanonicalizeMinBoundary.cases) (auto split: option.splits range_boundary.splits)
  have ok: "in64 off" "in64 toff" "smi_value \<nu> t" "val \<nu> t + toff \<le> val \<nu> s"
    using assms(3) a consistent_range [OF assms(2) r smi_valueD(1)] t by auto
  show ?thesis
  proof (cases "in64 (toff + off)")
    case True
    then obtain c where c: "FromDefinition g t (toff + off) = Some c"
      "CanonicalizeBoundary g c kNegativeInfinity = Some b"
      using assms(1) a r t ok by (auto split: if_splits)
    note m = FromDefinition_means [OF c(1) assms(2) True ok(3)]
    have "b = kNegativeInfinity \<or> means \<nu> b (val \<nu> t + (toff + off))"
      by (rule CanonicalizeBoundary_means [OF c(2) assms(2) m])
    then show ?thesis using a ok(4) by (auto simp: means_simps)
  next
    case False
    then have "b = kNegativeInfinity" using assms(1) a r t ok by (auto split: if_splits)
    then show ?thesis by simp
  qed
qed

lemma CanonicalizeMaxBoundary_sound:
  assumes "CanonicalizeMaxBoundary g a = Some (Some b)" "consistent g \<nu>" "b_ok \<nu> a"
  shows "b_ok \<nu> b \<and> (\<forall>v. upper_ok \<nu> a v \<longrightarrow> upper_ok \<nu> b v)"
proof -
  from assms(1) obtain s off r t toff where a: "a = kSymbol s off" and r: "range_of g s = Some r"
    and t: "range_max r = kSymbol t toff"
    by (cases "(g, a)" rule: CanonicalizeMaxBoundary.cases) (auto split: option.splits range_boundary.splits)
  have ok: "in64 off" "in64 toff" "smi_value \<nu> t" "val \<nu> s \<le> val \<nu> t + toff"
    using assms(3) a consistent_range [OF assms(2) r smi_valueD(1)] t by auto
  show ?thesis
  proof (cases "in64 (toff + off)")
    case True
    then obtain c where c: "FromDefinition g t (toff + off) = Some c"
      "CanonicalizeBoundary g c kPositiveInfinity = Some b"
      using assms(1) a r t ok by (auto split: if_splits)
    note m = FromDefinition_means [OF c(1) assms(2) True ok(3)]
    have "b = kPositiveInfinity \<or> means \<nu> b (val \<nu> t + (toff + off))"
      by (rule CanonicalizeBoundary_means [OF c(2) assms(2) m])
    then show ?thesis using a ok(4) by (auto simp: means_simps)
  next
    case False
    then have "b = kPositiveInfinity" using assms(1) a r t ok by (auto split: if_splits)
    then show ?thesis by simp
  qed
qed

interpretation min_walk: boundary_walk g "CanonicalizeMinBoundary g"
    "\<lambda>b. consistent g \<nu> \<and> b_ok \<nu> b" "\<lambda>a b. \<forall>v. lower_ok \<nu> a v \<longrightarrow> lower_ok \<nu> b v" for g \<nu>
  by unfold_locales (auto dest: CanonicalizeMinBoundary_sound)

interpretation max_walk: boundary_walk g "CanonicalizeMaxBoundary g"
    "\<lambda>b. consistent g \<nu> \<and> b_ok \<nu> b" "\<lambda>a b. \<forall>v. upper_ok \<nu> a v \<longrightarrow> upper_ok \<nu> b v" for g \<nu>
  by unfold_locales (auto dest: CanonicalizeMaxBoundary_sound)

subsection \<open>Clamped bounds\<close>

lemma LowerBound_sz_sound:
  assumes "LowerBound_sz g b sz = Some i" "consistent g \<nu>" "b_ok \<nu> b" "lower_ok \<nu> b v" "MinValue sz \<le> v"
  shows "i \<le> v"
proof -
  from assms(1) obtain l where l: "LowerBound g b = Some l" "ConstantValue (RangeBoundary_Clamp l sz) = Some i"
    by (auto simp: LowerBound_sz_def)
  have "lower_const l" "lower_ok \<nu> l v" using LowerBound_sound [OF l(1) assms(2,3)] assms(4) by auto
  with l(2) assms(5) show ?thesis by (auto simp: lower_const_def rb_simps)
qed

lemma UpperBound_sz_sound:
  assumes "UpperBound_sz g b sz = Some i" "consistent g \<nu>" "b_ok \<nu> b" "upper_ok \<nu> b v" "v \<le> MaxValue sz"
  shows "v \<le> i"
proof -
  from assms(1) obtain l where l: "UpperBound g b = Some l" "ConstantValue (RangeBoundary_Clamp l sz) = Some i"
    by (auto simp: UpperBound_sz_def)
  have "upper_const l" "upper_ok \<nu> l v" using UpperBound_sound [OF l(1) assms(2,3)] assms(4) by auto
  with l(2) assms(5) show ?thesis by (auto simp: upper_const_def rb_simps)
qed

lemma LowerBound_sz_in64:
  assumes "LowerBound_sz g b sz = Some i"
  shows "in_size sz i"
proof -
  from assms obtain l where "ConstantValue (RangeBoundary_Clamp l sz) = Some i"
    by (auto simp: LowerBound_sz_def)
  then show ?thesis by (cases l) (auto simp: in_size_def rb_simps)
qed

lemma UpperBound_sz_in64:
  assumes "UpperBound_sz g b sz = Some i"
  shows "in_size sz i"
proof -
  from assms obtain l where "ConstantValue (RangeBoundary_Clamp l sz) = Some i"
    by (auto simp: UpperBound_sz_def)
  then show ?thesis by (cases l) (auto simp: in_size_def rb_simps)
qed

lemma in_size_in64: "in_size sz v \<Longrightarrow> in64 v"
  by (cases sz) (auto simp: in_size_def in64_def konst)

subsection \<open>Joins of boundaries\<close>

text \<open>
  A symbolic boundary whose value lies outside the size of the result is the case in which the
  joins are wrong, so the lemmas ask that the value of a symbolic boundary fits.
\<close>

fun sym_fits :: "execution \<Rightarrow> range_size \<Rightarrow> range_boundary \<Rightarrow> bool" where
  "sym_fits \<nu> sz (kSymbol s off) = in_size sz (val \<nu> s + off)"
| "sym_fits \<nu> sz b = True"

text \<open>The symbol (or constant) kept by a join lies on the right side of the other boundary.\<close>

lemma kept_value_upper:
  assumes "UpperBound_sz g a sz = Some su" "LowerBound g a = Some l" "Overflowed g l sz = Some False"
    "consistent g \<nu>" "b_ok \<nu> a" "sym_fits \<nu> sz a"
  shows "\<exists>x. means \<nu> a x \<and> x \<le> su"
proof (cases a)
  case (kSymbol s off)
  have "val \<nu> s + off \<le> su"
    by (rule UpperBound_sz_sound [OF assms(1,4,5)]) (use kSymbol assms(6) in \<open>auto simp: in_size_def\<close>)
  then show ?thesis using kSymbol assms(5) by (auto simp: means_def intro: exI [of _ "val \<nu> s + off"])
next
  case (kConstant c)
  then show ?thesis
    using assms(1-3,5) by (auto simp: means_def UpperBound_sz_def in_size_def)
qed (use assms(2,3) in auto)

lemma kept_value_lower:
  assumes "LowerBound_sz g a sz = Some lo" "UpperBound g a = Some l" "Overflowed g l sz = Some False"
    "consistent g \<nu>" "b_ok \<nu> a" "sym_fits \<nu> sz a"
  shows "\<exists>x. means \<nu> a x \<and> lo \<le> x"
proof (cases a)
  case (kSymbol s off)
  have "lo \<le> val \<nu> s + off"
    by (rule LowerBound_sz_sound [OF assms(1,4,5)]) (use kSymbol assms(6) in \<open>auto simp: in_size_def\<close>)
  then show ?thesis using kSymbol assms(5) by (auto simp: means_def intro: exI [of _ "val \<nu> s + off"])
next
  case (kConstant c)
  then show ?thesis
    using assms(1-3,5) by (auto simp: means_def LowerBound_sz_def in_size_def)
qed (use assms(2,3) in auto)

lemma JoinMin_sound:
  assumes J: "JoinMin g a b sz = Some c" and C: "consistent g \<nu>" and ok: "b_ok \<nu> a" "b_ok \<nu> b"
    and fits: "sym_fits \<nu> sz a" "sym_fits \<nu> sz b" "in_size sz v"
    and v: "lower_ok \<nu> a v \<or> lower_ok \<nu> b v"
  shows "lower_ok \<nu> c v \<and> b_ok \<nu> c"
proof -
  obtain e where e: "RangeBoundary_Equals g a b = Some e" using J by (auto simp: JoinMin_def)
  show ?thesis
  proof (cases e)
    case True
    then show ?thesis using J e RangeBoundary_Equals_value(1) [OF _ C ok] ok v by (auto simp: JoinMin_def)
  next
    case False
    obtain w where w: "CanonicalizeForComparison g (CanonicalizeMinBoundary g) a b = Some w"
      using J e False by (auto simp: JoinMin_def)
    show ?thesis
    proof (cases w)
      case (Some ab)
      obtain a' b' where ab: "ab = (a', b')" by (cases ab)
      note s = min_walk.CanonicalizeForComparison_sound [of g a b a' b' \<nu>]
      have r: "b_ok \<nu> a'" "b_ok \<nu> b'" "lower_ok \<nu> a' v \<or> lower_ok \<nu> b' v" "DependOnSameSymbol g a' b' = Some True"
        using s w Some ab C ok v by auto
      have "c = (if offset a' \<le> offset b' then a' else b')"
        using J e False w Some ab by (simp add: JoinMin_def)
      with r show ?thesis by (auto elim!: DependOnSameSymbol_value [OF _ C r(1,2)])
    next
      case None
      obtain ia ib sa sb where bnd: "LowerBound_sz g a sz = Some ia" "LowerBound_sz g b sz = Some ib"
        "UpperBound_sz g a sz = Some sa" "UpperBound_sz g b sz = Some sb"
        using J e False w None by (auto simp: JoinMin_def)
      have lo: "lower_ok \<nu> a v \<longrightarrow> ia \<le> v" "lower_ok \<nu> b v \<longrightarrow> ib \<le> v"
        using LowerBound_sz_sound [OF bnd(1) C ok(1)] LowerBound_sz_sound [OF bnd(2) C ok(2)] fits(3)
        by (auto simp: in_size_def)
      have in6: "in64 ia" "in64 ib" using bnd by (blast intro: in_size_in64 LowerBound_sz_in64)+
      consider (A) l where "c = a" "sa \<le> ib" "LowerBound g a = Some l" "Overflowed g l sz = Some False"
        | (B) l where "c = b" "sb \<le> ia" "LowerBound g b = Some l" "Overflowed g l sz = Some False"
        | (M) "c = kConstant (min ia ib)"
        using J e False w None bnd by (auto simp: JoinMin_def split: if_splits)
      then show ?thesis
      proof cases
        case A
        from kept_value_upper [OF bnd(3) A(3,4) C ok(1) fits(1)] A(1,2) lo v ok
        show ?thesis by (auto simp: means_simps)
      next
        case B
        from kept_value_upper [OF bnd(4) B(3,4) C ok(2) fits(2)] B(1,2) lo v ok
        show ?thesis by (auto simp: means_simps)
      next
        case M
        then show ?thesis using lo v in6 by (auto simp: min_def)
      qed
    qed
  qed
qed

lemma JoinMax_sound:
  assumes J: "JoinMax g a b sz = Some c" and C: "consistent g \<nu>" and ok: "b_ok \<nu> a" "b_ok \<nu> b"
    and fits: "sym_fits \<nu> sz a" "sym_fits \<nu> sz b" "in_size sz v"
    and v: "upper_ok \<nu> a v \<or> upper_ok \<nu> b v"
  shows "upper_ok \<nu> c v \<and> b_ok \<nu> c"
proof -
  obtain e where e: "RangeBoundary_Equals g a b = Some e" using J by (auto simp: JoinMax_def)
  show ?thesis
  proof (cases e)
    case True
    then show ?thesis using J e RangeBoundary_Equals_value(2) [OF _ C ok] ok v by (auto simp: JoinMax_def)
  next
    case False
    obtain w where w: "CanonicalizeForComparison g (CanonicalizeMaxBoundary g) a b = Some w"
      using J e False by (auto simp: JoinMax_def)
    show ?thesis
    proof (cases w)
      case (Some ab)
      obtain a' b' where ab: "ab = (a', b')" by (cases ab)
      note s = max_walk.CanonicalizeForComparison_sound [of g a b a' b' \<nu>]
      have r: "b_ok \<nu> a'" "b_ok \<nu> b'" "upper_ok \<nu> a' v \<or> upper_ok \<nu> b' v" "DependOnSameSymbol g a' b' = Some True"
        using s w Some ab C ok v by auto
      have "c = (if offset a' \<ge> offset b' then a' else b')"
        using J e False w Some ab by (simp add: JoinMax_def)
      with r show ?thesis by (auto elim!: DependOnSameSymbol_value [OF _ C r(1,2)])
    next
      case None
      obtain ia ib sa sb where bnd: "LowerBound_sz g a sz = Some ia" "LowerBound_sz g b sz = Some ib"
        "UpperBound_sz g a sz = Some sa" "UpperBound_sz g b sz = Some sb"
        using J e False w None by (auto simp: JoinMax_def)
      have lo: "upper_ok \<nu> a v \<longrightarrow> v \<le> sa" "upper_ok \<nu> b v \<longrightarrow> v \<le> sb"
        using UpperBound_sz_sound [OF bnd(3) C ok(1)] UpperBound_sz_sound [OF bnd(4) C ok(2)] fits(3)
        by (auto simp: in_size_def)
      have in6: "in64 sa" "in64 sb" using bnd by (blast intro: in_size_in64 UpperBound_sz_in64)+
      consider (A) l where "c = b" "sa \<le> ib" "UpperBound g b = Some l" "Overflowed g l sz = Some False"
        | (B) l where "c = a" "sb \<le> ia" "UpperBound g a = Some l" "Overflowed g l sz = Some False"
        | (M) "c = kConstant (max sa sb)"
        using J e False w None bnd by (auto simp: JoinMax_def split: if_splits)
      then show ?thesis
      proof cases
        case A
        from kept_value_lower [OF bnd(2) A(3,4) C ok(2) fits(2)] A(1,2) lo v ok
        show ?thesis by (auto simp: means_simps)
      next
        case B
        from kept_value_lower [OF bnd(1) B(3,4) C ok(1) fits(1)] B(1,2) lo v ok
        show ?thesis by (auto simp: means_simps)
      next
        case M
        then show ?thesis using lo v in6 by (auto simp: max_def)
      qed
    qed
  qed
qed

subsection \<open>Intersection\<close>

lemma IntersectionMin_sound:
  assumes J: "IntersectionMin g a b = Some c" and C: "consistent g \<nu>" and ok: "b_ok \<nu> a" "b_ok \<nu> b"
    and v: "lower_ok \<nu> a v" "lower_ok \<nu> b v"
  shows "lower_ok \<nu> c v \<and> b_ok \<nu> c"
proof -
  consider "c = a" | "c = b"
    | a' b' where "CanonicalizeForComparison g (CanonicalizeMinBoundary g) a b = Some (Some (a', b'))"
        "c = a' \<or> c = b'"
    using J by (auto simp: IntersectionMin_def split: if_splits option.splits)
  then show ?thesis
  proof cases
    case 3
    then show ?thesis using min_walk.CanonicalizeForComparison_sound [of g a b a' b' \<nu>] C ok v by blast
  qed (use ok v in auto)
qed

lemma IntersectionMax_sound:
  assumes J: "IntersectionMax g a b = Some c" and C: "consistent g \<nu>" and ok: "b_ok \<nu> a" "b_ok \<nu> b"
    and v: "upper_ok \<nu> a v" "upper_ok \<nu> b v"
  shows "upper_ok \<nu> c v \<and> b_ok \<nu> c"
proof -
  consider "c = a" | "c = b"
    | a' b' where "CanonicalizeForComparison g (CanonicalizeMaxBoundary g) a b = Some (Some (a', b'))"
        "c = a' \<or> c = b'"
    using J by (auto simp: IntersectionMax_def split: if_splits option.splits)
  then show ?thesis
  proof cases
    case 3
    then show ?thesis using max_walk.CanonicalizeForComparison_sound [of g a b a' b' \<nu>] C ok v by blast
  qed (use ok v in auto)
qed

lemma Intersect_value:
  assumes "Intersect g r q = Some p" "consistent g \<nu>" "r_ok \<nu> r" "r_ok \<nu> q" "in_range \<nu> r v" "in_range \<nu> q v"
  shows "in_range \<nu> p v \<and> r_ok \<nu> p"
  using assms IntersectionMin_sound [OF _ assms(2)] IntersectionMax_sound [OF _ assms(2)]
  by (auto simp: Intersect_def Range_def r_ok_def in_range_def)

end
