(* ===== verification/Range_Transfer.thy ===== *)
theory Range_Transfer
  imports Range_Soundness
begin

text \<open>
  Soundness of the transfer functions of class \<open>Range\<close>: when the operands of a binary operation
  lie in their ranges, the exact mathematical result lies in the range computed for it. What the
  users of the transfer functions rely on is the locale \<open>sound_transfer\<close>, interpreted for every
  operator of \<open>Range::BinaryOp\<close>.
\<close>

unbundle bit_operations_syntax

subsection \<open>Operands and operations\<close>

definition operand :: "execution \<Rightarrow> range \<Rightarrow> int \<Rightarrow> bool" where
  "operand \<nu> r x \<longleftrightarrow> r_ok \<nu> r \<and> in_range \<nu> r x \<and> in64 x"

text \<open>The left definition passed to \<open>Range::Add\<close> has the value of the left operand; array lengths are Smis.\<close>

definition left_defn_ok :: "flow_graph \<Rightarrow> execution \<Rightarrow> defn_id option \<Rightarrow> int \<Rightarrow> bool" where
  "left_defn_ok g \<nu> d x \<longleftrightarrow>
     (case d of None \<Rightarrow> True | Some e \<Rightarrow> val \<nu> e = x \<and> (IsArrayLength g d = Some True \<longrightarrow> smi_value \<nu> e))"

fun sem_op :: "token_kind \<Rightarrow> int \<Rightarrow> int \<Rightarrow> int" where
  "sem_op kADD x y = x + y"
| "sem_op kSUB x y = x - y"
| "sem_op kMUL x y = x * y"
| "sem_op kSHL x y = x * 2 ^ nat y"
| "sem_op kSHR x y = x div 2 ^ nat y"
| "sem_op kBIT_AND x y = x AND y"
| "sem_op kBIT_XOR x y = x XOR y"
| "sem_op kBIT_OR x y = x OR y"
| "sem_op op x y = 0"

text \<open>The operators whose ranges are tracked, and the shift counts that do not throw.\<close>

definition tracked_op :: "token_kind \<Rightarrow> bool" where
  "tracked_op op \<longleftrightarrow> op \<in> {kADD, kSUB, kMUL, kSHL, kSHR, kBIT_AND, kBIT_XOR, kBIT_OR}"

definition count_ok :: "token_kind \<Rightarrow> int \<Rightarrow> bool" where
  "count_ok op y \<longleftrightarrow> (op = kSHL \<or> op = kSHR \<longrightarrow> 0 \<le> y)"

definition bounds_hold :: "execution \<Rightarrow> boundaries \<Rightarrow> int \<Rightarrow> bool" where
  "bounds_hold \<nu> mm v \<longleftrightarrow>
     (lower_ok \<nu> (fst mm) v \<and> b_ok \<nu> (fst mm)) \<and> (upper_ok \<nu> (snd mm) v \<and> b_ok \<nu> (snd mm))"

subsection \<open>Constant bounds of a range\<close>

lemma ConstantMinValue_Some [simp]: "ConstantMinValue g (Some r) sz = LowerBound_sz g (range_min r) sz"
  by (simp add: ConstantMinValue_def ConstantMin_def LowerBound_sz_def)

lemma ConstantMaxValue_Some [simp]: "ConstantMaxValue g (Some r) sz = UpperBound_sz g (range_max r) sz"
  by (simp add: ConstantMaxValue_def ConstantMax_def UpperBound_sz_def)

lemma cmin_operand:
  assumes "CMin g r = Some m" "consistent g \<nu>" "operand \<nu> r x"
  shows "m \<le> x" "in64 m"
  using assms LowerBound_sz_sound [of g "range_min r" _ m \<nu> x]
    LowerBound_sz_in64 [of g "range_min r" kRangeBoundaryInt64 m]
  by (auto simp: operand_def r_ok_def in_range_def in64_def in_size_def)

lemma cmax_operand:
  assumes "CMax g r = Some m" "consistent g \<nu>" "operand \<nu> r x"
  shows "x \<le> m" "in64 m"
  using assms UpperBound_sz_sound [of g "range_max r" _ m \<nu> x]
    UpperBound_sz_in64 [of g "range_max r" kRangeBoundaryInt64 m]
  by (auto simp: operand_def r_ok_def in_range_def in64_def in_size_def)

lemma OnlyGreaterThanOrEqualTo_sound:
  assumes "OnlyGreaterThanOrEqualTo g r k = Some True" "consistent g \<nu>" "r_ok \<nu> r" "in_range \<nu> r x"
  shows "k \<le> x"
  using assms LowerBound_sound [of g "range_min r" _ \<nu>]
  by (fastforce simp: OnlyGreaterThanOrEqualTo_def in_range_def r_ok_def lower_const_def split: if_splits)

lemma OnlyLessThanOrEqualTo_sound:
  assumes "OnlyLessThanOrEqualTo g r k = Some True" "consistent g \<nu>" "r_ok \<nu> r" "in_range \<nu> r x"
  shows "x \<le> k"
  using assms UpperBound_sound [of g "range_max r" _ \<nu>]
  by (fastforce simp: OnlyLessThanOrEqualTo_def in_range_def r_ok_def upper_const_def split: if_splits)

text \<open>The clamped constant bounds inherit the sign the unclamped ones have.\<close>

lemma cmin_sign:
  assumes "OnlyGreaterThanOrEqualTo g r 0 = Some True" "CMin g r = Some m" "consistent g \<nu>" "r_ok \<nu> r"
  shows "0 \<le> m"
  using assms LowerBound_sound [of g "range_min r" _ \<nu>]
  by (fastforce simp: OnlyGreaterThanOrEqualTo_def LowerBound_sz_def r_ok_def lower_const_def konst rb_simps
      split: if_splits)

lemma cmax_sign:
  assumes "OnlyLessThanOrEqualTo g r 0 = Some True" "CMax g r = Some m" "consistent g \<nu>" "r_ok \<nu> r"
  shows "m \<le> 0"
  using assms UpperBound_sound [of g "range_max r" _ \<nu>]
  by (fastforce simp: OnlyLessThanOrEqualTo_def UpperBound_sz_def r_ok_def upper_const_def konst rb_simps
      split: if_splits)

subsection \<open>Addition and subtraction\<close>

lemma left_boundary_sound:
  assumes "left_boundary g d b = Some b'" "consistent g \<nu>" "left_defn_ok g \<nu> d x" "b_ok \<nu> b"
  shows "b_ok \<nu> b'" "lower_ok \<nu> b x \<Longrightarrow> lower_ok \<nu> b' x" "upper_ok \<nu> b x \<Longrightarrow> upper_ok \<nu> b' x"
proof -
  consider "b' = b" | e where "d = Some e" "IsArrayLength g d = Some True" "FromDefinition g e 0 = Some b'"
    using assms(1) by (auto simp: left_boundary_def split: if_splits option.splits)
  then have "b' = b \<or> means \<nu> b' x"
  proof cases
    case 2
    then show ?thesis using FromDefinition_means [OF 2(3) assms(2)] assms(3) by (auto simp: left_defn_ok_def)
  qed simp
  then show "b_ok \<nu> b'" "lower_ok \<nu> b x \<Longrightarrow> lower_ok \<nu> b' x" "upper_ok \<nu> b x \<Longrightarrow> upper_ok \<nu> b' x"
    using assms(4) by (auto simp: means_simps)
qed

lemma SymbolicAdd_means:
  assumes "SymbolicAdd g a b = Some (Some c)" "consistent g \<nu>" "b_ok \<nu> a" "b_ok \<nu> b"
  shows "\<exists>x y. means \<nu> a x \<and> means \<nu> b y \<and> means \<nu> c (x + y)"
proof -
  have sc: "means \<nu> c (val \<nu> s + off + k)" if "SymbolicAdd_sc g s off k = Some (Some c)" "in64 off" "in64 k" "smi_value \<nu> s" for s off k
    using that FromDefinition_means [OF _ assms(2), of s "off + k" c]
    by (auto simp: SymbolicAdd_sc_def add.assoc split: if_splits)
  consider s off k where "a = kSymbol s off" "b = kConstant k" "SymbolicAdd_sc g s off k = Some (Some c)"
    | s off k where "b = kSymbol s off" "a = kConstant k" "SymbolicAdd_sc g s off k = Some (Some c)"
    using assms(1) by (cases "(g, a, b)" rule: SymbolicAdd.cases) auto
  then show ?thesis
  proof cases
    case 1
    with assms(3,4) sc [of s off k] show ?thesis
      by (intro exI [of _ "val \<nu> s + off"] exI [of _ k]) (auto simp: means_def)
  next
    case 2
    with assms(3,4) sc [of s off k] show ?thesis
      by (intro exI [of _ k] exI [of _ "val \<nu> s + off"]) (auto simp: means_def algebra_simps)
  qed
qed

lemma SymbolicSub_means:
  assumes "SymbolicSub g a b = Some (Some c)" "consistent g \<nu>" "b_ok \<nu> a" "b_ok \<nu> b"
  shows "\<exists>x y. means \<nu> a x \<and> means \<nu> b y \<and> means \<nu> c (x - y)"
proof -
  obtain s off k where *: "a = kSymbol s off" "b = kConstant k"
    using assms(1) by (cases "(g, a, b)" rule: SymbolicSub.cases) auto
  then have "means \<nu> c (val \<nu> s + off - k)"
    using assms FromDefinition_means [OF _ assms(2), of s "off - k" c] by (auto simp: algebra_simps split: if_splits)
  with * assms(3,4) show ?thesis
    by (intro exI [of _ "val \<nu> s + off"] exI [of _ k]) (auto simp: means_def)
qed

lemma Add_lower:
  "RangeBoundary_Add l r kNegativeInfinity = Some c \<Longrightarrow> lower_const l \<Longrightarrow> lower_const r \<Longrightarrow>
   lower_ok \<nu> l x \<Longrightarrow> lower_ok \<nu> r y \<Longrightarrow> lower_ok \<nu> c (x + y) \<and> b_ok \<nu> c"
  by (auto simp: lower_const_def RangeBoundary_Add_const)

lemma Add_upper:
  "RangeBoundary_Add l r kPositiveInfinity = Some c \<Longrightarrow> upper_const l \<Longrightarrow> upper_const r \<Longrightarrow>
   upper_ok \<nu> l x \<Longrightarrow> upper_ok \<nu> r y \<Longrightarrow> upper_ok \<nu> c (x + y) \<and> b_ok \<nu> c"
  by (auto simp: upper_const_def RangeBoundary_Add_const)

lemma Sub_lower:
  "RangeBoundary_Sub l r kNegativeInfinity = Some c \<Longrightarrow> lower_const l \<Longrightarrow> upper_const r \<Longrightarrow>
   lower_ok \<nu> l x \<Longrightarrow> upper_ok \<nu> r y \<Longrightarrow> lower_ok \<nu> c (x - y) \<and> b_ok \<nu> c"
  by (auto simp: lower_const_def upper_const_def RangeBoundary_Sub_const)

lemma Sub_upper:
  "RangeBoundary_Sub l r kPositiveInfinity = Some c \<Longrightarrow> upper_const l \<Longrightarrow> lower_const r \<Longrightarrow>
   upper_ok \<nu> l x \<Longrightarrow> lower_ok \<nu> r y \<Longrightarrow> upper_ok \<nu> c (x - y) \<and> b_ok \<nu> c"
  by (auto simp: lower_const_def upper_const_def RangeBoundary_Sub_const)

lemma operandD:
  assumes "operand \<nu> r x"
  shows "b_ok \<nu> (range_min r)" "b_ok \<nu> (range_max r)"
    "lower_ok \<nu> (range_min r) x" "upper_ok \<nu> (range_max r) x" "in64 x" "r_ok \<nu> r" "in_range \<nu> r x"
  using assms by (auto simp: operand_def r_ok_def in_range_def)

lemma Range_Add_sound:
  assumes A: "Range_Add g l r d = Some (mn, mx)" and C: "consistent g \<nu>"
    and o: "operand \<nu> l x" "operand \<nu> r y" and d: "left_defn_ok g \<nu> d x"
  shows "bounds_hold \<nu> (mn, mx) (x + y)"
proof -
  note ol = operandD [OF o(1)] and r = operandD [OF o(2)]
  from A obtain bmin bmax smin smax where
      B: "left_boundary g d (range_min l) = Some bmin" "left_boundary g d (range_max l) = Some bmax"
    and S: "SymbolicAdd g bmin (range_min r) = Some smin" "SymbolicAdd g bmax (range_max r) = Some smax"
    and mn: "(case smin of Some b \<Rightarrow> Some b | None \<Rightarrow> do { l \<leftarrow> LowerBound g (range_min l);
           r \<leftarrow> LowerBound g (range_min r); RangeBoundary_Add l r kNegativeInfinity }) = Some mn"
    and mx: "(case smax of Some b \<Rightarrow> Some b | None \<Rightarrow> do { r \<leftarrow> UpperBound g (range_max r);
           l \<leftarrow> UpperBound g (range_max l); RangeBoundary_Add r l kPositiveInfinity }) = Some mx"
    unfolding Range_Add_def by auto
  note bmin = left_boundary_sound [OF B(1) C d ol(1)] and bmax = left_boundary_sound [OF B(2) C d ol(2)]
  have "lower_ok \<nu> mn (x + y) \<and> b_ok \<nu> mn"
  proof (cases smin)
    case None
    with mn LowerBound_sound [OF _ C ol(1)] LowerBound_sound [OF _ C r(1)] ol(3) r(3)
    show ?thesis by (auto; blast dest: Add_lower)
  next
    case (Some c)
    with mn S(1) SymbolicAdd_means [OF _ C bmin(1) r(1)] bmin(2) [OF ol(3)] r(3)
    show ?thesis by (auto simp: means_simps)
  qed
  moreover have "upper_ok \<nu> mx (x + y) \<and> b_ok \<nu> mx"
  proof (cases smax)
    case None
    then obtain u w where u: "UpperBound g (range_max r) = Some u" "UpperBound g (range_max l) = Some w"
      "RangeBoundary_Add u w kPositiveInfinity = Some mx" using mx by auto
    show ?thesis
      using Add_upper [OF u(3), of \<nu> y x] UpperBound_sound [OF u(1) C r(2)] UpperBound_sound [OF u(2) C ol(2)] ol(4) r(4)
      by (simp add: add.commute)
  next
    case (Some c)
    with mx S(2) SymbolicAdd_means [OF _ C bmax(1) r(2)] bmax(3) [OF ol(4)] r(4)
    show ?thesis by (auto simp: means_simps)
  qed
  ultimately show ?thesis by (simp add: bounds_hold_def)
qed

lemma Range_Sub_sound:
  assumes A: "Range_Sub g l r d = Some (mn, mx)" and C: "consistent g \<nu>"
    and o: "operand \<nu> l x" "operand \<nu> r y" and d: "left_defn_ok g \<nu> d x"
  shows "bounds_hold \<nu> (mn, mx) (x - y)"
proof -
  note ol = operandD [OF o(1)] and r = operandD [OF o(2)]
  from A obtain bmin bmax smin smax where
      B: "left_boundary g d (range_min l) = Some bmin" "left_boundary g d (range_max l) = Some bmax"
    and S: "SymbolicSub g bmin (range_max r) = Some smin" "SymbolicSub g bmax (range_min r) = Some smax"
    and mn: "(case smin of Some b \<Rightarrow> Some b | None \<Rightarrow> do { l \<leftarrow> LowerBound g (range_min l);
           r \<leftarrow> UpperBound g (range_max r); RangeBoundary_Sub l r kNegativeInfinity }) = Some mn"
    and mx: "(case smax of Some b \<Rightarrow> Some b | None \<Rightarrow> do { l \<leftarrow> UpperBound g (range_max l);
           r \<leftarrow> LowerBound g (range_min r); RangeBoundary_Sub l r kPositiveInfinity }) = Some mx"
    unfolding Range_Sub_def by auto
  note bmin = left_boundary_sound [OF B(1) C d ol(1)] and bmax = left_boundary_sound [OF B(2) C d ol(2)]
  have "lower_ok \<nu> mn (x - y) \<and> b_ok \<nu> mn"
  proof (cases smin)
    case None
    with mn LowerBound_sound [OF _ C ol(1)] UpperBound_sound [OF _ C r(2)] ol(3) r(4)
    show ?thesis by (auto; blast dest: Sub_lower)
  next
    case (Some c)
    with mn S(1) SymbolicSub_means [OF _ C bmin(1) r(2)] bmin(2) [OF ol(3)] r(4)
    show ?thesis by (auto simp: means_simps)
  qed
  moreover have "upper_ok \<nu> mx (x - y) \<and> b_ok \<nu> mx"
  proof (cases smax)
    case None
    with mx UpperBound_sound [OF _ C ol(2)] LowerBound_sound [OF _ C r(1)] ol(4) r(3)
    show ?thesis by (auto; blast dest: Sub_upper)
  next
    case (Some c)
    with mx S(2) SymbolicSub_means [OF _ C bmax(1) r(1)] bmax(3) [OF ol(4)] r(3)
    show ?thesis by (auto simp: means_simps)
  qed
  ultimately show ?thesis by (simp add: bounds_hold_def)
qed

subsection \<open>Shifts\<close>

lemma RangeBoundary_Shl_cases:
  assumes "RangeBoundary_Shl (kConstant v) n ov = Some res" "in64 v"
  shows "(res = kConstant (v * 2 ^ nat n) \<and> in64 (v * 2 ^ nat n)) \<or>
    (res = ov \<and> (v > 0 \<longrightarrow> v * 2 ^ nat n > kMaxInt64) \<and> (v \<le> 0 \<longrightarrow> v * 2 ^ nat n < kMinInt64))"
proof -
  from assms(1) have n: "0 \<le> n" "in64 (64 - n)" by (auto simp: RangeBoundary_Shl_def rb_simps)
  from assms(1) n obtain fits where f: "(if v = 0 then Some True else if n = 0 then Some True
      else if 64 - n > 0 then IsInt (64 - n) v else Some False) = Some fits"
    and r: "(if fits then do { result \<leftarrow> shl64 v n; Some (kConstant result) } else Some ov) = Some res"
    by (auto simp: RangeBoundary_Shl_def rb_simps)
  show ?thesis
  proof (cases fits)
    case True
    with r show ?thesis by (auto simp: shl64_def push_bit_eq_mult split: if_splits)
  next
    case False
    then have v: "v \<noteq> 0" "n \<noteq> 0" and res: "res = ov" using f r by (auto split: if_splits)
    show ?thesis
    proof (cases "n < 64")
      case True
      then have "\<not> (- (2 ^ nat (63 - n)) \<le> v \<and> v < 2 ^ nat (63 - n))"
        using f v False n by (simp add: IsInt_eq)
      moreover have "(2::int) ^ nat (63 - n) * 2 ^ nat n = 2 ^ 63"
        using True n by (simp flip: power_add nat_add_distrib)
      moreover have "v \<ge> 2 ^ nat (63 - n) \<Longrightarrow> v * 2 ^ nat n \<ge> 2 ^ nat (63 - n) * 2 ^ nat n"
        by (rule mult_right_mono) simp_all
      moreover have "v < - (2 ^ nat (63 - n)) \<Longrightarrow> v * 2 ^ nat n < - (2 ^ nat (63 - n)) * 2 ^ nat n"
        by (rule mult_strict_right_mono) simp_all
      moreover have "v > 0 \<Longrightarrow> \<not> v < - (2 ^ nat (63 - n))"
        using zero_le_power [of "2::int" "nat (63 - n)"] by linarith
      moreover have "v \<le> 0 \<Longrightarrow> \<not> v \<ge> 2 ^ nat (63 - n)"
        using zero_less_power [of "2::int" "nat (63 - n)"] by linarith
      ultimately show ?thesis using res by (auto simp: konst)
    next
      case False
      then have p: "(2::int) ^ nat n \<ge> 2 ^ 64" by (intro power_increasing) auto
      have "v > 0 \<Longrightarrow> v * 2 ^ nat n \<ge> 1 * 2 ^ 64" by (rule mult_mono) (use p in auto)
      moreover have "v \<le> 0 \<Longrightarrow> - v * 2 ^ nat n \<ge> 1 * 2 ^ 64" by (rule mult_mono) (use p v in auto)
      ultimately show ?thesis using res by (auto simp: konst)
    qed
  qed
qed

lemma shl_mono:
  fixes x a :: int
  assumes "a \<le> x" "m \<le> y" "y \<le> M"
  shows "0 < a \<Longrightarrow> a * 2 ^ m \<le> x * 2 ^ y" "a \<le> 0 \<Longrightarrow> a * 2 ^ M \<le> x * 2 ^ y"
proof -
  have p: "(2::int) ^ m \<le> 2 ^ y" "(2::int) ^ y \<le> 2 ^ M" using assms by (simp_all add: power_increasing)
  show "0 < a \<Longrightarrow> a * 2 ^ m \<le> x * 2 ^ y" using assms p by (intro mult_mono) auto
  assume a: "a \<le> 0"
  have "a * 2 ^ M \<le> a * 2 ^ y" using a p(2) by (intro mult_left_mono_neg) auto
  also have "\<dots> \<le> x * 2 ^ y" using assms(1) by (rule mult_right_mono) simp
  finally show "a * 2 ^ M \<le> x * 2 ^ y" .
qed

lemma shl_mono':
  fixes x a :: int
  assumes "x \<le> a" "m \<le> y" "y \<le> M"
  shows "0 < a \<Longrightarrow> x * 2 ^ y \<le> a * 2 ^ M" "a \<le> 0 \<Longrightarrow> x * 2 ^ y \<le> a * 2 ^ m"
proof -
  have p: "(2::int) ^ m \<le> 2 ^ y" "(2::int) ^ y \<le> 2 ^ M" using assms by (simp_all add: power_increasing)
  have *: "x * 2 ^ y \<le> a * 2 ^ y" using assms(1) by (rule mult_right_mono) simp
  show "0 < a \<Longrightarrow> x * 2 ^ y \<le> a * 2 ^ M"
    using * mult_left_mono [OF p(2), of a] by linarith
  show "a \<le> 0 \<Longrightarrow> x * 2 ^ y \<le> a * 2 ^ m"
    using * mult_left_mono_neg [OF p(1), of a] by linarith
qed

lemma Range_Shl_sound:
  assumes A: "Range_Shl g l r = Some (mn, mx)" and C: "consistent g \<nu>"
    and o: "operand \<nu> l x" "operand \<nu> r y" and y: "0 \<le> y"
  shows "bounds_hold \<nu> (mn, mx) (x * 2 ^ nat y)"
proof -
  from A obtain lmax lmin rmax rmin where c: "CMax g l = Some lmax" "CMin g l = Some lmin"
      "CMax g r = Some rmax" "CMin g r = Some rmin"
    and mn: "RangeBoundary_Shl (kConstant lmin) (if lmin > 0 then max rmin 0 else max rmax 0)
        (if lmin > 0 then kPositiveInfinity else kNegativeInfinity) = Some mn"
    and mx: "RangeBoundary_Shl (kConstant lmax) (if lmax > 0 then max rmax 0 else max rmin 0)
        (if lmax > 0 then kPositiveInfinity else kNegativeInfinity) = Some mx"
    unfolding Range_Shl_def Let_def Maximum_max by blast
  note b = cmin_operand [OF c(2) C o(1)] cmax_operand [OF c(1) C o(1)]
    cmin_operand(1) [OF c(4) C o(2)] cmax_operand(1) [OF c(3) C o(2)]
  have n: "nat (max rmin 0) \<le> nat y" "nat y \<le> nat (max rmax 0)" using b y by auto
  have "lower_ok \<nu> mn (x * 2 ^ nat y) \<and> b_ok \<nu> mn"
    using RangeBoundary_Shl_cases [OF mn b(2)] shl_mono [OF b(1) n] by (auto split: if_splits)
  moreover have "upper_ok \<nu> mx (x * 2 ^ nat y) \<and> b_ok \<nu> mx"
    using RangeBoundary_Shl_cases [OF mx b(4)] shl_mono' [OF b(3) n] by (auto split: if_splits)
  ultimately show ?thesis by (simp add: bounds_hold_def)
qed

lemma div_pow_antimono:
  fixes x :: int
  assumes "m \<le> n"
  shows "0 \<le> x \<Longrightarrow> x div 2 ^ n \<le> x div 2 ^ m" "x \<le> 0 \<Longrightarrow> x div 2 ^ m \<le> x div 2 ^ n"
proof -
  have p: "(2::int) ^ m \<le> 2 ^ n" using assms by (simp add: power_increasing)
  show "0 \<le> x \<Longrightarrow> x div 2 ^ n \<le> x div 2 ^ m" using p by (intro zdiv_mono2) auto
  show "x \<le> 0 \<Longrightarrow> x div 2 ^ m \<le> x div 2 ^ n"
    using p by (cases "x = 0") (auto intro: zdiv_mono2_neg)
qed

lemma shr_mono:
  fixes x a :: int
  assumes "a \<le> x" "m \<le> y" "y \<le> M"
  shows "0 < a \<Longrightarrow> a div 2 ^ M \<le> x div 2 ^ y" "a \<le> 0 \<Longrightarrow> a div 2 ^ m \<le> x div 2 ^ y"
proof -
  have *: "a div 2 ^ y \<le> x div 2 ^ y" using assms(1) by (rule zdiv_mono1) simp
  show "0 < a \<Longrightarrow> a div 2 ^ M \<le> x div 2 ^ y" using * div_pow_antimono(1) [OF assms(3), of a] by linarith
  show "a \<le> 0 \<Longrightarrow> a div 2 ^ m \<le> x div 2 ^ y" using * div_pow_antimono(2) [OF assms(2), of a] by linarith
qed

lemma shr_mono':
  fixes x a :: int
  assumes "x \<le> a" "m \<le> y" "y \<le> M"
  shows "0 < a \<Longrightarrow> x div 2 ^ y \<le> a div 2 ^ m" "a \<le> 0 \<Longrightarrow> x div 2 ^ y \<le> a div 2 ^ M"
proof -
  have *: "x div 2 ^ y \<le> a div 2 ^ y" using assms(1) by (rule zdiv_mono1) simp
  show "0 < a \<Longrightarrow> x div 2 ^ y \<le> a div 2 ^ m" using * div_pow_antimono(1) [OF assms(2), of a] by linarith
  show "a \<le> 0 \<Longrightarrow> x div 2 ^ y \<le> a div 2 ^ M" using * div_pow_antimono(2) [OF assms(3), of a] by linarith
qed

lemma in64_div_pow: "in64 a \<Longrightarrow> in64 (a div 2 ^ n)"
proof -
  assume a: "in64 a"
  have "0 \<le> a \<Longrightarrow> 0 \<le> a div 2 ^ n \<and> a div 2 ^ n \<le> a"
    using div_pow_antimono(1) [of 0 n a] by (auto intro: pos_imp_zdiv_nonneg_iff [THEN iffD2])
  moreover have "a \<le> 0 \<Longrightarrow> a \<le> a div 2 ^ n \<and> a div 2 ^ n \<le> 0"
    using div_pow_antimono(2) [of 0 n a] zdiv_mono1 [of a 0 "2 ^ n"] by auto
  ultimately show ?thesis using a by (cases "0 \<le> a") (auto simp: in64_def konst)
qed

lemma RangeBoundary_Shr_eq:
  "RangeBoundary_Shr (kConstant v) n = Some res \<Longrightarrow> res = kConstant (v div 2 ^ nat n)"
  by (auto simp: RangeBoundary_Shr_def rb_simps shr64_def drop_bit_eq_div split: if_splits)

lemma Range_Shr_sound:
  assumes A: "Range_Shr g l r = Some (mn, mx)" and C: "consistent g \<nu>"
    and o: "operand \<nu> l x" "operand \<nu> r y" and y: "0 \<le> y"
  shows "bounds_hold \<nu> (mn, mx) (x div 2 ^ nat y)"
proof -
  from A obtain lmax lmin rmax rmin where c: "CMax g l = Some lmax" "CMin g l = Some lmin"
      "CMax g r = Some rmax" "CMin g r = Some rmin"
    and mn: "RangeBoundary_Shr (kConstant lmin) (if lmin > 0 then max rmax 0 else max rmin 0) = Some mn"
    and mx: "RangeBoundary_Shr (kConstant lmax) (if lmax > 0 then max rmin 0 else max rmax 0) = Some mx"
    unfolding Range_Shr_def Let_def Maximum_max by blast
  note b = cmin_operand [OF c(2) C o(1)] cmax_operand [OF c(1) C o(1)]
    cmin_operand(1) [OF c(4) C o(2)] cmax_operand(1) [OF c(3) C o(2)]
  have n: "nat (max rmin 0) \<le> nat y" "nat y \<le> nat (max rmax 0)" using b y by auto
  have "lower_ok \<nu> mn (x div 2 ^ nat y) \<and> b_ok \<nu> mn"
    using RangeBoundary_Shr_eq [OF mn] shr_mono [OF b(1) n] in64_div_pow [OF b(2)] by (auto split: if_splits)
  moreover have "upper_ok \<nu> mx (x div 2 ^ nat y) \<and> b_ok \<nu> mx"
    using RangeBoundary_Shr_eq [OF mx] shr_mono' [OF b(3) n] in64_div_pow [OF b(4)] by (auto split: if_splits)
  ultimately show ?thesis by (simp add: bounds_hold_def)
qed

subsection \<open>Bitwise operations\<close>

lemma signed_closed:
  fixes x y :: int
  assumes "- (2 ^ n) \<le> x" "x < 2 ^ n" "- (2 ^ n) \<le> y" "y < 2 ^ n"
  shows "- (2 ^ n) \<le> x AND y \<and> x AND y < 2 ^ n"
    and "- (2 ^ n) \<le> x OR y \<and> x OR y < 2 ^ n"
    and "- (2 ^ n) \<le> x XOR y \<and> x XOR y < 2 ^ n"
proof -
  have e: "signed_take_bit n x = x" "signed_take_bit n y = y"
    using assms by (simp_all add: signed_take_bit_int_eq_self_iff)
  have "bit (signed_take_bit n x) m = bit x (min m n)" "bit (signed_take_bit n y) m = bit y (min m n)" for m
    by (simp_all add: bit_signed_take_bit_iff min.commute)
  then have b: "bit x (min m n) = bit x m" "bit y (min m n) = bit y m" for m by (simp_all add: e)
  have "signed_take_bit n (x AND y) = x AND y" "signed_take_bit n (x OR y) = x OR y"
    "signed_take_bit n (x XOR y) = x XOR y"
    by (rule bit_eqI, simp add: bit_signed_take_bit_iff bit_simps b min.commute)+
  then show "- (2 ^ n) \<le> x AND y \<and> x AND y < 2 ^ n" "- (2 ^ n) \<le> x OR y \<and> x OR y < 2 ^ n"
    "- (2 ^ n) \<le> x XOR y \<and> x XOR y < 2 ^ n"
    unfolding signed_take_bit_int_eq_self_iff by blast+
qed

lemma BitSize_sound:
  assumes "BitSize g r = Some n" "consistent g \<nu>" "operand \<nu> r x"
  shows "0 \<le> n" "n \<le> 63" "- (2 ^ nat n) \<le> x" "x < 2 ^ nat n"
proof -
  from assms(1) obtain mn mx a b where c: "CMin g r = Some mn" "CMax g r = Some mx"
      "BitLength mn = Some a" "BitLength mx = Some b" "n = max a b"
    by (auto simp: BitSize_def)
  note m = cmin_operand [OF c(1) assms(2,3)] cmax_operand [OF c(2) assms(2,3)]
  from BitLength_ex [OF m(2)] c(3) have a: "0 \<le> a" "a \<le> 63" "- (2 ^ nat a) \<le> mn" by auto
  from BitLength_ex [OF m(4)] c(4) have b: "0 \<le> b" "b \<le> 63" "mx < 2 ^ nat b" by auto
  have p: "(2::int) ^ nat a \<le> 2 ^ nat n" "(2::int) ^ nat b \<le> 2 ^ nat n"
    using c(5) by (auto intro: power_increasing)
  show "0 \<le> n" "n \<le> 63" using a b c(5) by auto
  show "- (2 ^ nat n) \<le> x" using p(1) a(3) m(1) by linarith
  show "x < 2 ^ nat n" using p(2) b(3) m(3) by linarith
qed

lemma mask_word: "n \<le> 63 \<Longrightarrow> sint (push_bit n (1 :: 64 word) - 1) = 2 ^ n - 1"
proof -
  assume n: "n \<le> 63"
  have w: "push_bit n (1 :: 64 word) - 1 = word_of_int (2 ^ n - 1)"
    by (simp add: push_bit_eq_mult)
  have p: "(2::int) ^ n \<le> 2 ^ 63" using n by (intro power_increasing) auto
  then have "uint (word_of_int (2 ^ n - 1) :: 64 word) = 2 ^ n - 1"
    using zero_less_power [of "2::int" n] unfolding uint_word_of_int by (intro mod_pos_pos_trivial) auto
  moreover have "signed_take_bit 63 ((2::int) ^ n - 1) = 2 ^ n - 1"
    using p zero_less_power [of "2::int" n] unfolding signed_take_bit_int_eq_self_iff by linarith
  ultimately show ?thesis unfolding w sint_uint by simp
qed

lemma Range_BitwiseOp_sound:
  assumes A: "Range_BitwiseOp g l r = Some (mn, mx)" and C: "consistent g \<nu>"
    and o: "operand \<nu> l x" "operand \<nu> r y" and f: "f = (AND) \<or> f = (OR) \<or> f = (XOR)"
  shows "bounds_hold \<nu> (mn, mx) (f x y)"
proof -
  from A obtain a b lp p rmin rmax where c: "BitSize g l = Some a" "BitSize g r = Some b"
    and lp: "IsPositive g l = Some lp" "(if lp then IsPositive g r else Some False) = Some p"
    and mn: "(if p then Some 0 else shl64 (-1) (max a b)) = Some rmin" "mn = kConstant rmin"
    and rmax: "(if 0 \<le> max a b \<and> max a b < 64
      then Some (sint (push_bit (nat (max a b)) (1 :: 64 word) - 1)) else None) = Some rmax" "mx = kConstant rmax"
    unfolding Range_BitwiseOp_def Let_def Maximum_max by blast
  have p: "p \<longrightarrow> IsPositive g l = Some True \<and> IsPositive g r = Some True" using lp by (auto split: if_splits)
  have mx: "mx = kConstant (sint (push_bit (nat (max a b)) (1 :: 64 word) - 1))"
    using rmax by (auto split: if_splits)
  note a = BitSize_sound [OF c(1) C o(1)] and b = BitSize_sound [OF c(2) C o(2)]
  define n where "n = nat (max a b)"
  have n: "n \<le> 63" "(2::int) ^ nat a \<le> 2 ^ n" "(2::int) ^ nat b \<le> 2 ^ n"
    using a(1,2) b(1,2) by (auto simp: n_def intro: power_increasing)
  have bnd: "- (2 ^ n) \<le> f x y \<and> f x y < 2 ^ n"
    using signed_closed [of n x y] a(3,4) b(3,4) n f by auto
  have "(2::int) ^ n \<le> 2 ^ 63" using n(1) by (intro power_increasing) auto
  then have "0 < (2::int) ^ n \<and> (2::int) ^ n \<le> 9223372036854775808" by simp
  then have in6: "in64 (2 ^ n - 1)" "in64 (- (2 ^ n))" unfolding in64_def konst by linarith+
  have mx': "mx = kConstant (2 ^ n - 1)" using mx mask_word [OF n(1)] by (simp add: n_def)
  have "lower_ok \<nu> mn (f x y) \<and> b_ok \<nu> mn"
  proof (cases p)
    case True
    have "0 \<le> x" "0 \<le> y"
      using p True OnlyGreaterThanOrEqualTo_sound [OF _ C operandD(6,7) [OF o(1)]]
        OnlyGreaterThanOrEqualTo_sound [OF _ C operandD(6,7) [OF o(2)]] by (auto simp: IsPositive_def)
    then show ?thesis using mn True f by auto
  next
    case False
    then have "rmin = - (2 ^ n)"
      using mn by (auto simp: shl64_def push_bit_eq_mult n_def split: if_splits)
    then show ?thesis using mn bnd in6 by auto
  qed
  then show ?thesis using bnd in6 mx' by (simp add: bounds_hold_def)
qed

lemma Range_And_sound:
  assumes A: "Range_And g l r = Some (mn, mx)" and C: "consistent g \<nu>"
    and o: "operand \<nu> l x" "operand \<nu> r y"
  shows "bounds_hold \<nu> (mn, mx) (x AND y)"
proof -
  have cm: "ConstantMax g (Some q) kRangeBoundaryInt64 = Some u \<Longrightarrow> operand \<nu> q z \<Longrightarrow>
      \<exists>m. u = kConstant m \<and> z \<le> m \<and> in64 m" for q u z
    using UpperBound_sound [of g "range_max q" _ \<nu>] C operandD [of \<nu> q z]
    by (fastforce simp: ConstantMax_def upper_const_def rb_simps in64_def)
  from A obtain rmin where rmin: "CMin g r = Some rmin" by (auto simp: Range_And_def)
  show ?thesis
  proof (cases "rmin \<ge> 0")
    case True
    then have y: "0 \<le> y" using cmin_operand [OF rmin C o(2)] by simp
    from A rmin True obtain m where "mn = kConstant 0" "mx = kConstant m" "y \<le> m" "in64 m"
      using cm [OF _ o(2)] by (auto simp: Range_And_def)
    moreover have "x AND y \<le> y" using y by (rule AND_upper2)
    ultimately show ?thesis using y by (auto simp: bounds_hold_def)
  next
    case False
    from A rmin False obtain lmin where lmin: "CMin g l = Some lmin" by (auto simp: Range_And_def)
    show ?thesis
    proof (cases "lmin \<ge> 0")
      case True
      then have x: "0 \<le> x" using cmin_operand [OF lmin C o(1)] by simp
      from A rmin False lmin True obtain m where "mn = kConstant 0" "mx = kConstant m" "x \<le> m" "in64 m"
        using cm [OF _ o(1)] by (auto simp: Range_And_def)
      moreover have "x AND y \<le> x" using x by (rule AND_upper1)
      ultimately show ?thesis using x by (auto simp: bounds_hold_def)
    next
      case 2: False
      show ?thesis
        by (rule Range_BitwiseOp_sound [OF _ C o]) (use A rmin False lmin 2 in \<open>auto simp: Range_And_def\<close>)
    qed
  qed
qed

subsection \<open>Multiplication\<close>

lemma ConstantAbs_sound:
  assumes "CMin g r = Some m" "CMax g r = Some M" "consistent g \<nu>" "operand \<nu> r x"
  shows "ConstantAbsMax g r = Some k \<Longrightarrow> \<bar>x\<bar> \<le> k" "ConstantAbsMin g r = Some k \<Longrightarrow> k = min \<bar>m\<bar> \<bar>M\<bar> \<and> 0 \<le> k"
  using assms(1,2) cmin_operand [OF assms(1,3,4)] cmax_operand [OF assms(2,3,4)]
  by (auto simp: ConstantAbsMax_def ConstantAbsMin_def Abs_eq_Some)

lemma SameSign_cases:
  assumes "SameSign g l r = Some True"
  shows "(OnlyGreaterThanOrEqualTo g l 0 = Some True \<and> OnlyGreaterThanOrEqualTo g r 0 = Some True) \<or>
    (OnlyLessThanOrEqualTo g l 0 = Some True \<and> OnlyLessThanOrEqualTo g r 0 = Some True)"
  using assms by (auto simp: SameSign_def OnlyPositiveOrZero_def OnlyNegativeOrZero_def split: if_splits)

lemma ConstantAbsMin_sound:
  assumes "ConstantAbsMin g r = Some k" "consistent g \<nu>" "operand \<nu> r x"
    "OnlyGreaterThanOrEqualTo g r 0 = Some True \<or> OnlyLessThanOrEqualTo g r 0 = Some True"
  shows "0 \<le> k" "k \<le> \<bar>x\<bar>"
proof -
  from assms(1) obtain m M where mM: "CMin g r = Some m" "CMax g r = Some M"
    by (auto simp: ConstantAbsMin_def)
  have k: "k = min \<bar>m\<bar> \<bar>M\<bar>" "0 \<le> k" using ConstantAbs_sound(2) [OF mM assms(2,3,1)] by auto
  then show "0 \<le> k" by simp
  show "k \<le> \<bar>x\<bar>"
    using assms(4)
  proof
    assume "OnlyGreaterThanOrEqualTo g r 0 = Some True"
    from cmin_sign [OF this mM(1) assms(2) operandD(6) [OF assms(3)]] cmin_operand(1) [OF mM(1) assms(2,3)] k
    show ?thesis by auto
  next
    assume "OnlyLessThanOrEqualTo g r 0 = Some True"
    from cmax_sign [OF this mM(2) assms(2) operandD(6) [OF assms(3)]] cmax_operand(1) [OF mM(2) assms(2,3)] k
    show ?thesis by auto
  qed
qed

lemma ConstantAbsMax_sound:
  assumes "ConstantAbsMax g r = Some k" "consistent g \<nu>" "operand \<nu> r x"
  shows "\<bar>x\<bar> \<le> k"
proof -
  from assms(1) obtain m M where "CMin g r = Some m" "CMax g r = Some M" by (auto simp: ConstantAbsMax_def)
  then show ?thesis using ConstantAbs_sound(1) assms by blast
qed

lemma SameSign_value:
  assumes "SameSign g l r = Some True" "consistent g \<nu>" "operand \<nu> l x" "operand \<nu> r y"
  shows "x * y = \<bar>x\<bar> * \<bar>y\<bar>"
proof -
  note s = SameSign_cases [OF assms(1)]
  have "(0 \<le> x \<and> 0 \<le> y) \<or> (x \<le> 0 \<and> y \<le> 0)"
    using s OnlyGreaterThanOrEqualTo_sound [OF _ assms(2) operandD(6,7) [OF assms(3)]]
      OnlyGreaterThanOrEqualTo_sound [OF _ assms(2) operandD(6,7) [OF assms(4)]]
      OnlyLessThanOrEqualTo_sound [OF _ assms(2) operandD(6,7) [OF assms(3)]]
      OnlyLessThanOrEqualTo_sound [OF _ assms(2) operandD(6,7) [OF assms(4)]] by blast
  then show ?thesis by auto
qed

lemma Range_Mul_sound:
  assumes A: "Range_Mul g l r = Some (mn, mx)" and C: "consistent g \<nu>"
    and o: "operand \<nu> l x" "operand \<nu> r y"
  shows "bounds_hold \<nu> (mn, mx) (x * y)"
proof -
  from A obtain L R where LR: "ConstantAbsMax g l = Some L" "ConstantAbsMax g r = Some R"
    by (auto simp: Range_Mul_def)
  from A LR obtain same where s: "SameSign g l r = Some same"
    by (auto simp: Range_Mul_def split: if_splits)
  have le: "\<bar>x\<bar> \<le> L" "\<bar>y\<bar> \<le> R"
    by (rule ConstantAbsMax_sound [OF LR(1) C o(1)], rule ConstantAbsMax_sound [OF LR(2) C o(2)])
  then have up: "\<bar>x * y\<bar> \<le> L * R" unfolding abs_mult by (intro mult_mono) auto
  have pos: "same \<Longrightarrow> x * y = \<bar>x\<bar> * \<bar>y\<bar>" using SameSign_value [OF _ C o] s by simp
  have lm: "same \<Longrightarrow> ConstantAbsMin g l = Some a \<Longrightarrow> ConstantAbsMin g r = Some b \<Longrightarrow> a * b \<le> x * y" for a b
  proof -
    assume *: "same" "ConstantAbsMin g l = Some a" "ConstantAbsMin g r = Some b"
    have "SameSign g l r = Some True" using *(1) s by simp
    from SameSign_cases [OF this] have "0 \<le> a" "a \<le> \<bar>x\<bar>" "0 \<le> b" "b \<le> \<bar>y\<bar>"
      using ConstantAbsMin_sound [OF *(2) C o(1)] ConstantAbsMin_sound [OF *(3) C o(2)] by auto
    then have "a * b \<le> \<bar>x\<bar> * \<bar>y\<bar>" by (intro mult_mono) auto
    with pos *(1) show ?thesis by simp
  qed
  show ?thesis
  proof (cases "L \<le> - kSmiMin \<and> R \<le> - kSmiMin \<and> (L = 0 \<or> R \<le> kMaxInt64 div L)")
    case True
    with A LR s have in6: "in64 (L * R)" and mx: "mx = kConstant (L * R)"
      by (auto simp: Range_Mul_def split: if_splits)
    show ?thesis
    proof (cases same)
      case same: True
      obtain a b where ab: "ConstantAbsMin g l = Some a" "ConstantAbsMin g r = Some b"
        "in64 (a * b)" "mn = kConstant (a * b)"
        using A LR s True same by (auto simp: Range_Mul_def)
      with lm [OF same ab(1,2)] up in6 mx show ?thesis by (simp add: bounds_hold_def)
    next
      case nsame: False
      then show ?thesis using A LR s True up in6 mx by (auto simp: Range_Mul_def bounds_hold_def)
    qed
  next
    case False
    then have "(if same then mn = kConstant 0 else mn = kNegativeInfinity) \<and> mx = kPositiveInfinity"
      using A LR s by (auto simp: Range_Mul_def split: if_splits)
    then show ?thesis using pos by (auto simp: bounds_hold_def split: if_splits)
  qed
qed

subsection \<open>What the users of the transfer functions rely on\<close>

text \<open>
  The contract of one operator of \<open>Range::BinaryOp\<close>: the operator dispatches to its transfer
  function, and the boundaries that function computes hold for the exact result.
\<close>

locale sound_transfer =
  fixes kind :: token_kind
    and tf :: "flow_graph \<Rightarrow> range \<Rightarrow> range \<Rightarrow> defn_id option \<Rightarrow> boundaries option"
  assumes dispatch: "BinaryOp_boundaries kind g l r d = tf g l r d"
    and tf_sound: "tf g l r d = Some mm \<Longrightarrow> consistent g \<nu> \<Longrightarrow> operand \<nu> l x \<Longrightarrow> operand \<nu> r y \<Longrightarrow>
      left_defn_ok g \<nu> d x \<Longrightarrow> count_ok kind y \<Longrightarrow> bounds_hold \<nu> mm (sem_op kind x y)"
begin

lemma BinaryOp_value:
  assumes "Range_BinaryOp kind g l r d = Some p" "consistent g \<nu>" "operand \<nu> l x" "operand \<nu> r y"
    "left_defn_ok g \<nu> d x" "count_ok kind y"
  shows "in_range \<nu> p (sem_op kind x y) \<and> r_ok \<nu> p"
proof -
  obtain mn mx where "tf g l r d = Some (mn, mx)" "p = \<lparr>range_min = mn, range_max = mx\<rparr>"
    using assms(1) by (auto simp: Range_BinaryOp_def Range_def dispatch)
  with tf_sound [OF _ assms(2-6)] show ?thesis
    by (fastforce simp: bounds_hold_def in_range_def r_ok_def)
qed

end

interpretation add_op: sound_transfer kADD Range_Add
  by unfold_locales (auto dest: Range_Add_sound)

interpretation sub_op: sound_transfer kSUB Range_Sub
  by unfold_locales (auto dest: Range_Sub_sound)

interpretation mul_op: sound_transfer kMUL "\<lambda>g l r d. Range_Mul g l r"
  by unfold_locales (auto dest: Range_Mul_sound)

interpretation shl_op: sound_transfer kSHL "\<lambda>g l r d. Range_Shl g l r"
  by unfold_locales (auto simp: count_ok_def dest: Range_Shl_sound)

interpretation shr_op: sound_transfer kSHR "\<lambda>g l r d. Range_Shr g l r"
  by unfold_locales (auto simp: count_ok_def dest: Range_Shr_sound)

interpretation and_op: sound_transfer kBIT_AND "\<lambda>g l r d. Range_And g l r"
  by unfold_locales (auto dest: Range_And_sound)

interpretation or_op: sound_transfer kBIT_OR "\<lambda>g l r d. Range_BitwiseOp g l r"
  by unfold_locales (auto dest: Range_BitwiseOp_sound [where f = "(OR)"])

interpretation xor_op: sound_transfer kBIT_XOR "\<lambda>g l r d. Range_BitwiseOp g l r"
  by unfold_locales (auto dest: Range_BitwiseOp_sound [where f = "(XOR)"])

lemmas BinaryOp_values = add_op.BinaryOp_value sub_op.BinaryOp_value mul_op.BinaryOp_value
  shl_op.BinaryOp_value shr_op.BinaryOp_value and_op.BinaryOp_value or_op.BinaryOp_value xor_op.BinaryOp_value

lemma Range_BinaryOp_value:
  assumes "tracked_op kind" "Range_BinaryOp kind g l r d = Some p" "consistent g \<nu>"
    "operand \<nu> l x" "operand \<nu> r y" "left_defn_ok g \<nu> d x" "count_ok kind y"
  shows "in_range \<nu> p (sem_op kind x y) \<and> r_ok \<nu> p"
  using assms BinaryOp_values [of g l r d p \<nu> x y]
  by (auto simp: tracked_op_def simp del: sem_op.simps)

end
