(* ===== verification/Range_Infer.thy ===== *)
theory Range_Infer
  imports Range_Arith
begin

text \<open>
  Range inference: the \<open>InferRange\<close> method of every instruction class, widening and narrowing,
  the fixpoint iteration of \<open>RangeAnalysis\<close> and the test that removes array bounds checks.
  \<open>InferRange\<close> of a definition returns the graph (\<open>InferRangeHelper\<close> writes \<open>can_overflow_\<close>) and
  the range, which is the unknown range when the method returns without assigning it.
\<close>

subsection \<open>Constraints on branches\<close>

fun FlipComparison :: "token_kind \<Rightarrow> token_kind option" where
  "FlipComparison kEQ = Some kEQ"
| "FlipComparison kNE = Some kNE"
| "FlipComparison kLT = Some kGT"
| "FlipComparison kGT = Some kLT"
| "FlipComparison kLTE = Some kGTE"
| "FlipComparison kGTE = Some kLTE"
| "FlipComparison op = None"

fun NegateComparison :: "token_kind \<Rightarrow> token_kind option" where
  "NegateComparison kEQ = Some kNE"
| "NegateComparison kNE = Some kEQ"
| "NegateComparison kLT = Some kGTE"
| "NegateComparison kGT = Some kLTE"
| "NegateComparison kLTE = Some kGT"
| "NegateComparison kGTE = Some kLT"
| "NegateComparison op = None"

fun ConstraintSmiRange :: "flow_graph \<Rightarrow> token_kind \<Rightarrow> defn_id \<Rightarrow> range option" where
  "ConstraintSmiRange g kEQ b = do { mn \<leftarrow> FromDefinition g b 0; mx \<leftarrow> FromDefinition g b 0; Range mn mx }"
| "ConstraintSmiRange g kNE b = Some (Full kRangeBoundarySmi)"
| "ConstraintSmiRange g kLT b = do { mx \<leftarrow> FromDefinition g b (-1); Range MinSmi mx }"
| "ConstraintSmiRange g kGT b = do { mn \<leftarrow> FromDefinition g b 1; Range mn MaxSmi }"
| "ConstraintSmiRange g kLTE b = do { mx \<leftarrow> FromDefinition g b 0; Range MinSmi mx }"
| "ConstraintSmiRange g kGTE b = do { mn \<leftarrow> FromDefinition g b 0; Range mn MaxSmi }"
| "ConstraintSmiRange g op b = None"

subsection \<open>Ranges of inputs\<close>

definition GetSmiRange :: "flow_graph \<Rightarrow> defn_id \<Rightarrow> range option" where
  "GetSmiRange g d =
     (if range_of g d = None \<and> type_cid (defs g d) \<noteq> kSmiCid then Some (Full kRangeBoundarySmi)
      else range_of g d)"

definition GetIntRange :: "flow_graph \<Rightarrow> defn_id \<Rightarrow> range option" where
  "GetIntRange g d =
     (if range_of g d = None \<and> \<not> type_is_int (defs g d) then Some (Full kRangeBoundaryInt64)
      else range_of g d)"

definition IsMintDefinition :: "defn \<Rightarrow> bool" where
  "IsMintDefinition d \<longleftrightarrow> type_cid d = kMintCid \<or>
     (case instr d of BinaryMintOpInstr op l r \<Rightarrow> True | UnaryMintOpInstr v \<Rightarrow> True
      | ShiftMintOpInstr op l r \<Rightarrow> True | BoxInt64Instr v \<Rightarrow> True | UnboxInt64Instr v \<Rightarrow> True
      | _ \<Rightarrow> False)"

definition IsInt32Definition :: "defn \<Rightarrow> bool" where
  "IsInt32Definition d \<longleftrightarrow>
     (case instr d of BinaryInt32OpInstr op l r \<Rightarrow> True | BoxInt32Instr v \<Rightarrow> True
      | UnboxInt32Instr v c \<Rightarrow> True | UnboxedIntConverterInstr from to v \<Rightarrow> True
      | _ \<Rightarrow> False)"

definition RangeSizeForPhi :: "defn \<Rightarrow> range_size option" where
  "RangeSizeForPhi phi =
     (case instr phi of PhiInstr inputs \<Rightarrow>
        (if type_cid phi = kSmiCid then Some kRangeBoundarySmi
         else if defn_representation phi = kUnboxedInt32 then Some kRangeBoundaryInt32
         else if type_is_int phi then Some kRangeBoundaryInt64
         else None)
      | _ \<Rightarrow> None)"

fun RepresentationToRangeSize :: "representation \<Rightarrow> range_size option" where
  "RepresentationToRangeSize kTagged = Some kRangeBoundarySmi"
| "RepresentationToRangeSize kUnboxedInt32 = Some kRangeBoundaryInt32"
| "RepresentationToRangeSize kUnboxedMint = Some kRangeBoundaryInt64"
| "RepresentationToRangeSize r = None"

fun GetInputRange :: "flow_graph \<Rightarrow> range_size \<Rightarrow> defn_id \<Rightarrow> range option" where
  "GetInputRange g kRangeBoundarySmi input = GetSmiRange g input"
| "GetInputRange g kRangeBoundaryInt32 input = range_of g input"
| "GetInputRange g kRangeBoundaryInt64 input = GetIntRange g input"

subsection \<open>Phis\<close>

text \<open>
  The range a phi's input contributes to the join: \<open>[S, S]\<close> when the accumulated range already
  depends on the input \<open>S\<close> as a symbol, and the input's own range otherwise.
\<close>

definition join_other :: "flow_graph \<Rightarrow> range \<Rightarrow> defn_id \<Rightarrow> range \<Rightarrow> range option" where
  "join_other g rng d dr = do {
     unwrapped \<leftarrow> UnwrapConstraint g d;
     on_min \<leftarrow> DependsOnSymbol g (range_min rng) unwrapped;
     depends \<leftarrow> (if on_min then Some True else DependsOnSymbol g (range_max rng) unwrapped);
     if depends then do { mn \<leftarrow> FromDefinition g d 0; mx \<leftarrow> FromDefinition g d 0; Range mn mx }
     else Some dr
   }"

definition Join :: "flow_graph \<Rightarrow> range \<Rightarrow> defn_id \<Rightarrow> range option \<Rightarrow> range_size \<Rightarrow> range option" where
  "Join g rng d drange sz =
     (case drange of
        None \<Rightarrow> Some rng
      | Some dr \<Rightarrow>
          if Range_IsUnknown (Some dr) then Some rng
          else if Range_IsUnknown (Some rng) then Some dr
          else do {
            other \<leftarrow> join_other g rng d dr;
            inf_range \<leftarrow> LowerBound_sz g (range_min rng) sz;
            inf_other \<leftarrow> LowerBound_sz g (range_min other) sz;
            sup_range \<leftarrow> UpperBound_sz g (range_max rng) sz;
            sup_other \<leftarrow> UpperBound_sz g (range_max other) sz;
            if sup_range \<le> inf_other then Some (rng\<lparr>range_max := range_max other\<rparr>)
            else if sup_other \<le> inf_range then Some (rng\<lparr>range_min := range_min other\<rparr>)
            else do {
              mn \<leftarrow> JoinMin g (range_min rng) (range_min other) sz;
              mx \<leftarrow> JoinMax g (range_max rng) (range_max other) sz;
              Range mn mx
            }
          })"

definition DominatesPhi :: "flow_graph \<Rightarrow> nat \<Rightarrow> nat \<Rightarrow> bool" where
  "DominatesPhi g a phi_block \<longleftrightarrow> dominates g a phi_block \<and> a \<noteq> phi_block"

fun EnsureAcyclicSymbol :: "flow_graph \<Rightarrow> nat \<Rightarrow> range_boundary \<Rightarrow> range_boundary \<Rightarrow> range_boundary option" where
  "EnsureAcyclicSymbol g phi_block (kSymbol s off) limit =
     (if DominatesPhi g (block_of (defs g s)) phi_block then Some (kSymbol s off)
      else do {
        unwrapped \<leftarrow> UnwrapConstraint g s;
        if unwrapped \<noteq> s \<and> DominatesPhi g (block_of (defs g unwrapped)) phi_block
        then FromDefinition g unwrapped off
        else Some limit
      })"
| "EnsureAcyclicSymbol g phi_block a limit = Some a"

fun join_inputs :: "flow_graph \<Rightarrow> range_size \<Rightarrow> defn_id list \<Rightarrow> range \<Rightarrow> range option" where
  "join_inputs g sz [] rng = Some rng"
| "join_inputs g sz (input # inputs) rng = do {
     rng' \<leftarrow> Join g rng input (GetInputRange g sz input) sz;
     join_inputs g sz inputs rng'
   }"

definition PhiInstr_InferRange :: "flow_graph \<Rightarrow> defn \<Rightarrow> defn_id list \<Rightarrow> range option" where
  "PhiInstr_InferRange g phi inputs = do {
     sz \<leftarrow> RangeSizeForPhi phi;
     rng \<leftarrow> join_inputs g sz inputs UnknownRange;
     mn \<leftarrow> EnsureAcyclicSymbol g (block_of phi) (range_min rng) MinSmi;
     mx \<leftarrow> EnsureAcyclicSymbol g (block_of phi) (range_max rng) MaxSmi;
     Some \<lparr>range_min = mn, range_max = mx\<rparr>
   }"

subsection \<open>Other instructions\<close>

definition ConstantRange :: "int \<Rightarrow> int \<Rightarrow> range" where
  "ConstantRange mn mx = \<lparr>range_min = kConstant mn, range_max = kConstant mx\<rparr>"

definition Definition_InferRange :: "defn \<Rightarrow> range option" where
  "Definition_InferRange d =
     (if type_cid d = kSmiCid then Some (Full kRangeBoundarySmi)
      else if IsMintDefinition d then Some (Full kRangeBoundaryInt64)
      else if IsInt32Definition d then Some (Full kRangeBoundaryInt32)
      else if type_is_int d then Some (Full kRangeBoundaryInt64)
      else None)"

fun ConstantInstr_InferRange :: "const_value \<Rightarrow> range option" where
  "ConstantInstr_InferRange (SmiValue v) = Some (ConstantRange v v)"
| "ConstantInstr_InferRange (MintValue v) = Some (ConstantRange v v)"
| "ConstantInstr_InferRange OtherObject = None"

definition ConstraintInstr_InferRange :: "flow_graph \<Rightarrow> defn_id \<Rightarrow> range \<Rightarrow> range option" where
  "ConstraintInstr_InferRange g v constraint =
     (case GetSmiRange g v of
        None \<Rightarrow> Some UnknownRange
      | Some value_range \<Rightarrow>
          if Range_IsUnknown (Some value_range) then Some UnknownRange
          else do {
            result \<leftarrow> Intersect g value_range constraint;
            u \<leftarrow> IsUnsatisfiable g result;
            Some (if u then UnknownRange else result)
          })"

text \<open>\<open>Array::kMaxElements\<close> and \<open>String::kMaxElements\<close>: \<open>kSmiMax\<close> divided by the element sizes.\<close>

definition kArrayMaxElements :: int where [konst]: "kArrayMaxElements = kSmiMax div 8"
definition kStringMaxElements :: int where [konst]: "kStringMaxElements = kSmiMax div 2"

fun LoadField_InferRange :: "recognized_kind \<Rightarrow> defn \<Rightarrow> range option" where
  "LoadField_InferRange kObjectArrayLength d = Some (ConstantRange 0 kArrayMaxElements)"
| "LoadField_InferRange kImmutableArrayLength d = Some (ConstantRange 0 kArrayMaxElements)"
| "LoadField_InferRange kTypedDataLength d = Some (ConstantRange 0 kSmiMax)"
| "LoadField_InferRange kStringBaseLength d = Some (ConstantRange 0 kStringMaxElements)"
| "LoadField_InferRange kOtherField d = Definition_InferRange d"

fun LoadIndexed_InferRange :: "cid \<Rightarrow> defn \<Rightarrow> range option" where
  "LoadIndexed_InferRange kTypedDataInt8ArrayCid d = Some (ConstantRange (-128) 127)"
| "LoadIndexed_InferRange kTypedDataUint8ArrayCid d = Some (ConstantRange 0 255)"
| "LoadIndexed_InferRange kTypedDataUint8ClampedArrayCid d = Some (ConstantRange 0 255)"
| "LoadIndexed_InferRange kExternalTypedDataUint8ArrayCid d = Some (ConstantRange 0 255)"
| "LoadIndexed_InferRange kExternalTypedDataUint8ClampedArrayCid d = Some (ConstantRange 0 255)"
| "LoadIndexed_InferRange kTypedDataInt16ArrayCid d = Some (ConstantRange (-32768) 32767)"
| "LoadIndexed_InferRange kTypedDataUint16ArrayCid d = Some (ConstantRange 0 65535)"
| "LoadIndexed_InferRange kTypedDataInt32ArrayCid d = Some (ConstantRange kMinInt32 kMaxInt32)"
| "LoadIndexed_InferRange kTypedDataUint32ArrayCid d = Some (ConstantRange 0 kMaxUint32)"
| "LoadIndexed_InferRange kOneByteStringCid d = Some (ConstantRange 0 0xFF)"
| "LoadIndexed_InferRange kTwoByteStringCid d = Some (ConstantRange 0 0xFFFF)"
| "LoadIndexed_InferRange c d = Definition_InferRange d"

fun LoadCodeUnits_InferRange :: "cid \<Rightarrow> range option" where
  "LoadCodeUnits_InferRange kOneByteStringCid = Some (ConstantRange 0 kMaxUint32)"
| "LoadCodeUnits_InferRange kTwoByteStringCid = Some (ConstantRange 0 kMaxUint32)"
| "LoadCodeUnits_InferRange kExternalOneByteStringCid = Some (ConstantRange 0 kMaxUint32)"
| "LoadCodeUnits_InferRange kExternalTwoByteStringCid = Some (ConstantRange 0 kMaxUint32)"
| "LoadCodeUnits_InferRange c = None"

definition IfThenElse_InferRange :: "int \<Rightarrow> int \<Rightarrow> range" where
  "IfThenElse_InferRange if_true if_false = ConstantRange (Minimum if_true if_false) (Maximum if_true if_false)"

definition copy_range :: "range option \<Rightarrow> range" where
  "copy_range value_range = (case value_range of None \<Rightarrow> UnknownRange
     | Some r \<Rightarrow> if Range_IsUnknown (Some r) then UnknownRange else r)"

definition BoxInteger_InferRange :: "flow_graph \<Rightarrow> defn_id \<Rightarrow> range" where
  "BoxInteger_InferRange g v = copy_range (range_of g v)"

definition UnboxInt32_InferRange :: "flow_graph \<Rightarrow> defn_id \<Rightarrow> cid \<Rightarrow> range" where
  "UnboxInt32_InferRange g v c =
     (if c = kSmiCid then copy_range (GetSmiRange g v)
      else if type_is_int (defs g v) then copy_range (GetIntRange g v)
      else if c = kSmiCid then Full kRangeBoundarySmi
      else Full kRangeBoundaryInt32)"

definition UnboxUint32_InferRange :: "flow_graph \<Rightarrow> defn_id \<Rightarrow> cid \<Rightarrow> range option" where
  "UnboxUint32_InferRange g v c =
     (if c \<noteq> kSmiCid \<and> \<not> type_is_int (defs g v) then Some (ConstantRange 0 kMaxUint32)
      else (case (if c = kSmiCid then GetSmiRange g v else GetIntRange g v) of
              None \<Rightarrow> Some UnknownRange
            | Some value_range \<Rightarrow>
                if Range_IsUnknown (Some value_range) then Some UnknownRange
                else do {
                  p \<leftarrow> IsPositive g value_range;
                  Some (if p then value_range else ConstantRange 0 kMaxUint32)
                }))"

definition UnboxInt64_InferRange :: "flow_graph \<Rightarrow> defn_id \<Rightarrow> range" where
  "UnboxInt64_InferRange g v =
     (case range_of g v of
        Some value_range \<Rightarrow> value_range
      | None \<Rightarrow> if \<not> IsMintDefinition (defs g v) \<and> type_cid (defs g v) \<noteq> kSmiCid
                then Full kRangeBoundaryInt64 else UnknownRange)"

definition UnboxedIntConverter_InferRange ::
  "flow_graph \<Rightarrow> representation \<Rightarrow> representation \<Rightarrow> defn_id \<Rightarrow> range option" where
  "UnboxedIntConverter_InferRange g from to v = do {
     ASSERT (from = kUnboxedInt32 \<or> from = kUnboxedMint \<or> from = kUnboxedUint32);
     ASSERT (to = kUnboxedInt32 \<or> to = kUnboxedMint \<or> to = kUnboxedUint32);
     case range_of g v of
       None \<Rightarrow> Some UnknownRange
     | Some value_range \<Rightarrow>
         Some (if Range_IsUnknown (Some value_range) then UnknownRange
               else if to = kUnboxedUint32 then ConstantRange 0 kMaxUint32
               else if to = kUnboxedInt32 then Range_Clamp value_range kRangeBoundaryInt32
               else value_range)
   }"

subsection \<open>Binary operations\<close>

definition set_defn :: "flow_graph \<Rightarrow> defn_id \<Rightarrow> defn \<Rightarrow> flow_graph" where
  "set_defn g d x = g\<lparr>defs := (defs g)(d := x)\<rparr>"

definition set_can_overflow :: "flow_graph \<Rightarrow> defn_id \<Rightarrow> bool \<Rightarrow> flow_graph option" where
  "set_can_overflow g d overflow = do {
     ASSERT (\<not> is_truncating (defs g d) \<or> \<not> overflow);
     Some (set_defn g d ((defs g d)\<lparr>can_overflow := overflow\<rparr>))
   }"

definition InferRangeHelper ::
  "flow_graph \<Rightarrow> defn_id \<Rightarrow> token_kind \<Rightarrow> defn_id \<Rightarrow> range option \<Rightarrow> range option \<Rightarrow> (flow_graph \<times> range) option" where
  "InferRangeHelper g d op left left_range right_range =
     (case (left_range, right_range) of
        (Some lr, Some rr) \<Rightarrow>
          if Range_IsUnknown (Some lr) \<or> Range_IsUnknown (Some rr) then Some (g, UnknownRange)
          else do {
            rng \<leftarrow> Range_BinaryOp op g lr rr (Some left);
            ASSERT (\<not> Range_IsUnknown (Some rng));
            range_size \<leftarrow> RepresentationToRangeSize (defn_representation (defs g d));
            g' \<leftarrow> (if \<not> is_truncating (defs g d)
                   then do { f \<leftarrow> Fits g rng range_size; set_can_overflow g d (\<not> f) }
                   else Some g);
            Some (g', Range_Clamp rng range_size)
          }
      | _ \<Rightarrow> Some (g, UnknownRange))"

definition pure_range :: "flow_graph \<Rightarrow> range option \<Rightarrow> (flow_graph \<times> range) option" where
  "pure_range g r = do { rng \<leftarrow> r; Some (g, rng) }"

definition InferRange :: "flow_graph \<Rightarrow> defn_id \<Rightarrow> (flow_graph \<times> range) option" where
  "InferRange g d =
     (case instr_of g d of
        PhiInstr inputs \<Rightarrow> pure_range g (PhiInstr_InferRange g (defs g d) inputs)
      | ConstantInstr v \<Rightarrow> pure_range g (ConstantInstr_InferRange v)
      | ConstraintInstr v c \<Rightarrow> pure_range g (ConstraintInstr_InferRange g v c)
      | LoadFieldInstr k \<Rightarrow> pure_range g (LoadField_InferRange k (defs g d))
      | LoadIndexedInstr c \<Rightarrow> pure_range g (LoadIndexed_InferRange c (defs g d))
      | LoadCodeUnitsInstr c \<Rightarrow> pure_range g (LoadCodeUnits_InferRange c)
      | IfThenElseInstr t f \<Rightarrow> pure_range g (Some (IfThenElse_InferRange t f))
      | BinarySmiOpInstr op l r \<Rightarrow> InferRangeHelper g d op l (GetSmiRange g l) (GetSmiRange g r)
      | BinaryInt32OpInstr op l r \<Rightarrow> InferRangeHelper g d op l (GetSmiRange g l) (GetSmiRange g r)
      | BinaryMintOpInstr op l r \<Rightarrow> InferRangeHelper g d op l (range_of g l) (range_of g r)
      | ShiftMintOpInstr op l r \<Rightarrow> InferRangeHelper g d op l (range_of g l) (range_of g r)
      | BoxInt64Instr v \<Rightarrow> pure_range g (Some (BoxInteger_InferRange g v))
      | BoxInt32Instr v \<Rightarrow> pure_range g (Some (BoxInteger_InferRange g v))
      | BoxUint32Instr v \<Rightarrow> pure_range g (Some (BoxInteger_InferRange g v))
      | UnboxInt32Instr v c \<Rightarrow> pure_range g (Some (UnboxInt32_InferRange g v c))
      | UnboxUint32Instr v c \<Rightarrow> pure_range g (UnboxUint32_InferRange g v c)
      | UnboxInt64Instr v \<Rightarrow> pure_range g (Some (UnboxInt64_InferRange g v))
      | UnboxedIntConverterInstr from to v \<Rightarrow> pure_range g (UnboxedIntConverter_InferRange g from to v)
      | UnaryMintOpInstr v \<Rightarrow> pure_range g (Definition_InferRange (defs g d))
      | OtherInstr \<Rightarrow> pure_range g (Definition_InferRange (defs g d)))"

subsection \<open>Widening and narrowing\<close>

definition WidenMin :: "flow_graph \<Rightarrow> range \<Rightarrow> range \<Rightarrow> range_size \<Rightarrow> range_boundary option" where
  "WidenMin g rng new_range sz = do {
     let mn = range_min rng;
     let new_min = range_min new_range;
     sym \<leftarrow> (if IsSymbol mn then do {
         lb \<leftarrow> LowerBound g mn;
         ov \<leftarrow> Overflowed g lb sz;
         if ov then Some (Some (MinConstant sz))
         else do {
           same \<leftarrow> DependOnSameSymbol g mn new_min;
           if same then Some (Some (if offset mn \<le> offset new_min then mn else MinConstant sz))
           else do {
             u \<leftarrow> UpperBound_sz g mn sz;
             l \<leftarrow> LowerBound_sz g new_min sz;
             Some (if u \<le> l then Some mn else None)
           }
         }
       } else Some None);
     case sym of
       Some b \<Rightarrow> Some b
     | None \<Rightarrow> do {
         cm \<leftarrow> ConstantMin g (Some rng) sz;
         cn \<leftarrow> ConstantMin g (Some new_range) sz;
         a \<leftarrow> ConstantValue cm;
         b \<leftarrow> ConstantValue cn;
         Some (if a \<le> b then cm else MinConstant sz)
       }
   }"

definition WidenMax :: "flow_graph \<Rightarrow> range \<Rightarrow> range \<Rightarrow> range_size \<Rightarrow> range_boundary option" where
  "WidenMax g rng new_range sz = do {
     let mx = range_max rng;
     let new_max = range_max new_range;
     sym \<leftarrow> (if IsSymbol mx then do {
         ub \<leftarrow> UpperBound g mx;
         ov \<leftarrow> Overflowed g ub sz;
         if ov then Some (Some (MaxConstant sz))
         else do {
           same \<leftarrow> DependOnSameSymbol g mx new_max;
           if same then Some (Some (if offset mx \<ge> offset new_max then mx else MaxConstant sz))
           else do {
             l \<leftarrow> LowerBound_sz g mx sz;
             u \<leftarrow> UpperBound_sz g new_max sz;
             Some (if l \<ge> u then Some mx else None)
           }
         }
       } else Some None);
     case sym of
       Some b \<Rightarrow> Some b
     | None \<Rightarrow> do {
         cm \<leftarrow> ConstantMax g (Some rng) sz;
         cn \<leftarrow> ConstantMax g (Some new_range) sz;
         a \<leftarrow> ConstantValue cm;
         b \<leftarrow> ConstantValue cn;
         Some (if a \<ge> b then cm else MaxConstant sz)
       }
   }"

definition NarrowMin :: "flow_graph \<Rightarrow> range \<Rightarrow> range \<Rightarrow> range_size \<Rightarrow> range_boundary option" where
  "NarrowMin g rng new_range sz = do {
     mn \<leftarrow> ConstantMinValue g (Some rng) sz;
     new_min \<leftarrow> ConstantMinValue g (Some new_range) sz;
     Some (if mn > new_min then range_min rng
           else if IsMinimumOrBelow (range_min rng) sz then range_min new_range else range_min rng)
   }"

definition NarrowMax :: "flow_graph \<Rightarrow> range \<Rightarrow> range \<Rightarrow> range_size \<Rightarrow> range_boundary option" where
  "NarrowMax g rng new_range sz = do {
     mx \<leftarrow> ConstantMaxValue g (Some rng) sz;
     new_max \<leftarrow> ConstantMaxValue g (Some new_range) sz;
     Some (if mx < new_max then range_max rng
           else if IsMaximumOrAbove (range_max rng) sz then range_max new_range else range_max rng)
   }"

subsection \<open>Fixpoint iteration\<close>

datatype join_operator = NONE | WIDEN | NARROW

definition set_range :: "flow_graph \<Rightarrow> defn_id \<Rightarrow> range \<Rightarrow> flow_graph" where
  "set_range g d r = set_defn g d ((defs g d)\<lparr>defn_range := Some r\<rparr>)"

definition IsPhi :: "flow_graph \<Rightarrow> defn_id \<Rightarrow> bool" where
  "IsPhi g d \<longleftrightarrow> (case instr_of g d of PhiInstr inputs \<Rightarrow> True | _ \<Rightarrow> False)"

fun apply_join :: "join_operator \<Rightarrow> flow_graph \<Rightarrow> range \<Rightarrow> range \<Rightarrow> range_size \<Rightarrow> range option" where
  "apply_join WIDEN g old new sz =
     do { mn \<leftarrow> WidenMin g old new sz; mx \<leftarrow> WidenMax g old new sz; Range mn mx }"
| "apply_join NARROW g old new sz =
     do { mn \<leftarrow> NarrowMin g old new sz; mx \<leftarrow> NarrowMax g old new sz; Range mn mx }"
| "apply_join NONE g old new sz = Some new"

definition RangeAnalysis_InferRange :: "join_operator \<Rightarrow> flow_graph \<Rightarrow> defn_id \<Rightarrow> (flow_graph \<times> bool) option" where
  "RangeAnalysis_InferRange op g d = do {
     (g, rng) \<leftarrow> InferRange g d;
     if Range_IsUnknown (Some rng) then Some (g, False)
     else do {
       rng \<leftarrow> (case range_of g d of
           Some old \<Rightarrow>
             if \<not> Range_IsUnknown (Some old) \<and> IsPhi g d
             then do { sz \<leftarrow> RangeSizeForPhi (defs g d); apply_join op g old rng sz }
             else Some rng
         | None \<Rightarrow> Some rng);
       same \<leftarrow> Range_Equals g rng (range_of g d);
       Some (if same then (g, False) else (set_range g d rng, True))
     }
   }"

fun infer_pass :: "join_operator \<Rightarrow> defn_id list \<Rightarrow> flow_graph \<Rightarrow> bool \<Rightarrow> (flow_graph \<times> bool) option" where
  "infer_pass op [] g changed = Some (g, changed)"
| "infer_pass op (d # ds) g changed = do {
     (g, c) \<leftarrow> RangeAnalysis_InferRange op g d;
     infer_pass op ds g (changed \<or> c)
   }"

text \<open>The loop of \<open>Iterate\<close> runs at least once; \<open>max_iterations\<close> bounds it.\<close>

function iterate_loop :: "join_operator \<Rightarrow> int \<Rightarrow> int \<Rightarrow> defn_id list \<Rightarrow> flow_graph \<Rightarrow> flow_graph option" where
  "iterate_loop op iteration max_iterations definitions g = do {
     (g, changed) \<leftarrow> infer_pass op definitions g False;
     if changed \<and> iteration + 1 < max_iterations
     then iterate_loop op (iteration + 1) max_iterations definitions g
     else Some g
   }"
  by pat_completeness auto
termination by (relation "measure (\<lambda>(op, i, n, ds, g). nat (n - i))") auto

declare iterate_loop.simps [simp del]

definition Iterate :: "join_operator \<Rightarrow> int \<Rightarrow> defn_id list \<Rightarrow> flow_graph \<Rightarrow> flow_graph option" where
  "Iterate op max_iterations definitions g = iterate_loop op 0 max_iterations definitions g"

text \<open>The three phases of \<open>InferRanges\<close>, on the definitions it has collected in reverse postorder.\<close>

definition InferRanges :: "defn_id list \<Rightarrow> flow_graph \<Rightarrow> flow_graph option" where
  "InferRanges definitions g = do {
     g \<leftarrow> Iterate NONE 2 definitions g;
     g \<leftarrow> Iterate WIDEN kMaxInt32 definitions g;
     Iterate NARROW kMaxInt32 definitions g
   }"

subsection \<open>Redundant bounds checks\<close>

partial_function (option) bounds_loop :: "flow_graph \<Rightarrow> range_boundary \<Rightarrow> range_boundary \<Rightarrow> bool option" where
  "bounds_loop g mx canonical_length = do {
     same \<leftarrow> DependOnSameSymbol g mx canonical_length;
     if same then Some (offset mx < offset canonical_length)
     else do {
       rm \<leftarrow> CanonicalizeMaxBoundary g mx;
       case rm of
         Some mx' \<Rightarrow> bounds_loop g mx' canonical_length
       | None \<Rightarrow> do {
           rl \<leftarrow> CanonicalizeMinBoundary g canonical_length;
           case rl of
             Some cl' \<Rightarrow> bounds_loop g mx cl'
           | None \<Rightarrow> Some False
         }
     }
   }"

declare bounds_loop.simps [code]

definition check_bounds :: "flow_graph \<Rightarrow> defn_id \<Rightarrow> range \<Rightarrow> range_boundary \<Rightarrow> bool option" where
  "check_bounds g index index_range len = do {
     mn \<leftarrow> ConstantMinValue g (Some index_range) kRangeBoundarySmi;
     if mn < 0 then Some False
     else do {
       b \<leftarrow> FromDefinition g index 0;
       mx \<leftarrow> CanonicalizeBoundary g b kPositiveInfinity;
       if OverflowedSmi mx then Some False
       else do {
         max_upper \<leftarrow> UpperBound g mx;
         length_lower \<leftarrow> LowerBound g len;
         if OverflowedSmi max_upper \<or> OverflowedSmi length_lower then Some False
         else do {
           u \<leftarrow> ConstantValue max_upper;
           l \<leftarrow> ConstantValue length_lower;
           if u < l then Some True
           else do {
             canonical_length \<leftarrow> CanonicalizeBoundary g len kPositiveInfinity;
             if OverflowedSmi canonical_length then Some False
             else bounds_loop g mx canonical_length
           }
         }
       }
     }
   }"

definition IsRedundant :: "flow_graph \<Rightarrow> defn_id \<Rightarrow> range_boundary \<Rightarrow> (flow_graph \<times> bool) option" where
  "IsRedundant g index len =
     (case range_of g index of
        Some r \<Rightarrow> do { b \<leftarrow> check_bounds g index r len; Some (g, b) }
      | None \<Rightarrow>
          (case instr_of g index of
             ConstantInstr (SmiValue v) \<Rightarrow> do {
               (g, rng) \<leftarrow> InferRange g index;
               ASSERT (\<not> Range_IsUnknown (Some rng));
               let g = set_range g index rng;
               b \<leftarrow> check_bounds g index rng len;
               Some (g, b)
             }
           | _ \<Rightarrow> Some (g, False)))"

end
