(* ===== verification/Range_Infer_Sound.thy ===== *)
theory Range_Infer_Sound
  imports Range_Transfer Range_Infer
begin

text \<open>
  Soundness of range inference: what each \<open>InferRange\<close> method computes holds in every execution
  that agrees with the graph, a recorded range never invalidates an execution, comparisons
  constrain what they should, and a bounds check that is removed cannot fail.
\<close>

subsection \<open>Queries\<close>

lemma Clamp_lower:
  "lower_ok \<nu> b v \<Longrightarrow> b_ok \<nu> b \<Longrightarrow> in_size sz v \<Longrightarrow>
     lower_ok \<nu> (RangeBoundary_Clamp b sz) v \<and> b_ok \<nu> (RangeBoundary_Clamp b sz)"
  using in_size_in64 [of sz v] MinValue_in64 [of sz] MaxValue_in64 [of sz]
  by (cases b) (auto simp: in64_def in_size_def rb_simps max_def min_def)

lemma Clamp_upper:
  "upper_ok \<nu> b v \<Longrightarrow> b_ok \<nu> b \<Longrightarrow> in_size sz v \<Longrightarrow>
     upper_ok \<nu> (RangeBoundary_Clamp b sz) v \<and> b_ok \<nu> (RangeBoundary_Clamp b sz)"
  using in_size_in64 [of sz v] MinValue_in64 [of sz] MaxValue_in64 [of sz]
  by (cases b) (auto simp: in64_def in_size_def rb_simps max_def min_def)

lemma Range_Clamp_value:
  assumes "in_range \<nu> r v" "r_ok \<nu> r" "in_size sz v"
  shows "in_range \<nu> (Range_Clamp r sz) v" "r_ok \<nu> (Range_Clamp r sz)"
  using assms Clamp_lower Clamp_upper by (auto simp: in_range_def Range_Clamp_def r_ok_def)

lemma Full_value: "in_size sz v \<Longrightarrow> in_range \<nu> (Full sz) v" "r_ok \<nu> (Full sz)"
  by (simp_all add: in_range_def Full_def in_size_def r_ok_def rb_simps)

lemma ConstantRange_value [simp]:
  "in_range \<nu> (ConstantRange a b) v \<longleftrightarrow> a \<le> v \<and> v \<le> b"
  "r_ok \<nu> (ConstantRange a b) \<longleftrightarrow> in64 a \<and> in64 b"
  by (auto simp: in_range_def ConstantRange_def r_ok_def)

lemma in_size_Overflowed:
  "Overflowed g l sz = Some False \<Longrightarrow> lower_const l \<Longrightarrow> lower_ok \<nu> l v \<Longrightarrow> MinValue sz \<le> v"
  "Overflowed g l sz = Some False \<Longrightarrow> upper_const l \<Longrightarrow> upper_ok \<nu> l v \<Longrightarrow> v \<le> MaxValue sz"
  by (auto simp: lower_const_def upper_const_def in_size_def)

lemma Fits_value:
  assumes "Fits g r sz = Some True" "consistent g \<nu>" "r_ok \<nu> r" "in_range \<nu> r v"
  shows "in_size sz v"
proof -
  from assms(1) obtain lb ub where b: "LowerBound g (range_min r) = Some lb" "UpperBound g (range_max r) = Some ub"
    "Overflowed g lb sz = Some False" "Overflowed g ub sz = Some False"
    by (auto simp: Fits_def split: if_splits)
  have "lower_const lb" "lower_ok \<nu> lb v" "upper_const ub" "upper_ok \<nu> ub v"
    using LowerBound_sound [OF b(1) assms(2)] UpperBound_sound [OF b(2) assms(2)] assms(3,4)
    by (auto simp: r_ok_def in_range_def)
  with b(3,4) show ?thesis
    unfolding in_size_def by (blast intro: in_size_Overflowed)
qed

lemma IsUnsatisfiable_value:
  assumes "IsUnsatisfiable g r = Some True" "consistent g \<nu>" "r_ok \<nu> r" "in64 v"
  shows "\<not> in_range \<nu> r v"
proof
  assume v: "in_range \<nu> r v"
  with assms(3,4) have o: "operand \<nu> r v" by (simp add: operand_def)
  consider "range_min r = kPositiveInfinity \<or> range_max r = kNegativeInfinity"
    | mn mx where "CMin g r = Some mn" "CMax g r = Some mx" "mn > mx"
    | "DependOnSameSymbol g (range_min r) (range_max r) = Some True" "offset (range_min r) > offset (range_max r)"
    using assms(1) by (auto simp: IsUnsatisfiable_def split: if_splits)
  then show False
  proof cases
    case 1
    then show ?thesis using v assms(4) by (auto simp: in_range_def in64_def)
  next
    case 2
    then show ?thesis
      using cmin_operand(1) [OF 2(1) assms(2) o] cmax_operand(1) [OF 2(2) assms(2) o] by simp
  next
    case 3
    then show ?thesis
      using operandD [OF o] by (auto elim!: DependOnSameSymbol_value [OF _ assms(2)])
  qed
qed

subsection \<open>Comparisons\<close>

fun sem_cmp :: "token_kind \<Rightarrow> int \<Rightarrow> int \<Rightarrow> bool" where
  "sem_cmp kEQ a b = (a = b)"
| "sem_cmp kNE a b = (a \<noteq> b)"
| "sem_cmp kLT a b = (a < b)"
| "sem_cmp kGT a b = (a > b)"
| "sem_cmp kLTE a b = (a \<le> b)"
| "sem_cmp kGTE a b = (a \<ge> b)"
| "sem_cmp op a b = False"

lemma FlipComparison_value: "FlipComparison op = Some op' \<Longrightarrow> sem_cmp op' b a = sem_cmp op a b"
  by (cases op) auto

lemma NegateComparison_value: "NegateComparison op = Some op' \<Longrightarrow> sem_cmp op' a b = (\<not> sem_cmp op a b)"
  by (cases op) auto

lemma ConstraintSmiRange_value:
  assumes "ConstraintSmiRange g op b = Some r" "consistent g \<nu>" "smi_value \<nu> b" "smi x"
  shows "r_ok \<nu> r" "in_range \<nu> r x \<longleftrightarrow> op = kNE \<or> sem_cmp op x (val \<nu> b)"
proof -
  note m = FromDefinition_means [OF _ assms(2) _ assms(3)]
  have m0: "FromDefinition g b 0 = Some c \<Longrightarrow> means \<nu> c (val \<nu> b)" for c using m [of 0 c] by simp
  have m1: "FromDefinition g b 1 = Some c \<Longrightarrow> means \<nu> c (val \<nu> b + 1)" for c using m [of 1 c] by simp
  have m2: "FromDefinition g b (- 1) = Some c \<Longrightarrow> means \<nu> c (val \<nu> b - 1)" for c using m [of "- 1" c] by simp
  note ms = means_simps [OF m0] means_simps [OF m1] means_simps [OF m2]
  show "r_ok \<nu> r" using assms(1) by (cases op) (auto simp: Range_def r_ok_def rb_simps Full_def ms)
  show "in_range \<nu> r x \<longleftrightarrow> op = kNE \<or> sem_cmp op x (val \<nu> b)"
    using assms(1,4) by (cases op) (auto simp: Range_def in_range_def rb_simps smi_def Full_def ms)
qed

subsection \<open>Binary operations\<close>

lemma InferRangeHelper_value:
  assumes H: "InferRangeHelper g d op left lr rr = Some (g', r)" and known: "\<not> Range_IsUnknown (Some r)"
    and C: "consistent g \<nu>" and t: "tracked_op op" "count_ok op y" "\<not> is_truncating (defs g d)"
    and L: "\<And>q. lr = Some q \<Longrightarrow> \<not> Range_IsUnknown lr \<Longrightarrow> operand \<nu> q x"
    and R: "\<And>q. rr = Some q \<Longrightarrow> \<not> Range_IsUnknown rr \<Longrightarrow> operand \<nu> q y"
    and D: "left_defn_ok g \<nu> (Some left) x"
    and sz: "RepresentationToRangeSize (defn_representation (defs g d)) = Some sz"
  shows "\<not> can_overflow (defs g' d) \<Longrightarrow> in_size sz (sem_op op x y)"
    and "in_size sz (sem_op op x y) \<Longrightarrow> in_range \<nu> r (sem_op op x y) \<and> r_ok \<nu> r"
    and "\<exists>f. g' = set_defn g d ((defs g d)\<lparr>can_overflow := f\<rparr>)"
proof -
  obtain ql qr where q: "lr = Some ql" "rr = Some qr" "\<not> Range_IsUnknown (Some ql)" "\<not> Range_IsUnknown (Some qr)"
    using H known
    by (auto simp: InferRangeHelper_def UnknownRange_def Range_IsUnknown_def split: option.splits if_splits)
  from H q t(3) sz obtain p f where p: "Range_BinaryOp op g ql qr (Some left) = Some p"
      "Fits g p sz = Some f" "g' = set_defn g d ((defs g d)\<lparr>can_overflow := \<not> f\<rparr>)" "r = Range_Clamp p sz"
    by (auto simp: InferRangeHelper_def set_can_overflow_def)
  have v: "in_range \<nu> p (sem_op op x y) \<and> r_ok \<nu> p"
    by (rule Range_BinaryOp_value [OF t(1) p(1) C _ _ D t(2)]) (use L R q in auto)
  show "\<not> can_overflow (defs g' d) \<Longrightarrow> in_size sz (sem_op op x y)"
    using Fits_value [OF _ C] p(2,3) v by (auto simp: set_defn_def)
  show "in_size sz (sem_op op x y) \<Longrightarrow> in_range \<nu> r (sem_op op x y) \<and> r_ok \<nu> r"
    using Range_Clamp_value v p(4) by blast
  show "\<exists>f. g' = set_defn g d ((defs g d)\<lparr>can_overflow := f\<rparr>)" using p(3) by blast
qed

subsection \<open>Joins\<close>

text \<open>A range that contains a value of the given size at run time.\<close>

definition inhabited :: "execution \<Rightarrow> range_size \<Rightarrow> range \<Rightarrow> bool" where
  "inhabited \<nu> sz r \<longleftrightarrow> (\<exists>v. in_size sz v \<and> in_range \<nu> r v)"

definition r_fits :: "execution \<Rightarrow> range_size \<Rightarrow> range \<Rightarrow> bool" where
  "r_fits \<nu> sz r \<longleftrightarrow> sym_fits \<nu> sz (range_min r) \<and> sym_fits \<nu> sz (range_max r)"

lemma lower_ok_mono: "lower_ok \<nu> b v \<Longrightarrow> v \<le> w \<Longrightarrow> lower_ok \<nu> b w"
  by (cases b) auto

lemma upper_ok_mono: "upper_ok \<nu> b w \<Longrightarrow> v \<le> w \<Longrightarrow> upper_ok \<nu> b v"
  by (cases b) auto

lemma Join_cases:
  assumes "Join g rng d (Some dr) sz = Some res" "\<not> Range_IsUnknown (Some dr)" "\<not> Range_IsUnknown (Some rng)"
  obtains other il io sl so where "join_other g rng d dr = Some other"
    "LowerBound_sz g (range_min rng) sz = Some il" "LowerBound_sz g (range_min other) sz = Some io"
    "UpperBound_sz g (range_max rng) sz = Some sl" "UpperBound_sz g (range_max other) sz = Some so"
    "(sl \<le> io \<and> res = rng\<lparr>range_max := range_max other\<rparr>) \<or>
     (so \<le> il \<and> res = rng\<lparr>range_min := range_min other\<rparr>) \<or>
     (\<exists>mn mx. JoinMin g (range_min rng) (range_min other) sz = Some mn \<and>
        JoinMax g (range_max rng) (range_max other) sz = Some mx \<and> res = \<lparr>range_min = mn, range_max = mx\<rparr>)"
proof -
  obtain other il io sl so where o: "join_other g rng d dr = Some other"
    "LowerBound_sz g (range_min rng) sz = Some il" "LowerBound_sz g (range_min other) sz = Some io"
    "UpperBound_sz g (range_max rng) sz = Some sl" "UpperBound_sz g (range_max other) sz = Some so"
    using assms by (auto simp: Join_def)
  show thesis
    by (rule that [OF o]) (use assms o in \<open>auto simp: Join_def Range_def split: if_splits\<close>)
qed

text \<open>
  Two ranges that both contain a value at run time are joined correctly: every value of either is
  in the result.
\<close>

lemma join_ranges_value:
  assumes C: "consistent g \<nu>"
    and b: "LowerBound_sz g (range_min rng) sz = Some il" "LowerBound_sz g (range_min other) sz = Some io"
      "UpperBound_sz g (range_max rng) sz = Some sl" "UpperBound_sz g (range_max other) sz = Some so"
    and res: "(sl \<le> io \<and> res = rng\<lparr>range_max := range_max other\<rparr>) \<or>
      (so \<le> il \<and> res = rng\<lparr>range_min := range_min other\<rparr>) \<or>
      (\<exists>mn mx. JoinMin g (range_min rng) (range_min other) sz = Some mn \<and>
        JoinMax g (range_max rng) (range_max other) sz = Some mx \<and> res = \<lparr>range_min = mn, range_max = mx\<rparr>)"
    and ok: "r_ok \<nu> rng" "r_ok \<nu> other" and fits: "r_fits \<nu> sz rng" "r_fits \<nu> sz other"
    and inh: "inhabited \<nu> sz rng" "inhabited \<nu> sz other"
    and v: "in_range \<nu> rng v \<or> in_range \<nu> other v" "in_size sz v"
  shows "in_range \<nu> res v \<and> r_ok \<nu> res"
proof -
  note okD = ok [unfolded r_ok_def]
  obtain w where w: "in_size sz w" "in_range \<nu> rng w" using inh(1) by (auto simp: inhabited_def)
  obtain z where z: "in_size sz z" "in_range \<nu> other z" using inh(2) by (auto simp: inhabited_def)
  have up: "in_range \<nu> rng u \<Longrightarrow> in_size sz u \<Longrightarrow> il \<le> u \<and> u \<le> sl" for u
    using LowerBound_sz_sound [OF b(1) C] UpperBound_sz_sound [OF b(3) C] okD by (auto simp: in_range_def in_size_def)
  have lo: "in_range \<nu> other u \<Longrightarrow> in_size sz u \<Longrightarrow> io \<le> u \<and> u \<le> so" for u
    using LowerBound_sz_sound [OF b(2) C] UpperBound_sz_sound [OF b(4) C] okD by (auto simp: in_range_def in_size_def)
  from res consider "sl \<le> io" "res = rng\<lparr>range_max := range_max other\<rparr>"
    | "so \<le> il" "res = rng\<lparr>range_min := range_min other\<rparr>"
    | mn mx where "JoinMin g (range_min rng) (range_min other) sz = Some mn"
        "JoinMax g (range_max rng) (range_max other) sz = Some mx" "res = \<lparr>range_min = mn, range_max = mx\<rparr>"
    by blast
  then show ?thesis
  proof cases
    case 1
    have "lower_ok \<nu> (range_min rng) v"
      using v w lo up 1 lower_ok_mono [of \<nu> "range_min rng" w v] by (fastforce simp: in_range_def)
    moreover have "upper_ok \<nu> (range_max other) v"
      using v z lo up 1 upper_ok_mono [of \<nu> "range_max other" z v] by (fastforce simp: in_range_def)
    ultimately show ?thesis using 1 ok by (simp add: in_range_def r_ok_def)
  next
    case 2
    have "lower_ok \<nu> (range_min other) v"
      using v z lo up 2 lower_ok_mono [of \<nu> "range_min other" z v] by (fastforce simp: in_range_def)
    moreover have "upper_ok \<nu> (range_max rng) v"
      using v w lo up 2 upper_ok_mono [of \<nu> "range_max rng" w v] by (fastforce simp: in_range_def)
    ultimately show ?thesis using 2 ok by (simp add: in_range_def r_ok_def)
  next
    case 3
    then show ?thesis
      using JoinMin_sound [OF 3(1) C _ _ _ _ v(2)] JoinMax_sound [OF 3(2) C _ _ _ _ v(2)] okD fits v(1)
      by (auto simp: in_range_def r_ok_def r_fits_def)
  qed
qed

text \<open>An executed input of a phi, or one that is not executed and whose range is inhabited.\<close>

lemma Join_value:
  assumes J: "Join g rng d (Some dr) sz = Some res" and C: "consistent g \<nu>"
    and known: "\<not> Range_IsUnknown (Some dr)" "\<not> Range_IsUnknown (Some rng)"
    and ok: "r_ok \<nu> rng" "r_ok \<nu> dr" and fits: "r_fits \<nu> sz rng" "r_fits \<nu> sz dr"
    and inh: "inhabited \<nu> sz rng"
    and d: "smi_value \<nu> d" "in_range \<nu> dr (val \<nu> d)" "in_size sz (val \<nu> d)"
    and v: "in_range \<nu> rng v \<or> v = val \<nu> d" "in_size sz v"
  shows "in_range \<nu> res v \<and> r_ok \<nu> res"
proof -
  obtain other il io sl so where o: "join_other g rng d dr = Some other"
    and b: "LowerBound_sz g (range_min rng) sz = Some il" "LowerBound_sz g (range_min other) sz = Some io"
      "UpperBound_sz g (range_max rng) sz = Some sl" "UpperBound_sz g (range_max other) sz = Some so"
    and res: "(sl \<le> io \<and> res = rng\<lparr>range_max := range_max other\<rparr>) \<or>
      (so \<le> il \<and> res = rng\<lparr>range_min := range_min other\<rparr>) \<or>
      (\<exists>mn mx. JoinMin g (range_min rng) (range_min other) sz = Some mn \<and>
        JoinMax g (range_max rng) (range_max other) sz = Some mx \<and> res = \<lparr>range_min = mn, range_max = mx\<rparr>)"
    by (rule Join_cases [OF J known])
  from o consider "other = dr"
    | c e where "FromDefinition g d 0 = Some c" "FromDefinition g d 0 = Some e" "other = \<lparr>range_min = c, range_max = e\<rparr>"
    by (auto simp: join_other_def Range_def split: if_splits)
  then have "r_ok \<nu> other \<and> r_fits \<nu> sz other \<and> in_range \<nu> other (val \<nu> d)"
  proof cases
    case 1
    then show ?thesis using ok fits d by simp
  next
    case 2
    have m: "means \<nu> c (val \<nu> d)" using FromDefinition_means [OF 2(1) C _ d(1)] by simp
    then have "sym_fits \<nu> sz c" using d(3) by (auto simp: means_def)
    with m 2 show ?thesis by (auto simp: r_ok_def r_fits_def in_range_def means_simps)
  qed
  with join_ranges_value [OF C b res ok(1) _ fits(1) _ inh _ _ v(2)] d(3) v(1)
  show ?thesis unfolding inhabited_def by blast
qed

subsection \<open>Widening and narrowing\<close>

lemma ConstantMin_Some: "ConstantMin g (Some r) sz = Some b \<Longrightarrow> ConstantValue b = Some i \<Longrightarrow>
    b = kConstant i \<and> LowerBound_sz g (range_min r) sz = Some i"
  by (cases b) (auto simp: ConstantMin_def LowerBound_sz_def)

lemma ConstantMax_Some: "ConstantMax g (Some r) sz = Some b \<Longrightarrow> ConstantValue b = Some i \<Longrightarrow>
    b = kConstant i \<and> UpperBound_sz g (range_max r) sz = Some i"
  by (cases b) (auto simp: ConstantMax_def UpperBound_sz_def)

lemma WidenMin_value:
  assumes W: "WidenMin g old new sz = Some b" and C: "consistent g \<nu>"
    and ok: "b_ok \<nu> (range_min old)" "b_ok \<nu> (range_min new)"
    and fits: "sym_fits \<nu> sz (range_min old)" "in_size sz v"
    and v: "lower_ok \<nu> (range_min old) v \<or> lower_ok \<nu> (range_min new) v"
  shows "lower_ok \<nu> b v \<and> b_ok \<nu> b"
proof -
  consider (min) "b = MinConstant sz"
    | (same) "b = range_min old" "DependOnSameSymbol g (range_min old) (range_min new) = Some True"
        "offset (range_min old) \<le> offset (range_min new)"
    | (below) u l where "b = range_min old" "IsSymbol b" "UpperBound_sz g (range_min old) sz = Some u"
        "LowerBound_sz g (range_min new) sz = Some l" "u \<le> l"
    | (const) c d i j where "ConstantMin g (Some old) sz = Some c" "ConstantMin g (Some new) sz = Some d"
        "ConstantValue c = Some i" "ConstantValue d = Some j" "i \<le> j" "b = c"
    using W unfolding WidenMin_def Let_def by (auto split: if_splits option.splits)
  then show ?thesis
  proof cases
    case min
    then show ?thesis using fits(2) by (simp add: rb_simps in_size_def)
  next
    case same
    then show ?thesis using v ok by (auto elim!: DependOnSameSymbol_value [OF _ C ok])
  next
    case below
    then obtain s off where s: "range_min old = kSymbol s off"
      by (auto simp: IsSymbol_def split: range_boundary.splits)
    have "val \<nu> s + off \<le> u"
      by (rule UpperBound_sz_sound [OF below(3) C ok(1)]) (use s fits(1) in \<open>auto simp: in_size_def\<close>)
    moreover have "lower_ok \<nu> (range_min new) v \<Longrightarrow> l \<le> v"
      by (rule LowerBound_sz_sound [OF below(4) C ok(2)]) (use fits(2) in \<open>auto simp: in_size_def\<close>)
    ultimately show ?thesis using below s v ok by auto
  next
    case const
    note c = ConstantMin_Some [OF const(1,3)] ConstantMin_Some [OF const(2,4)]
    have "lower_ok \<nu> (range_min old) v \<Longrightarrow> i \<le> v" "lower_ok \<nu> (range_min new) v \<Longrightarrow> j \<le> v"
      using LowerBound_sz_sound [OF _ C ok(1), of sz i v] LowerBound_sz_sound [OF _ C ok(2), of sz j v] c fits(2)
      by (auto simp: in_size_def)
    then show ?thesis
      using const c v in_size_in64 [OF LowerBound_sz_in64, of g "range_min old" sz i] by auto
  qed
qed

lemma WidenMax_value:
  assumes W: "WidenMax g old new sz = Some b" and C: "consistent g \<nu>"
    and ok: "b_ok \<nu> (range_max old)" "b_ok \<nu> (range_max new)"
    and fits: "sym_fits \<nu> sz (range_max old)" "in_size sz v"
    and v: "upper_ok \<nu> (range_max old) v \<or> upper_ok \<nu> (range_max new) v"
  shows "upper_ok \<nu> b v \<and> b_ok \<nu> b"
proof -
  consider (max) "b = MaxConstant sz"
    | (same) "b = range_max old" "DependOnSameSymbol g (range_max old) (range_max new) = Some True"
        "offset (range_max old) \<ge> offset (range_max new)"
    | (above) u l where "b = range_max old" "IsSymbol b" "LowerBound_sz g (range_max old) sz = Some l"
        "UpperBound_sz g (range_max new) sz = Some u" "u \<le> l"
    | (const) c d i j where "ConstantMax g (Some old) sz = Some c" "ConstantMax g (Some new) sz = Some d"
        "ConstantValue c = Some i" "ConstantValue d = Some j" "i \<ge> j" "b = c"
    using W unfolding WidenMax_def Let_def by (auto split: if_splits option.splits)
  then show ?thesis
  proof cases
    case max
    then show ?thesis using fits(2) by (simp add: rb_simps in_size_def)
  next
    case same
    then show ?thesis using v ok by (auto elim!: DependOnSameSymbol_value [OF _ C ok])
  next
    case above
    then obtain s off where s: "range_max old = kSymbol s off"
      by (auto simp: IsSymbol_def split: range_boundary.splits)
    have "l \<le> val \<nu> s + off"
      by (rule LowerBound_sz_sound [OF above(3) C ok(1)]) (use s fits(1) in \<open>auto simp: in_size_def\<close>)
    moreover have "upper_ok \<nu> (range_max new) v \<Longrightarrow> v \<le> u"
      by (rule UpperBound_sz_sound [OF above(4) C ok(2)]) (use fits(2) in \<open>auto simp: in_size_def\<close>)
    ultimately show ?thesis using above s v ok by auto
  next
    case const
    note c = ConstantMax_Some [OF const(1,3)] ConstantMax_Some [OF const(2,4)]
    have "upper_ok \<nu> (range_max old) v \<Longrightarrow> v \<le> i" "upper_ok \<nu> (range_max new) v \<Longrightarrow> v \<le> j"
      using UpperBound_sz_sound [OF _ C ok(1), of sz i v] UpperBound_sz_sound [OF _ C ok(2), of sz j v] c fits(2)
      by (auto simp: in_size_def)
    then show ?thesis
      using const c v in_size_in64 [OF UpperBound_sz_in64, of g "range_max old" sz i] by auto
  qed
qed

lemma apply_join_value:
  assumes A: "apply_join op g old new sz = Some res" and C: "consistent g \<nu>"
    and ok: "r_ok \<nu> old" "r_ok \<nu> new" and fits: "r_fits \<nu> sz old" "in_size sz v"
    and v: "in_range \<nu> new v" "op = NARROW \<Longrightarrow> in_range \<nu> old v"
  shows "in_range \<nu> res v \<and> r_ok \<nu> res"
proof (cases op)
  case NONE
  then show ?thesis using A ok v by simp
next
  case WIDEN
  then obtain mn mx where "WidenMin g old new sz = Some mn" "WidenMax g old new sz = Some mx"
    "res = \<lparr>range_min = mn, range_max = mx\<rparr>"
    using A by (auto simp: Range_def)
  with WidenMin_value [OF _ C] WidenMax_value [OF _ C] ok fits v(1) show ?thesis
    by (auto simp: r_ok_def r_fits_def in_range_def)
next
  case NARROW
  then show ?thesis
    using A ok v by (auto simp: Range_def NarrowMin_def NarrowMax_def r_ok_def in_range_def)
qed

subsection \<open>Redundant bounds checks\<close>

lemma bounds_loop_value:
  "bounds_loop g mx cl = Some res \<Longrightarrow> res \<Longrightarrow> consistent g \<nu> \<Longrightarrow> b_ok \<nu> mx \<Longrightarrow> b_ok \<nu> cl \<Longrightarrow>
     upper_ok \<nu> mx i \<Longrightarrow> lower_ok \<nu> cl len \<Longrightarrow> i < len"
proof (induction g mx cl res rule: bounds_loop.raw_induct [rotated, consumes 1, case_names step])
  case (step f g mx cl res)
  from step.hyps obtain same where same: "DependOnSameSymbol g mx cl = Some same" by auto
  show ?case
  proof (cases same)
    case True
    with same step show ?thesis by (auto elim!: DependOnSameSymbol_value [OF _ step.prems(2-4)])
  next
    case False
    with step.hyps step.prems(1) same consider
        mx' where "CanonicalizeMaxBoundary g mx = Some (Some mx')" "f g mx' cl = Some res"
      | cl' where "CanonicalizeMinBoundary g cl = Some (Some cl')" "f g mx cl' = Some res"
      by (auto split: option.splits)
    then show ?thesis
    proof cases
      case 1
      from step.IH [OF 1(2)] CanonicalizeMaxBoundary_sound [OF 1(1) step.prems(2,3)] step.prems
      show ?thesis by blast
    next
      case 2
      from step.IH [OF 2(2)] CanonicalizeMinBoundary_sound [OF 2(1) step.prems(2,4)] step.prems
      show ?thesis by blast
    qed
  qed
qed

lemma check_bounds_value:
  assumes K: "check_bounds g i r b = Some True" and C: "consistent g \<nu>" and i: "smi_value \<nu> i"
    and r: "b_ok \<nu> (range_min r)" "lower_ok \<nu> (range_min r) (val \<nu> i)" and len: "means \<nu> b len"
  shows "0 \<le> val \<nu> i \<and> val \<nu> i < len"
proof -
  from K obtain mn c mx mu ll u l where
      mn: "LowerBound_sz g (range_min r) kRangeBoundarySmi = Some mn" "0 \<le> mn"
    and c: "FromDefinition g i 0 = Some c" "CanonicalizeBoundary g c kPositiveInfinity = Some mx"
      "\<not> OverflowedSmi mx"
    and u: "UpperBound g mx = Some mu" "LowerBound g b = Some ll" "ConstantValue mu = Some u"
      "ConstantValue ll = Some l"
    and disj: "u < l \<or> (\<exists>cl. CanonicalizeBoundary g b kPositiveInfinity = Some cl \<and>
      \<not> OverflowedSmi cl \<and> bounds_loop g mx cl = Some True)"
    unfolding check_bounds_def by (auto split: if_splits)
  have mc: "means \<nu> c (val \<nu> i)" using FromDefinition_means [OF c(1) C _ i] by simp
  have mx: "means \<nu> mx (val \<nu> i)" using CanonicalizeBoundary_means [OF c(2) C mc] c(3) by auto
  have "mn \<le> val \<nu> i"
    by (rule LowerBound_sz_sound [OF mn(1) C r])
      (use i in \<open>auto simp: smi_def dest: smi_valueD(2)\<close>)
  moreover have "val \<nu> i < len"
    using disj
  proof
    assume "u < l"
    moreover have "mu = kConstant u" "ll = kConstant l" using u(3,4) by (cases mu; cases ll; simp)+
    moreover have "upper_ok \<nu> mu (val \<nu> i)"
      using UpperBound_sound [OF u(1) C means_simps(1) [OF mx]] means_simps(3) [OF mx] by simp
    moreover have "lower_ok \<nu> ll len"
      using LowerBound_sound [OF u(2) C means_simps(1) [OF len]] means_simps(2) [OF len] by simp
    ultimately show ?thesis by simp
  next
    assume "\<exists>cl. CanonicalizeBoundary g b kPositiveInfinity = Some cl \<and>
      \<not> OverflowedSmi cl \<and> bounds_loop g mx cl = Some True"
    then obtain cl where cl: "CanonicalizeBoundary g b kPositiveInfinity = Some cl"
      "\<not> OverflowedSmi cl" "bounds_loop g mx cl = Some True" by blast
    then have "means \<nu> cl len" using CanonicalizeBoundary_means [OF cl(1) C len] by auto
    with bounds_loop_value [OF cl(3) _ C] mx show ?thesis by (simp add: means_simps)
  qed
  ultimately show ?thesis using mn(2) by simp
qed

subsection \<open>Recording a range\<close>

text \<open>Graphs that differ at most in the ranges and overflow flags of their definitions.\<close>

definition same_code :: "flow_graph \<Rightarrow> flow_graph \<Rightarrow> bool" where
  "same_code g h \<longleftrightarrow> instr_equals g = instr_equals h \<and> dominates g = dominates h \<and>
     (\<forall>d. (defs g d)\<lparr>defn_range := None, can_overflow := False\<rparr> =
          (defs h d)\<lparr>defn_range := None, can_overflow := False\<rparr>)"

lemma same_code_refl: "same_code g g"
  by (simp add: same_code_def)

lemma same_code_trans: "same_code g h \<Longrightarrow> same_code h k \<Longrightarrow> same_code g k"
  by (simp add: same_code_def)

lemma same_code_fields:
  assumes "same_code g h"
  shows "instr_of g d = instr_of h d" "type_cid (defs g d) = type_cid (defs h d)"
    "type_is_int (defs g d) = type_is_int (defs h d)" "is_truncating (defs g d) = is_truncating (defs h d)"
    "defn_representation (defs g d) = defn_representation (defs h d)"
    "allows_CSE (defs g d) = allows_CSE (defs h d)" "no_dependencies (defs g d) = no_dependencies (defs h d)"
proof -
  have *: "(defs g d)\<lparr>defn_range := None, can_overflow := False\<rparr> =
      (defs h d)\<lparr>defn_range := None, can_overflow := False\<rparr>"
    using assms by (simp add: same_code_def)
  show "instr_of g d = instr_of h d" using arg_cong [OF *, of instr] by simp
  show "type_cid (defs g d) = type_cid (defs h d)" using arg_cong [OF *, of type_cid] by simp
  show "type_is_int (defs g d) = type_is_int (defs h d)" using arg_cong [OF *, of type_is_int] by simp
  show "is_truncating (defs g d) = is_truncating (defs h d)" using arg_cong [OF *, of is_truncating] by simp
  show "defn_representation (defs g d) = defn_representation (defs h d)"
    using arg_cong [OF *, of defn_representation] by simp
  show "allows_CSE (defs g d) = allows_CSE (defs h d)" using arg_cong [OF *, of allows_CSE] by simp
  show "no_dependencies (defs g d) = no_dependencies (defs h d)" using arg_cong [OF *, of no_dependencies] by simp
qed

lemma same_code_update:
  "same_code (set_range g d r) g" "same_code (set_defn g d ((defs g d)\<lparr>can_overflow := f\<rparr>)) g"
  by (simp_all add: same_code_def set_range_def set_defn_def)

lemma consistent_transfer:
  assumes "consistent g \<nu>" "same_code h g" "ranges_hold h \<nu>"
  shows "consistent h \<nu>"
  using assms same_code_fields [OF assms(2)]
  by (simp add: consistent_def instrs_hold_def cse_holds_def same_code_def)

lemma consistent_set_range:
  assumes "consistent g \<nu>" "d \<in> executed \<nu> \<Longrightarrow> in_range \<nu> r (val \<nu> d) \<and> r_ok \<nu> r"
  shows "consistent (set_range g d r) \<nu>"
proof (rule consistent_transfer [OF assms(1) same_code_update(1)])
  show "ranges_hold (set_range g d r) \<nu>"
    using assms by (auto simp: consistent_def ranges_hold_def set_range_def set_defn_def in_range_def)
qed

lemma consistent_set_can_overflow:
  assumes "consistent g \<nu>"
  shows "consistent (set_defn g d ((defs g d)\<lparr>can_overflow := f\<rparr>)) \<nu>"
proof (rule consistent_transfer [OF assms same_code_update(2)])
  show "ranges_hold (set_defn g d ((defs g d)\<lparr>can_overflow := f\<rparr>)) \<nu>"
    using assms by (simp add: consistent_def ranges_hold_def set_defn_def)
qed

lemma IsRedundant_value:
  assumes K: "IsRedundant g i b = Some (g', True)" and C: "consistent g \<nu>" and i: "smi_value \<nu> i"
    and len: "means \<nu> b len"
  shows "0 \<le> val \<nu> i \<and> val \<nu> i < len"
proof (cases "range_of g i")
  case (Some r)
  then have k: "check_bounds g i r b = Some True" using K by (auto simp: IsRedundant_def)
  note cr = consistent_range [OF C Some smi_valueD(1) [OF i]]
  have "range_min r \<noteq> kUnknown" using k by (auto simp: check_bounds_def LowerBound_sz_def)
  with check_bounds_value [OF k C i] cr len show ?thesis by simp
next
  case None
  then obtain k where k: "instr_of g i = ConstantInstr (SmiValue k)"
      "check_bounds (set_range g i (ConstantRange k k)) i (ConstantRange k k) b = Some True"
    using K by (auto simp: IsRedundant_def InferRange_def pure_range_def Let_def
        split: instruction.splits const_value.splits)
  have v: "val \<nu> i = k" "smi k" using consistent_instr(2) [OF C smi_valueD(1) [OF i] k(1)] by auto
  have "consistent (set_range g i (ConstantRange k k)) \<nu>"
    by (rule consistent_set_range [OF C]) (use v smi_in64 in auto)
  from check_bounds_value [OF k(2) this i _ _ len] v smi_in64 [of k] show ?thesis
    by (simp add: ConstantRange_def)
qed

subsection \<open>Every instruction\<close>

text \<open>
  What the execution of an instruction other than a phi guarantees of its value. Operations are
  not truncating: an operation that overflows its representation deoptimizes and its result does
  not exist. The input of an unsigned unboxing, which keeps the low 32 bits, is at most
  \<open>kMaxUint32\<close>: beyond it the copied range would be wrong.
\<close>

definition types_hold :: "defn \<Rightarrow> int \<Rightarrow> bool" where
  "types_hold x v \<longleftrightarrow> (type_cid x = kSmiCid \<longrightarrow> smi v) \<and> (IsMintDefinition x \<longrightarrow> in64 v) \<and>
     (IsInt32Definition x \<longrightarrow> in_size kRangeBoundaryInt32 v) \<and> (type_is_int x \<longrightarrow> in64 v)"

definition signed_bits :: "nat \<Rightarrow> int \<Rightarrow> bool" where
  "signed_bits n v \<longleftrightarrow> - (2 ^ (n - 1)) \<le> v \<and> v < 2 ^ (n - 1)"

definition unsigned_bits :: "nat \<Rightarrow> int \<Rightarrow> bool" where
  "unsigned_bits n v \<longleftrightarrow> 0 \<le> v \<and> v < 2 ^ n"

fun element_sem :: "cid \<Rightarrow> int \<Rightarrow> bool" where
  "element_sem kTypedDataInt8ArrayCid v = signed_bits 8 v"
| "element_sem kTypedDataUint8ArrayCid v = unsigned_bits 8 v"
| "element_sem kTypedDataUint8ClampedArrayCid v = unsigned_bits 8 v"
| "element_sem kExternalTypedDataUint8ArrayCid v = unsigned_bits 8 v"
| "element_sem kExternalTypedDataUint8ClampedArrayCid v = unsigned_bits 8 v"
| "element_sem kTypedDataInt16ArrayCid v = signed_bits 16 v"
| "element_sem kTypedDataUint16ArrayCid v = unsigned_bits 16 v"
| "element_sem kTypedDataInt32ArrayCid v = signed_bits 32 v"
| "element_sem kTypedDataUint32ArrayCid v = unsigned_bits 32 v"
| "element_sem kOneByteStringCid v = unsigned_bits 8 v"
| "element_sem kTwoByteStringCid v = unsigned_bits 16 v"
| "element_sem c v = True"

fun length_sem :: "recognized_kind \<Rightarrow> int \<Rightarrow> bool" where
  "length_sem kObjectArrayLength v = (0 \<le> v \<and> v * 8 \<le> kSmiMax)"
| "length_sem kImmutableArrayLength v = (0 \<le> v \<and> v * 8 \<le> kSmiMax)"
| "length_sem kTypedDataLength v = (0 \<le> v \<and> smi v)"
| "length_sem kStringBaseLength v = (0 \<le> v \<and> v * 2 \<le> kSmiMax)"
| "length_sem kOtherField v = True"

definition binary_sem :: "execution \<Rightarrow> defn \<Rightarrow> token_kind \<Rightarrow> defn_id \<Rightarrow> defn_id \<Rightarrow> int \<Rightarrow> bool" where
  "binary_sem \<nu> x op l r v \<longleftrightarrow> tracked_op op \<and> count_ok op (val \<nu> r) \<and> \<not> is_truncating x \<and>
     v = sem_op op (val \<nu> l) (val \<nu> r) \<and>
     (\<exists>sz. RepresentationToRangeSize (defn_representation x) = Some sz \<and> in_size sz v)"

definition mint_inputs :: "flow_graph \<Rightarrow> execution \<Rightarrow> defn_id \<Rightarrow> defn_id \<Rightarrow> bool" where
  "mint_inputs g \<nu> l r \<longleftrightarrow> l \<in> executed \<nu> \<and> r \<in> executed \<nu> \<and> in64 (val \<nu> l) \<and> in64 (val \<nu> r) \<and>
     (IsArrayLength g (Some l) = Some True \<longrightarrow> smi (val \<nu> l))"

fun instr_sem :: "flow_graph \<Rightarrow> execution \<Rightarrow> defn \<Rightarrow> instruction \<Rightarrow> int \<Rightarrow> bool" where
  "instr_sem g \<nu> x (ConstantInstr (SmiValue c)) v \<longleftrightarrow> v = c \<and> smi c"
| "instr_sem g \<nu> x (ConstantInstr (MintValue c)) v \<longleftrightarrow> v = c \<and> in64 c"
| "instr_sem g \<nu> x (ConstraintInstr w c) v \<longleftrightarrow> smi_value \<nu> w \<and> v = val \<nu> w \<and> r_ok \<nu> c \<and> in_range \<nu> c v"
| "instr_sem g \<nu> x (BinarySmiOpInstr op l r) v \<longleftrightarrow> smi_value \<nu> l \<and> smi_value \<nu> r \<and> binary_sem \<nu> x op l r v"
| "instr_sem g \<nu> x (BinaryInt32OpInstr op l r) v \<longleftrightarrow> smi_value \<nu> l \<and> smi_value \<nu> r \<and> binary_sem \<nu> x op l r v"
| "instr_sem g \<nu> x (BinaryMintOpInstr op l r) v \<longleftrightarrow> mint_inputs g \<nu> l r \<and> binary_sem \<nu> x op l r v"
| "instr_sem g \<nu> x (ShiftMintOpInstr op l r) v \<longleftrightarrow> mint_inputs g \<nu> l r \<and> binary_sem \<nu> x op l r v"
| "instr_sem g \<nu> x (LoadFieldInstr k) v \<longleftrightarrow> length_sem k v"
| "instr_sem g \<nu> x (LoadIndexedInstr c) v \<longleftrightarrow> element_sem c v"
| "instr_sem g \<nu> x (LoadCodeUnitsInstr c) v \<longleftrightarrow> unsigned_bits 32 v"
| "instr_sem g \<nu> x (IfThenElseInstr t f) v \<longleftrightarrow> (v = t \<or> v = f) \<and> in64 t \<and> in64 f"
| "instr_sem g \<nu> x (BoxInt64Instr w) v \<longleftrightarrow> w \<in> executed \<nu> \<and> v = val \<nu> w"
| "instr_sem g \<nu> x (BoxInt32Instr w) v \<longleftrightarrow> w \<in> executed \<nu> \<and> v = val \<nu> w"
| "instr_sem g \<nu> x (BoxUint32Instr w) v \<longleftrightarrow> w \<in> executed \<nu> \<and> v = val \<nu> w"
| "instr_sem g \<nu> x (UnboxInt32Instr w c) v \<longleftrightarrow> w \<in> executed \<nu> \<and> v = val \<nu> w \<and> in_size kRangeBoundaryInt32 v"
| "instr_sem g \<nu> x (UnboxUint32Instr w c) v \<longleftrightarrow> w \<in> executed \<nu> \<and> v = val \<nu> w mod 2 ^ 32 \<and> in64 (val \<nu> w) \<and>
     (c = kSmiCid \<longrightarrow> smi (val \<nu> w)) \<and> val \<nu> w \<le> kMaxUint32"
| "instr_sem g \<nu> x (UnboxInt64Instr w) v \<longleftrightarrow> w \<in> executed \<nu> \<and> v = val \<nu> w \<and> in64 v"
| "instr_sem g \<nu> x (UnboxedIntConverterInstr from to w) v \<longleftrightarrow> w \<in> executed \<nu> \<and>
     (if to = kUnboxedUint32 then v = val \<nu> w mod 2 ^ 32 else v = val \<nu> w) \<and>
     (to = kUnboxedInt32 \<longrightarrow> in_size kRangeBoundaryInt32 v)"
| "instr_sem g \<nu> x i v \<longleftrightarrow> True"

definition defn_sem :: "flow_graph \<Rightarrow> execution \<Rightarrow> defn_id \<Rightarrow> bool" where
  "defn_sem g \<nu> d \<longleftrightarrow> types_hold (defs g d) (val \<nu> d) \<and> instr_sem g \<nu> (defs g d) (instr_of g d) (val \<nu> d)"

abbreviation holds :: "execution \<Rightarrow> range \<Rightarrow> int \<Rightarrow> bool" where
  "holds \<nu> r v \<equiv> (\<not> Range_IsUnknown (Some r) \<longrightarrow> in_range \<nu> r v \<and> r_ok \<nu> r)"

lemma IsUnknown_simps [simp]:
  "Range_IsUnknown None" "Range_IsUnknown (Some UnknownRange)" "\<not> Range_IsUnknown (Some (Full sz))"
  "\<not> Range_IsUnknown (Some (ConstantRange a b))"
  by (simp_all add: Range_IsUnknown_def UnknownRange_def Full_def ConstantRange_def rb_simps)

text \<open>The ranges of the model come from \<open>Range\<close>, whose constructor makes both ends unknown together.\<close>

definition paired :: "flow_graph \<Rightarrow> bool" where
  "paired g \<longleftrightarrow> (\<forall>d r. range_of g d = Some r \<longrightarrow> (range_min r = kUnknown) = (range_max r = kUnknown))"

lemma input_range:
  assumes "consistent g \<nu>" "paired g" "d \<in> executed \<nu>" "range_of g d = Some r"
  shows "holds \<nu> r (val \<nu> d)"
  using assms(2,4) consistent_range [OF assms(1,4,3)]
  by (auto simp: Range_IsUnknown_def in_range_def r_ok_def paired_def)

lemma GetSmiRange_value:
  assumes "consistent g \<nu>" "paired g" "smi_value \<nu> d" "GetSmiRange g d = Some r"
  shows "holds \<nu> r (val \<nu> d)"
  using input_range [OF assms(1,2) smi_valueD(1) [OF assms(3)]] assms(4) smi_valueD(2) [OF assms(3)]
  by (auto simp: GetSmiRange_def Full_value smi_in_size split: if_splits)

lemma GetIntRange_value:
  assumes "consistent g \<nu>" "paired g" "d \<in> executed \<nu>" "in64 (val \<nu> d)" "GetIntRange g d = Some r"
  shows "holds \<nu> r (val \<nu> d)"
  using input_range [OF assms(1-3)] assms(4,5)
  by (auto simp: GetIntRange_def Full_value in64_in_size split: if_splits)

lemma copy_range_value: "(\<And>q. r = Some q \<Longrightarrow> holds \<nu> q v) \<Longrightarrow> holds \<nu> (copy_range r) v"
  by (auto simp: copy_range_def split: option.splits)

lemma BoxInteger_value:
  assumes "consistent g \<nu>" "paired g" "w \<in> executed \<nu>"
  shows "holds \<nu> (BoxInteger_InferRange g w) (val \<nu> w)"
  unfolding BoxInteger_InferRange_def by (rule copy_range_value) (rule input_range [OF assms])

lemma UnboxInt32_value:
  assumes "consistent g \<nu>" "paired g" "w \<in> executed \<nu>" "in_size kRangeBoundaryInt32 (val \<nu> w)"
  shows "holds \<nu> (UnboxInt32_InferRange g w c) (val \<nu> w)"
proof -
  have s: "smi_value \<nu> w" "in64 (val \<nu> w)"
    using assms(3,4) by (auto simp: smi_value_def smi_def in_size_def in64_def konst)
  have "holds \<nu> (copy_range (GetSmiRange g w)) (val \<nu> w)"
    by (rule copy_range_value) (rule GetSmiRange_value [OF assms(1,2) s(1)])
  moreover have "holds \<nu> (copy_range (GetIntRange g w)) (val \<nu> w)"
    by (rule copy_range_value) (rule GetIntRange_value [OF assms(1-3) s(2)])
  ultimately show ?thesis using Full_value assms(4) by (simp add: UnboxInt32_InferRange_def)
qed

lemma Definition_InferRange_value:
  assumes "Definition_InferRange x = Some r" "types_hold x v"
  shows "in_range \<nu> r v \<and> r_ok \<nu> r"
  using assms
  by (auto simp: Definition_InferRange_def types_hold_def Full_value smi_in_size in64_in_size split: if_splits)

lemma LoadIndexed_value:
  assumes "LoadIndexed_InferRange c x = Some r" "element_sem c v" "types_hold x v"
  shows "in_range \<nu> r v \<and> r_ok \<nu> r"
  using assms Definition_InferRange_value [of x r v]
  by (cases c) (auto simp: signed_bits_def unsigned_bits_def in64_def konst)

lemma LoadField_value:
  assumes "LoadField_InferRange k x = Some r" "length_sem k v" "types_hold x v"
  shows "in_range \<nu> r v \<and> r_ok \<nu> r"
  using assms Definition_InferRange_value [of x r v]
  by (cases k) (auto simp: smi_def in64_def konst)

lemma LoadCodeUnits_value:
  assumes "LoadCodeUnits_InferRange c = Some r" "unsigned_bits 32 v"
  shows "in_range \<nu> r v \<and> r_ok \<nu> r"
  using assms by (cases c) (auto simp: unsigned_bits_def in64_def konst)

lemma UnboxUint32_value:
  assumes "UnboxUint32_InferRange g w c = Some r" "consistent g \<nu>" "paired g" "w \<in> executed \<nu>"
    "in64 (val \<nu> w)" "c = kSmiCid \<longrightarrow> smi (val \<nu> w)" "val \<nu> w \<le> kMaxUint32"
  shows "holds \<nu> r (val \<nu> w mod 2 ^ 32)"
proof -
  have full: "in_range \<nu> (ConstantRange 0 kMaxUint32) (val \<nu> w mod 2 ^ 32) \<and> r_ok \<nu> (ConstantRange 0 kMaxUint32)"
    by (simp add: in64_def konst)
  have sv: "c = kSmiCid \<Longrightarrow> smi_value \<nu> w" using assms(4,6) by (simp add: smi_value_def)
  consider "r = UnknownRange" | "r = ConstantRange 0 kMaxUint32"
    | "IsPositive g r = Some True" "\<not> Range_IsUnknown (Some r)"
        "(if c = kSmiCid then GetSmiRange g w else GetIntRange g w) = Some r"
    using assms(1) by (auto simp: UnboxUint32_InferRange_def split: if_splits option.splits)
  then show ?thesis
  proof cases
    case 3
    have h: "in_range \<nu> r (val \<nu> w) \<and> r_ok \<nu> r"
      using 3(2,3) GetSmiRange_value [OF assms(2,3) sv] GetIntRange_value [OF assms(2-5)] by (auto split: if_splits)
    then have "0 \<le> val \<nu> w"
      using OnlyGreaterThanOrEqualTo_sound [OF _ assms(2)] 3(1) by (auto simp: IsPositive_def)
    then have "val \<nu> w mod 2 ^ 32 = val \<nu> w" using assms(7) by (simp add: konst)
    then show ?thesis using h by simp
  qed (use full in auto)
qed

lemma UnboxedIntConverter_value:
  assumes "UnboxedIntConverter_InferRange g from to w = Some r" "consistent g \<nu>" "paired g" "w \<in> executed \<nu>"
    "if to = kUnboxedUint32 then v = val \<nu> w mod 2 ^ 32 else v = val \<nu> w"
    "to = kUnboxedInt32 \<longrightarrow> in_size kRangeBoundaryInt32 v"
  shows "holds \<nu> r v"
proof -
  have full: "in_range \<nu> (ConstantRange 0 kMaxUint32) (val \<nu> w mod 2 ^ 32) \<and> r_ok \<nu> (ConstantRange 0 kMaxUint32)"
    by (simp add: in64_def konst)
  show ?thesis
    using assms(1,5,6) full input_range [OF assms(2-4)] Range_Clamp_value [of \<nu> _ v kRangeBoundaryInt32]
    by (auto simp: UnboxedIntConverter_InferRange_def split: option.splits if_splits)
qed

lemma ConstraintInstr_value:
  assumes "ConstraintInstr_InferRange g w c = Some r" "consistent g \<nu>" "paired g" "smi_value \<nu> w"
    "r_ok \<nu> c" "in_range \<nu> c (val \<nu> w)"
  shows "holds \<nu> r (val \<nu> w)"
  using assms(1) GetSmiRange_value [OF assms(2-4)] Intersect_value [OF _ assms(2) _ assms(5) _ assms(6)]
  by (fastforce simp: ConstraintInstr_InferRange_def split: option.splits if_splits)

lemma InferRangeHelper_graph:
  assumes "InferRangeHelper g d op l lr rr = Some (g', r)"
  shows "g' = g \<or> (\<exists>f. g' = set_defn g d ((defs g d)\<lparr>can_overflow := f\<rparr>))"
  using assms
  by (cases lr; cases rr) (auto simp: InferRangeHelper_def set_can_overflow_def split: if_splits)

lemma binary_value:
  assumes H: "InferRangeHelper g d op l lr rr = Some (g', r)" and C: "consistent g \<nu>"
    and B: "binary_sem \<nu> (defs g d) op l rd v"
    and L: "\<And>q. lr = Some q \<Longrightarrow> holds \<nu> q (val \<nu> l)" "in64 (val \<nu> l)"
    and R: "\<And>q. rr = Some q \<Longrightarrow> holds \<nu> q (val \<nu> rd)" "in64 (val \<nu> rd)"
    and D: "l \<in> executed \<nu>" "IsArrayLength g (Some l) = Some True \<longrightarrow> smi (val \<nu> l)"
  shows "holds \<nu> r v \<and> (g' = g \<or> (\<exists>f. g' = set_defn g d ((defs g d)\<lparr>can_overflow := f\<rparr>)))"
proof (cases "Range_IsUnknown (Some r)")
  case False
  obtain sz where b: "tracked_op op" "count_ok op (val \<nu> rd)" "\<not> is_truncating (defs g d)"
      "v = sem_op op (val \<nu> l) (val \<nu> rd)" "RepresentationToRangeSize (defn_representation (defs g d)) = Some sz"
      "in_size sz v"
    using B by (auto simp: binary_sem_def)
  have "left_defn_ok g \<nu> (Some l) (val \<nu> l)" using D by (simp add: left_defn_ok_def smi_value_def)
  with InferRangeHelper_value(2,3) [OF H False C b(1-3) _ _ _ b(5), of "val \<nu> l"] b(4,6) L R
  show ?thesis by (auto simp: operand_def)
next
  case True
  with InferRangeHelper_graph [OF H] show ?thesis by simp
qed

lemma InferRange_value:
  assumes I: "InferRange g d = Some (g', r)" and C: "consistent g \<nu>" and P: "paired g"
    and S: "defn_sem g \<nu> d" and phi: "\<not> IsPhi g d"
  shows "holds \<nu> r (val \<nu> d) \<and> (g' = g \<or> (\<exists>f. g' = set_defn g d ((defs g d)\<lparr>can_overflow := f\<rparr>)))"
proof -
  note T = S [unfolded defn_sem_def, THEN conjunct1] and V = S [unfolded defn_sem_def, THEN conjunct2]
  note ir = input_range [OF C P] and sr = GetSmiRange_value [OF C P] and gr = GetIntRange_value [OF C P]
  note E = I [unfolded InferRange_def]
  show ?thesis
  proof (cases "instr_of g d")
    case (ConstantInstr c)
    then show ?thesis using E V by (cases c) (auto simp: pure_range_def smi_in64)
  next
    case (ConstraintInstr w c)
    then show ?thesis using E V ConstraintInstr_value [OF _ C P] by (auto simp: pure_range_def)
  next
    case (BinarySmiOpInstr op l rd)
    then have "InferRangeHelper g d op l (GetSmiRange g l) (GetSmiRange g rd) = Some (g', r)"
      "smi_value \<nu> l" "smi_value \<nu> rd" "binary_sem \<nu> (defs g d) op l rd (val \<nu> d)" using E V by auto
    then show ?thesis using sr by (intro binary_value [OF _ C]) (auto dest: smi_valueD simp: smi_in64)
  next
    case (BinaryInt32OpInstr op l rd)
    then have "InferRangeHelper g d op l (GetSmiRange g l) (GetSmiRange g rd) = Some (g', r)"
      "smi_value \<nu> l" "smi_value \<nu> rd" "binary_sem \<nu> (defs g d) op l rd (val \<nu> d)" using E V by auto
    then show ?thesis using sr by (intro binary_value [OF _ C]) (auto dest: smi_valueD simp: smi_in64)
  next
    case (BinaryMintOpInstr op l rd)
    then have "InferRangeHelper g d op l (range_of g l) (range_of g rd) = Some (g', r)"
      "mint_inputs g \<nu> l rd" "binary_sem \<nu> (defs g d) op l rd (val \<nu> d)" using E V by auto
    then show ?thesis using ir by (intro binary_value [OF _ C]) (auto simp: mint_inputs_def)
  next
    case (ShiftMintOpInstr op l rd)
    then have "InferRangeHelper g d op l (range_of g l) (range_of g rd) = Some (g', r)"
      "mint_inputs g \<nu> l rd" "binary_sem \<nu> (defs g d) op l rd (val \<nu> d)" using E V by auto
    then show ?thesis using ir by (intro binary_value [OF _ C]) (auto simp: mint_inputs_def)
  next
    case (PhiInstr inputs)
    then show ?thesis using phi by (simp add: IsPhi_def)
  next
    case (LoadFieldInstr k)
    then show ?thesis using E V T LoadField_value by (auto simp: pure_range_def)
  next
    case (LoadIndexedInstr c)
    then show ?thesis using E V T LoadIndexed_value by (auto simp: pure_range_def)
  next
    case (LoadCodeUnitsInstr c)
    then show ?thesis using E V LoadCodeUnits_value by (auto simp: pure_range_def)
  next
    case (IfThenElseInstr t f)
    then show ?thesis using E V by (auto simp: pure_range_def IfThenElse_InferRange_def min_def max_def)
  next
    case (BoxInt64Instr w)
    then show ?thesis using E V BoxInteger_value [OF C P] by (auto simp: pure_range_def)
  next
    case (BoxInt32Instr w)
    then show ?thesis using E V BoxInteger_value [OF C P] by (auto simp: pure_range_def)
  next
    case (BoxUint32Instr w)
    then show ?thesis using E V BoxInteger_value [OF C P] by (auto simp: pure_range_def)
  next
    case (UnboxInt32Instr w c)
    then show ?thesis using E V UnboxInt32_value [OF C P] by (auto simp: pure_range_def)
  next
    case (UnboxUint32Instr w c)
    then show ?thesis using E V UnboxUint32_value [OF _ C P] by (auto simp: pure_range_def)
  next
    case (UnboxInt64Instr w)
    then show ?thesis
      using E V ir by (auto simp: pure_range_def UnboxInt64_InferRange_def Full_value in64_in_size split: option.splits)
  next
    case (UnboxedIntConverterInstr rep_from rep_to w)
    then have *: "UnboxedIntConverter_InferRange g rep_from rep_to w = Some r" "g' = g" using E by (auto simp: pure_range_def)
    have "w \<in> executed \<nu>" "if rep_to = kUnboxedUint32 then val \<nu> d = val \<nu> w mod 2 ^ 32 else val \<nu> d = val \<nu> w"
      "rep_to = kUnboxedInt32 \<longrightarrow> in_size kRangeBoundaryInt32 (val \<nu> d)"
      using V unfolding UnboxedIntConverterInstr instr_sem.simps by blast+
    with UnboxedIntConverter_value [OF *(1) C P] *(2) show ?thesis by blast
  next
    case (UnaryMintOpInstr w)
    then show ?thesis using E T Definition_InferRange_value by (auto simp: pure_range_def)
  next
    case OtherInstr
    then show ?thesis using E T Definition_InferRange_value by (auto simp: pure_range_def)
  qed
qed

subsection \<open>The fixpoint iteration\<close>

lemma UnwrapConstraint_same_code:
  "UnwrapConstraint g d = Some u \<Longrightarrow> same_code g h \<Longrightarrow> UnwrapConstraint h d = Some u"
proof (induction g d u rule: UnwrapConstraint_run)
  case (step f g d u)
  have i: "instr_of h d = instr_of g d" using same_code_fields(1) [OF step.prems] by simp
  show ?case
  proof (cases "\<exists>w c. instr_of g d = ConstraintInstr w c")
    case True
    then obtain w c where w: "instr_of g d = ConstraintInstr w c" by blast
    then have "UnwrapConstraint h w = Some u" using step by simp
    then show ?thesis using w i by (subst UnwrapConstraint.simps) simp
  next
    case False
    then have "u = d" using step.hyps by (cases "instr_of g d") auto
    then show ?thesis using False i by (subst UnwrapConstraint.simps) (cases "instr_of g d"; simp)
  qed
qed

lemma same_code_sym: "same_code g h \<Longrightarrow> same_code h g"
  by (auto simp: same_code_def)

lemma IsArrayLength_same_code:
  assumes "same_code g h"
  shows "IsArrayLength g d = IsArrayLength h d"
proof -
  have "UnwrapConstraint g e = UnwrapConstraint h e" for e
    using UnwrapConstraint_same_code [OF _ assms] UnwrapConstraint_same_code [OF _ same_code_sym [OF assms]]
    by (metis not_Some_eq)
  then show ?thesis
    using same_code_fields(1) [OF assms] by (cases d) (simp_all add: IsArrayLength_def)
qed

lemma defn_sem_same_code:
  assumes "same_code g h" "defn_sem g \<nu> d"
  shows "defn_sem h \<nu> d"
proof -
  note f = same_code_fields [OF assms(1), of d]
  have "types_hold (defs h d) v = types_hold (defs g d) v" for v
    by (simp add: types_hold_def IsMintDefinition_def IsInt32Definition_def f)
  moreover have "binary_sem \<nu> (defs h d) op l r v = binary_sem \<nu> (defs g d) op l r v" for op l r v
    by (simp add: binary_sem_def f)
  moreover have "mint_inputs h \<nu> l r = mint_inputs g \<nu> l r" for l r
    by (simp add: mint_inputs_def IsArrayLength_same_code [OF assms(1)])
  ultimately have "instr_sem h \<nu> (defs h d) i v = instr_sem g \<nu> (defs g d) i v" for i v
    by (cases "(g, \<nu>, defs g d, i, v)" rule: instr_sem.cases) simp_all
  then show ?thesis
    using assms(2) \<open>\<And>v. types_hold (defs h d) v = types_hold (defs g d) v\<close> by (simp add: defn_sem_def f)
qed

text \<open>The invariant of the iteration over definitions that are not phis.\<close>

definition analysis_inv :: "flow_graph \<Rightarrow> execution \<Rightarrow> defn_id list \<Rightarrow> bool" where
  "analysis_inv g \<nu> ds \<longleftrightarrow> consistent g \<nu> \<and> paired g \<and>
     (\<forall>d \<in> set ds. \<not> IsPhi g d \<and> (d \<in> executed \<nu> \<longrightarrow> defn_sem g \<nu> d))"

lemma paired_updates:
  "paired g \<Longrightarrow> (range_min r = kUnknown) = (range_max r = kUnknown) \<Longrightarrow> paired (set_range g d r)"
  "paired g \<Longrightarrow> paired (set_defn g d ((defs g d)\<lparr>can_overflow := f\<rparr>))"
  by (auto simp: paired_def set_range_def set_defn_def)

lemma analysis_inv_step:
  assumes "analysis_inv g \<nu> ds" "same_code h g" "consistent h \<nu>" "paired h"
  shows "analysis_inv h \<nu> ds"
  using assms(1,3,4) defn_sem_same_code [OF same_code_sym [OF assms(2)]] same_code_fields(1) [OF assms(2)]
  by (simp add: analysis_inv_def IsPhi_def)

lemma InferRange_graph:
  assumes "InferRange g d = Some (g', r)"
  shows "g' = g \<or> (\<exists>f. g' = set_defn g d ((defs g d)\<lparr>can_overflow := f\<rparr>))"
proof -
  have "g' = g \<or> (\<exists>op l lr rr. InferRangeHelper g d op l lr rr = Some (g', r))"
    using assms by (cases "instr_of g d") (auto simp: InferRange_def pure_range_def)
  then show ?thesis using InferRangeHelper_graph by blast
qed

lemma RangeAnalysis_InferRange_inv:
  assumes R: "RangeAnalysis_InferRange op g d = Some (g', c)" and inv: "analysis_inv g \<nu> ds" and d: "d \<in> set ds"
  shows "analysis_inv g' \<nu> ds"
proof -
  have C: "consistent g \<nu>" and P: "paired g" and phi: "\<not> IsPhi g d" using inv d by (auto simp: analysis_inv_def)
  obtain h r where h: "InferRange g d = Some (h, r)" using R by (auto simp: RangeAnalysis_InferRange_def)
  note hg = InferRange_graph [OF h]
  have sc: "same_code h g" using hg same_code_update(2) same_code_refl by blast
  have Ch: "consistent h \<nu>" using hg consistent_set_can_overflow [OF C] C by blast
  have Ph: "paired h" using hg paired_updates(2) P by blast
  have inv_h: "analysis_inv h \<nu> ds" by (rule analysis_inv_step [OF inv sc Ch Ph])
  have "\<not> IsPhi h d" using phi same_code_fields(1) [OF sc] by (simp add: IsPhi_def)
  then consider "g' = h" | "g' = set_range h d r" "\<not> Range_IsUnknown (Some r)"
      "(range_min r = kUnknown) = (range_max r = kUnknown)"
    using R h by (auto simp: RangeAnalysis_InferRange_def Range_Equals_def split: if_splits option.splits)
  then show ?thesis
  proof cases
    case 2
    have "d \<in> executed \<nu> \<Longrightarrow> in_range \<nu> r (val \<nu> d) \<and> r_ok \<nu> r"
      using InferRange_value [OF h C P _ phi] 2(2) inv d by (auto simp: analysis_inv_def)
    then have "consistent g' \<nu>" unfolding 2(1) by (rule consistent_set_range [OF Ch])
    moreover have "paired g'" unfolding 2(1) by (rule paired_updates(1) [OF Ph 2(3)])
    ultimately show ?thesis using analysis_inv_step [OF inv_h] same_code_update(1) 2(1) by simp
  qed (use inv_h in simp)
qed

lemma infer_pass_inv:
  "infer_pass op es g ch = Some (g', c) \<Longrightarrow> analysis_inv g \<nu> ds \<Longrightarrow> set es \<subseteq> set ds \<Longrightarrow> analysis_inv g' \<nu> ds"
proof (induction es arbitrary: g ch)
  case (Cons d es)
  then obtain h c' where "RangeAnalysis_InferRange op g d = Some (h, c')" "infer_pass op es h (ch \<or> c') = Some (g', c)"
    by auto
  with Cons RangeAnalysis_InferRange_inv show ?case by fastforce
qed simp

lemma iterate_loop_inv:
  "iterate_loop op i n ds g = Some g' \<Longrightarrow> analysis_inv g \<nu> ds \<Longrightarrow> analysis_inv g' \<nu> ds"
proof (induction op i n ds g rule: iterate_loop.induct)
  case (1 op i n ds g)
  from "1.prems"(1) obtain h c where h: "infer_pass op ds g False = Some (h, c)"
    "(if c \<and> i + 1 < n then iterate_loop op (i + 1) n ds h else Some h) = Some g'"
    by (subst (asm) iterate_loop.simps) auto
  have "analysis_inv h \<nu> ds" by (rule infer_pass_inv [OF h(1) "1.prems"(2)]) simp
  with "1.IH" h show ?case by (auto split: if_splits)
qed

lemma InferRanges_inv:
  assumes "InferRanges ds g = Some g'" "analysis_inv g \<nu> ds"
  shows "analysis_inv g' \<nu> ds"
  using assms by (auto simp: InferRanges_def Iterate_def dest: iterate_loop_inv)

end
