(* ===== verification/Range_Termination.thy ===== *)
theory Range_Termination
  imports Range_Infer Range_Soundness
begin

text \<open>
  The walks of range analysis over the flow graph return. The graph has a rank that decreases from
  a constraint or a Smi operation to its inputs and from a definition to the symbols of its range;
  phis carry no such obligation, so graphs of loops have one. On such a graph, whose ranges are
  known and which has been constant folded, no assertion fails and no loop runs forever.
\<close>

definition ranked :: "(defn_id \<Rightarrow> nat) \<Rightarrow> flow_graph \<Rightarrow> bool" where
  "ranked rk g \<longleftrightarrow> (\<forall>d.
     (case instr_of g d of ConstraintInstr v c \<Rightarrow> rk v < rk d
      | BinarySmiOpInstr op l r \<Rightarrow> rk l < rk d \<and> rk r < rk d | _ \<Rightarrow> True) \<and>
     (\<forall>r s off. range_of g d = Some r \<and> (range_min r = kSymbol s off \<or> range_max r = kSymbol s off) \<longrightarrow>
        rk s < rk d))"

fun wf_b :: "flow_graph \<Rightarrow> range_boundary \<Rightarrow> bool" where
  "wf_b g kUnknown = False"
| "wf_b g (kSymbol s off) = (in64 off \<and> \<not> IsConstantDefn g s)"
| "wf_b g (kConstant c) = in64 c"
| "wf_b g b = True"

definition folded :: "flow_graph \<Rightarrow> bool" where
  "folded g \<longleftrightarrow> (\<forall>d. (case instr_of g d of
       ConstraintInstr v c \<Rightarrow> \<not> IsConstantDefn g v
     | BinarySmiOpInstr op l r \<Rightarrow>
         (IsConstantDefn g r \<longrightarrow> \<not> IsConstantDefn g l \<and> (\<exists>c. SmiConstantValue g r = Some c \<and> smi c)) \<and>
         (IsConstantDefn g l \<longrightarrow> (\<exists>c. SmiConstantValue g l = Some c \<and> smi c))
     | _ \<Rightarrow> True))"

definition ranges_known :: "flow_graph \<Rightarrow> bool" where
  "ranges_known g \<longleftrightarrow> (\<forall>d r. range_of g d = Some r \<longrightarrow> wf_b g (range_min r) \<and> wf_b g (range_max r))"

definition well_founded :: "(defn_id \<Rightarrow> nat) \<Rightarrow> flow_graph \<Rightarrow> bool" where
  "well_founded rk g \<longleftrightarrow> ranked rk g \<and> folded g \<and> ranges_known g"

lemma well_foundedD:
  assumes "well_founded rk g"
  shows "instr_of g d = ConstraintInstr v c \<Longrightarrow> rk v < rk d \<and> \<not> IsConstantDefn g v"
    and "instr_of g d = BinarySmiOpInstr op l r \<Longrightarrow> rk l < rk d \<and> rk r < rk d"
    and "instr_of g d = BinarySmiOpInstr op l r \<Longrightarrow> IsConstantDefn g r \<Longrightarrow>
      \<not> IsConstantDefn g l \<and> (\<exists>c. SmiConstantValue g r = Some c \<and> smi c)"
    and "instr_of g d = BinarySmiOpInstr op l r \<Longrightarrow> IsConstantDefn g l \<Longrightarrow>
      (\<exists>c. SmiConstantValue g l = Some c \<and> smi c)"
    and "range_of g d = Some q \<Longrightarrow> wf_b g (range_min q) \<and> wf_b g (range_max q)"
    and "range_of g d = Some q \<Longrightarrow> range_min q = kSymbol s off \<or> range_max q = kSymbol s off \<Longrightarrow> rk s < rk d"
proof -
  have a: "case instr_of g d of ConstraintInstr v c \<Rightarrow> rk v < rk d
      | BinarySmiOpInstr op l r \<Rightarrow> rk l < rk d \<and> rk r < rk d | _ \<Rightarrow> True"
    using assms unfolding well_founded_def ranked_def by blast
  have f: "case instr_of g d of
       ConstraintInstr v c \<Rightarrow> \<not> IsConstantDefn g v
     | BinarySmiOpInstr op l r \<Rightarrow>
         (IsConstantDefn g r \<longrightarrow> \<not> IsConstantDefn g l \<and> (\<exists>c. SmiConstantValue g r = Some c \<and> smi c)) \<and>
         (IsConstantDefn g l \<longrightarrow> (\<exists>c. SmiConstantValue g l = Some c \<and> smi c))
     | _ \<Rightarrow> True"
    using assms unfolding well_founded_def folded_def by blast
  show "instr_of g d = ConstraintInstr v c \<Longrightarrow> rk v < rk d \<and> \<not> IsConstantDefn g v"
    "instr_of g d = BinarySmiOpInstr op l r \<Longrightarrow> rk l < rk d \<and> rk r < rk d"
    "instr_of g d = BinarySmiOpInstr op l r \<Longrightarrow> IsConstantDefn g r \<Longrightarrow>
      \<not> IsConstantDefn g l \<and> (\<exists>c. SmiConstantValue g r = Some c \<and> smi c)"
    "instr_of g d = BinarySmiOpInstr op l r \<Longrightarrow> IsConstantDefn g l \<Longrightarrow>
      (\<exists>c. SmiConstantValue g l = Some c \<and> smi c)"
    using a f by simp_all
  show "range_of g d = Some q \<Longrightarrow> wf_b g (range_min q) \<and> wf_b g (range_max q)"
    using assms by (simp add: well_founded_def ranges_known_def)
  show "range_of g d = Some q \<Longrightarrow> range_min q = kSymbol s off \<or> range_max q = kSymbol s off \<Longrightarrow> rk s < rk d"
    using assms unfolding well_founded_def ranked_def by blast
qed

lemma UnwrapConstraint_returns:
  assumes "well_founded rk g"
  shows "\<exists>u. UnwrapConstraint g d = Some u"
proof (induction "rk d" arbitrary: d rule: less_induct)
  case less
  show ?case
  proof (cases "\<exists>v c. instr_of g d = ConstraintInstr v c")
    case True
    then obtain v c where v: "instr_of g d = ConstraintInstr v c" by blast
    then obtain u where "UnwrapConstraint g v = Some u" using less well_foundedD(1) [OF assms v] by blast
    then show ?thesis using v by (subst UnwrapConstraint.simps) simp
  next
    case False
    then show ?thesis by (subst UnwrapConstraint.simps) (cases "instr_of g d"; simp)
  qed
qed

lemma DependOnSameSymbol_returns:
  assumes "well_founded rk g"
  shows "\<exists>b. DependOnSameSymbol g x y = Some b"
proof -
  have "\<exists>b. AreEqualDefinitions g s t = Some b" for s t
    using UnwrapConstraint_returns [OF assms, of s] UnwrapConstraint_returns [OF assms, of t]
    by (auto simp: AreEqualDefinitions_def)
  then show ?thesis by (cases "(g, x, y)" rule: DependOnSameSymbol.cases) auto
qed

lemma RangeBoundary_Equals_returns:
  assumes "well_founded rk g"
  shows "\<exists>b. RangeBoundary_Equals g x y = Some b"
  using DependOnSameSymbol_returns [OF assms]
  by (cases "(g, x, y)" rule: RangeBoundary_Equals.cases) (auto simp del: DependOnSameSymbol.simps)

text \<open>The rank of a boundary: what the walks decrease.\<close>

fun b_rank :: "(defn_id \<Rightarrow> nat) \<Rightarrow> range_boundary \<Rightarrow> nat" where
  "b_rank rk (kSymbol s off) = Suc (rk s)"
| "b_rank rk b = 0"

lemma b_rank_range:
  assumes "well_founded rk g" "range_of g s = Some r"
  shows "b_rank rk (range_min r) \<le> rk s" "b_rank rk (range_max r) \<le> rk s"
proof -
  note * = well_foundedD(6) [OF assms]
  show "b_rank rk (range_min r) \<le> rk s" using * by (cases "range_min r") (auto simp: Suc_le_eq)
  show "b_rank rk (range_max r) \<le> rk s" using * by (cases "range_max r") (auto simp: Suc_le_eq)
qed

lemma Add_returns:
  assumes "lower_const l \<or> upper_const l" "in64 off"
  shows "\<exists>c. RangeBoundary_Add (RangeBoundary_Clamp l kRangeBoundarySmi) (kConstant off) ov = Some c \<and>
    (c = ov \<or> (\<exists>k. c = kConstant k \<and> in64 k))"
proof -
  have "\<exists>k. RangeBoundary_Clamp l kRangeBoundarySmi = kConstant k \<and> in64 k"
    using assms(1) by (auto simp: lower_const_def upper_const_def rb_simps in64_def konst)
  then show ?thesis using assms(2) by (auto simp: RangeBoundary_Add_const)
qed

lemma LowerBound_returns:
  assumes "well_founded rk g"
  shows "wf_b g b \<Longrightarrow> \<exists>l. LowerBound g b = Some l \<and> lower_const l"
proof (induction "b_rank rk b" arbitrary: b rule: less_induct)
  case less
  show ?case
  proof (cases b)
    case (kSymbol s off)
    then have off: "in64 off" using less.prems by simp
    show ?thesis
    proof (cases "range_of g s")
      case None
      then show ?thesis
        using kSymbol Add_returns [of "MinConstant kRangeBoundarySmi" off kNegativeInfinity] off
        by (subst LowerBound.simps) (auto simp: lower_const_def rb_simps)
    next
      case (Some r)
      have "b_rank rk (range_min r) < b_rank rk b" using b_rank_range(1) [OF assms Some] kSymbol by simp
      then obtain l where l: "LowerBound g (range_min r) = Some l" "lower_const l"
        using less.hyps well_foundedD(5) [OF assms Some] by blast
      then show ?thesis
        using kSymbol Some Add_returns [of l off kNegativeInfinity] off
        by (subst LowerBound.simps) (auto simp: lower_const_def)
    qed
  qed (use less.prems in \<open>auto simp: lower_const_def\<close>)
qed

lemma UpperBound_returns:
  assumes "well_founded rk g"
  shows "wf_b g b \<Longrightarrow> \<exists>l. UpperBound g b = Some l \<and> upper_const l"
proof (induction "b_rank rk b" arbitrary: b rule: less_induct)
  case less
  show ?case
  proof (cases b)
    case (kSymbol s off)
    then have off: "in64 off" using less.prems by simp
    show ?thesis
    proof (cases "range_of g s")
      case None
      then show ?thesis
        using kSymbol Add_returns [of "MaxConstant kRangeBoundarySmi" off kPositiveInfinity] off
        by (subst UpperBound.simps) (auto simp: upper_const_def rb_simps)
    next
      case (Some r)
      have "b_rank rk (range_max r) < b_rank rk b" using b_rank_range(2) [OF assms Some] kSymbol by simp
      then obtain l where l: "UpperBound g (range_max r) = Some l" "upper_const l"
        using less.hyps well_foundedD(5) [OF assms Some] by blast
      then show ?thesis
        using kSymbol Some Add_returns [of l off kPositiveInfinity] off
        by (subst UpperBound.simps) (auto simp: upper_const_def)
    qed
  qed (use less.prems in \<open>auto simp: upper_const_def\<close>)
qed

lemma LowerBound_sz_returns:
  assumes "well_founded rk g" "wf_b g b"
  shows "\<exists>i. LowerBound_sz g b sz = Some i"
  using LowerBound_returns [OF assms] by (auto simp: LowerBound_sz_def lower_const_def rb_simps)

lemma UpperBound_sz_returns:
  assumes "well_founded rk g" "wf_b g b"
  shows "\<exists>i. UpperBound_sz g b sz = Some i"
  using UpperBound_returns [OF assms] by (auto simp: UpperBound_sz_def upper_const_def rb_simps)

lemma Overflowed_returns: "lower_const l \<or> upper_const l \<Longrightarrow> \<exists>b. Overflowed g l sz = Some b"
  by (auto simp: lower_const_def upper_const_def)

subsection \<open>Canonicalization\<close>

lemma FromDefinition_returns: "\<not> IsConstantDefn g s \<Longrightarrow> FromDefinition g s off = Some (kSymbol s off)"
  by (auto simp: IsConstantDefn_def FromDefinition_def split: instruction.splits)

definition canonical :: "(defn_id \<Rightarrow> nat) \<Rightarrow> flow_graph \<Rightarrow> range_boundary \<Rightarrow> nat \<Rightarrow> range_boundary \<Rightarrow> bool" where
  "canonical rk g ov n b \<longleftrightarrow> b = ov \<or> (\<exists>t toff. b = kSymbol t toff \<and> wf_b g b \<and> rk t \<le> n)"

lemma canonicalize_loop_returns:
  assumes W: "well_founded rk g"
  shows "\<not> IsConstantDefn g s \<Longrightarrow> in64 off \<Longrightarrow> \<exists>b. canonicalize_loop g ov s off = Some b \<and> canonical rk g ov (rk s) b"
proof (induction "rk s" arbitrary: s off rule: less_induct)
  case less
  have IH: "\<exists>b. canonicalize_loop g ov t o' = Some b \<and> canonical rk g ov (rk s) b"
    if "rk t < rk s" "\<not> IsConstantDefn g t" "in64 o'" for t o'
    using less.hyps [OF that] that(1) unfolding canonical_def by fastforce
  have stop: "\<exists>b. FromDefinition g s off = Some b \<and> canonical rk g ov (rk s) b"
    using FromDefinition_returns [OF less.prems(1)] less.prems by (auto simp: canonical_def)
  have ov: "canonical rk g ov (rk s) ov" by (simp add: canonical_def)
  show ?case
  proof (cases "instr_of g s")
    case (ConstraintInstr v c)
    then show ?thesis
      using IH [OF _ _ less.prems(2)] well_foundedD(1) [OF W ConstraintInstr]
      by (subst canonicalize_loop.simps) auto
  next
    case (BinarySmiOpInstr op l r)
    note rank = well_foundedD(2) [OF W BinarySmiOpInstr]
    note cr = well_foundedD(3) [OF W BinarySmiOpInstr] and cl = well_foundedD(4) [OF W BinarySmiOpInstr]
    consider (right) "IsConstantDefn g r" | (left) "\<not> IsConstantDefn g r" "IsConstantDefn g l"
      | (none) "\<not> IsConstantDefn g r" "\<not> IsConstantDefn g l" by blast
    then show ?thesis
    proof cases
      case right
      then obtain c where c: "SmiConstantValue g r = Some c" "in64 c" "\<not> IsConstantDefn g l"
        using cr smi_in64 by blast
      show ?thesis
        using BinarySmiOpInstr right c less.prems IH [OF _ c(3)] rank stop ov
        by (subst canonicalize_loop.simps) auto
    next
      case left
      then obtain c where c: "SmiConstantValue g l = Some c" "in64 c" using cl smi_in64 by blast
      show ?thesis
        using BinarySmiOpInstr left c less.prems IH [OF _ left(1)] rank stop ov
        by (subst canonicalize_loop.simps) auto
    next
      case none
      then show ?thesis using BinarySmiOpInstr stop by (subst canonicalize_loop.simps) auto
    qed
  qed (use stop in \<open>subst canonicalize_loop.simps, simp\<close>)+
qed

text \<open>One step of a comparison: it lowers the rank of the boundary it rewrites.\<close>

definition step_returns :: "(defn_id \<Rightarrow> nat) \<Rightarrow> flow_graph \<Rightarrow> (range_boundary \<Rightarrow> range_boundary option option) \<Rightarrow> bool" where
  "step_returns rk g f \<longleftrightarrow> (\<forall>b. wf_b g b \<longrightarrow>
     (\<exists>r. f b = Some r \<and> (\<forall>c. r = Some c \<longrightarrow> wf_b g c \<and> b_rank rk c < b_rank rk b)))"

lemma canonical_step:
  assumes W: "well_founded rk g" and q: "wf_b g (kSymbol t toff)" "rk t < rk s" and off: "in64 off"
    and ov: "wf_b g ov" "b_rank rk ov = 0"
  shows "\<exists>r. (do { w \<leftarrow> WillAddOverflow toff off;
      if w then Some (Some ov)
      else do { o' \<leftarrow> add64 toff off; b \<leftarrow> FromDefinition g t o'; c \<leftarrow> CanonicalizeBoundary g b ov; Some (Some c) } })
      = Some r \<and> (\<forall>c. r = Some c \<longrightarrow> wf_b g c \<and> b_rank rk c < Suc (rk s))"
proof (cases "in64 (toff + off)")
  case True
  have t: "\<not> IsConstantDefn g t" using q by simp
  obtain b where b: "canonicalize_loop g ov t (toff + off) = Some b" "canonical rk g ov (rk t) b"
    using canonicalize_loop_returns [OF W t True] by blast
  then have "wf_b g b \<and> b_rank rk b < Suc (rk s)" using ov q(2) by (auto simp: canonical_def)
  with b(1) t True q(1) off show ?thesis by (simp add: FromDefinition_returns)
next
  case False
  then show ?thesis using q off ov by simp
qed

lemma CanonicalizeMinBoundary_returns:
  assumes W: "well_founded rk g"
  shows "step_returns rk g (CanonicalizeMinBoundary g)"
  unfolding step_returns_def
proof (intro allI impI)
  fix b
  assume b: "wf_b g b"
  show "\<exists>r. CanonicalizeMinBoundary g b = Some r \<and> (\<forall>c. r = Some c \<longrightarrow> wf_b g c \<and> b_rank rk c < b_rank rk b)"
  proof (cases "\<exists>s off q t toff. b = kSymbol s off \<and> range_of g s = Some q \<and> range_min q = kSymbol t toff")
    case True
    then obtain s off q t toff where *: "b = kSymbol s off" "range_of g s = Some q" "range_min q = kSymbol t toff"
      by blast
    have "wf_b g (kSymbol t toff)" "rk t < rk s"
      using well_foundedD(5,6) [OF W *(2)] *(3) by (metis, blast)
    from canonical_step [OF W this, of off kNegativeInfinity] * b show ?thesis by simp
  next
    case False
    then have "CanonicalizeMinBoundary g b = Some None"
      by (cases b) (auto split: option.splits range_boundary.splits)
    then show ?thesis by simp
  qed
qed

lemma CanonicalizeMaxBoundary_returns:
  assumes W: "well_founded rk g"
  shows "step_returns rk g (CanonicalizeMaxBoundary g)"
  unfolding step_returns_def
proof (intro allI impI)
  fix b
  assume b: "wf_b g b"
  show "\<exists>r. CanonicalizeMaxBoundary g b = Some r \<and> (\<forall>c. r = Some c \<longrightarrow> wf_b g c \<and> b_rank rk c < b_rank rk b)"
  proof (cases "\<exists>s off q t toff. b = kSymbol s off \<and> range_of g s = Some q \<and> range_max q = kSymbol t toff")
    case True
    then obtain s off q t toff where *: "b = kSymbol s off" "range_of g s = Some q" "range_max q = kSymbol t toff"
      by blast
    have "wf_b g (kSymbol t toff)" "rk t < rk s"
      using well_foundedD(5,6) [OF W *(2)] *(3) by (metis, blast)
    from canonical_step [OF W this, of off kPositiveInfinity] * b show ?thesis by simp
  next
    case False
    then have "CanonicalizeMaxBoundary g b = Some None"
      by (cases b) (auto split: option.splits range_boundary.splits)
    then show ?thesis by simp
  qed
qed

lemma step_returnsE:
  assumes "step_returns rk g f" "wf_b g b"
  obtains "f b = Some None" | c where "f b = Some (Some c)" "wf_b g c" "b_rank rk c < b_rank rk b"
  using assms unfolding step_returns_def by (metis option.exhaust)

lemma comparison_loop_returns:
  assumes W: "well_founded rk g" and S: "step_returns rk g f"
  shows "wf_b g a \<Longrightarrow> wf_b g b \<Longrightarrow> \<exists>r. comparison_loop g f a b = Some r \<and>
    (\<forall>x y. r = Some (x, y) \<longrightarrow> wf_b g x \<and> wf_b g y)"
proof (induction "b_rank rk a + b_rank rk b" arbitrary: a b rule: less_induct)
  case less
  obtain same where same: "DependOnSameSymbol g a b = Some same" using DependOnSameSymbol_returns [OF W] by blast
  from step_returnsE [OF S less.prems(1)] step_returnsE [OF S less.prems(2)]
  consider "same" | a' where "\<not> same" "f a = Some (Some a')" "wf_b g a'" "b_rank rk a' < b_rank rk a"
    | b' where "\<not> same" "f a = Some None" "f b = Some (Some b')" "wf_b g b'" "b_rank rk b' < b_rank rk b"
    | "\<not> same" "f a = Some None" "f b = Some None" by metis
  then show ?case
  proof cases
    case 1
    then show ?thesis using same less.prems by (subst comparison_loop.simps) simp
  next
    case 2
    then show ?thesis using same less.hyps [of a' b] less.prems by (subst comparison_loop.simps) simp
  next
    case 3
    then show ?thesis using same less.hyps [of a b'] less.prems by (subst comparison_loop.simps) simp
  next
    case 4
    then show ?thesis using same by (subst comparison_loop.simps) simp
  qed
qed

lemma bounds_loop_returns:
  assumes W: "well_founded rk g"
  shows "wf_b g a \<Longrightarrow> wf_b g b \<Longrightarrow> \<exists>r. bounds_loop g a b = Some r"
proof (induction "b_rank rk a + b_rank rk b" arbitrary: a b rule: less_induct)
  case less
  note S = CanonicalizeMaxBoundary_returns [OF W] CanonicalizeMinBoundary_returns [OF W]
  obtain same where same: "DependOnSameSymbol g a b = Some same" using DependOnSameSymbol_returns [OF W] by blast
  from step_returnsE [OF S(1) less.prems(1)] step_returnsE [OF S(2) less.prems(2)]
  consider "same"
    | a' where "\<not> same" "CanonicalizeMaxBoundary g a = Some (Some a')" "wf_b g a'" "b_rank rk a' < b_rank rk a"
    | b' where "\<not> same" "CanonicalizeMaxBoundary g a = Some None" "CanonicalizeMinBoundary g b = Some (Some b')"
        "wf_b g b'" "b_rank rk b' < b_rank rk b"
    | "\<not> same" "CanonicalizeMaxBoundary g a = Some None" "CanonicalizeMinBoundary g b = Some None" by metis
  then show ?case
  proof cases
    case 1
    then show ?thesis using same by (subst bounds_loop.simps) simp
  next
    case 2
    then show ?thesis using same less.hyps [of a' b] less.prems by (subst bounds_loop.simps) simp
  next
    case 3
    then show ?thesis using same less.hyps [of a b'] less.prems by (subst bounds_loop.simps) simp
  next
    case 4
    then show ?thesis using same by (subst bounds_loop.simps) auto
  qed
qed

subsection \<open>Joins and bounds checks\<close>

lemma CanonicalizeForComparison_returns:
  assumes "well_founded rk g" "step_returns rk g f" "wf_b g a" "wf_b g b"
  shows "\<exists>r. CanonicalizeForComparison g f a b = Some r"
  using comparison_loop_returns [OF assms] by (auto simp: CanonicalizeForComparison_def)

lemma JoinMin_returns:
  assumes W: "well_founded rk g" and wf: "wf_b g a" "wf_b g b"
  shows "\<exists>c. JoinMin g a b sz = Some c"
proof -
  obtain e where "RangeBoundary_Equals g a b = Some e" using RangeBoundary_Equals_returns [OF W] by blast
  moreover obtain w where "CanonicalizeForComparison g (CanonicalizeMinBoundary g) a b = Some w"
    using CanonicalizeForComparison_returns [OF W CanonicalizeMinBoundary_returns [OF W] wf] by blast
  moreover obtain ia ib sa sb where "LowerBound_sz g a sz = Some ia" "LowerBound_sz g b sz = Some ib"
      "UpperBound_sz g a sz = Some sa" "UpperBound_sz g b sz = Some sb"
    using LowerBound_sz_returns [OF W] UpperBound_sz_returns [OF W] wf by metis
  moreover obtain la lb oa ob where "LowerBound g a = Some la" "LowerBound g b = Some lb"
      "Overflowed g la sz = Some oa" "Overflowed g lb sz = Some ob"
    using LowerBound_returns [OF W] Overflowed_returns wf by metis
  ultimately show ?thesis by (cases e; cases w; cases oa; cases ob; auto simp: JoinMin_def)
qed

lemma JoinMax_returns:
  assumes W: "well_founded rk g" and wf: "wf_b g a" "wf_b g b"
  shows "\<exists>c. JoinMax g a b sz = Some c"
proof -
  obtain e where "RangeBoundary_Equals g a b = Some e" using RangeBoundary_Equals_returns [OF W] by blast
  moreover obtain w where "CanonicalizeForComparison g (CanonicalizeMaxBoundary g) a b = Some w"
    using CanonicalizeForComparison_returns [OF W CanonicalizeMaxBoundary_returns [OF W] wf] by blast
  moreover obtain ia ib sa sb where "LowerBound_sz g a sz = Some ia" "LowerBound_sz g b sz = Some ib"
      "UpperBound_sz g a sz = Some sa" "UpperBound_sz g b sz = Some sb"
    using LowerBound_sz_returns [OF W] UpperBound_sz_returns [OF W] wf by metis
  moreover obtain la lb oa ob where "UpperBound g a = Some la" "UpperBound g b = Some lb"
      "Overflowed g la sz = Some oa" "Overflowed g lb sz = Some ob"
    using UpperBound_returns [OF W] Overflowed_returns wf by metis
  ultimately show ?thesis by (cases e; cases w; cases oa; cases ob; auto simp: JoinMax_def)
qed

lemma CanonicalizeBoundary_returns:
  assumes "well_founded rk g" "wf_b g b"
  shows "\<exists>c. CanonicalizeBoundary g b kPositiveInfinity = Some c \<and> wf_b g c"
proof (cases b)
  case (kSymbol s off)
  then obtain c where "canonicalize_loop g kPositiveInfinity s off = Some c" "canonical rk g kPositiveInfinity (rk s) c"
    using canonicalize_loop_returns [OF assms(1)] assms(2) by fastforce
  with kSymbol show ?thesis by (auto simp: canonical_def)
qed (use assms in auto)

lemma check_bounds_returns:
  assumes W: "well_founded rk g" and r: "wf_b g (range_min r)" and len: "wf_b g len"
    and i: "FromDefinition g i 0 = Some b" "wf_b g b"
  shows "\<exists>c. check_bounds g i r len = Some c"
proof -
  obtain mn where mn: "LowerBound_sz g (range_min r) kRangeBoundarySmi = Some mn"
    using LowerBound_sz_returns [OF W r] by blast
  obtain mx where mx: "CanonicalizeBoundary g b kPositiveInfinity = Some mx" "wf_b g mx"
    using CanonicalizeBoundary_returns [OF W i(2)] by blast
  obtain u l where u: "UpperBound g mx = Some u" "upper_const u" "LowerBound g len = Some l" "lower_const l"
    using UpperBound_returns [OF W mx(2)] LowerBound_returns [OF W len] by blast
  obtain cl where cl: "CanonicalizeBoundary g len kPositiveInfinity = Some cl" "wf_b g cl"
    using CanonicalizeBoundary_returns [OF W len] by blast
  obtain res where "bounds_loop g mx cl = Some res" using bounds_loop_returns [OF W mx(2) cl(2)] by blast
  with mn mx u cl i show ?thesis
    by (auto simp: check_bounds_def ConstantMinValue_def ConstantMin_def LowerBound_sz_def upper_const_def lower_const_def)
qed

lemma set_range_fields [simp]:
  "instr_of (set_range g d r) e = instr_of g e"
  "range_of (set_range g d r) e = (if e = d then Some r else range_of g e)"
  by (simp_all add: set_range_def set_defn_def)

lemma ConstantRange_fields [simp]:
  "range_min (ConstantRange a b) = kConstant a" "range_max (ConstantRange a b) = kConstant b"
  by (simp_all add: ConstantRange_def)

lemma well_founded_set_constant:
  assumes "well_founded rk g" "in64 a" "in64 b"
  shows "well_founded rk (set_range g d (ConstantRange a b))"
proof -
  let ?h = "set_range g d (ConstantRange a b)"
  have c: "IsConstantDefn ?h e = IsConstantDefn g e" "SmiConstantValue ?h e = SmiConstantValue g e" for e
    by (simp_all add: IsConstantDefn_def SmiConstantValue_def)
  have w: "wf_b ?h x = wf_b g x" for x by (cases x) (simp_all add: c)
  have "ranked rk ?h"
    using assms(1) by (auto simp: well_founded_def ranked_def)
  moreover have "folded ?h"
    using assms(1) unfolding well_founded_def folded_def set_range_fields c by blast
  moreover have "ranges_known ?h"
    using assms by (auto simp: well_founded_def ranges_known_def w)
  ultimately show ?thesis by (simp add: well_founded_def)
qed

text \<open>The index of a bounds check is not a constant, or a Smi constant.\<close>

definition index_ok :: "flow_graph \<Rightarrow> defn_id \<Rightarrow> bool" where
  "index_ok g i \<longleftrightarrow> (case instr_of g i of ConstantInstr (SmiValue c) \<Rightarrow> in64 c | ConstantInstr v \<Rightarrow> False | _ \<Rightarrow> True)"

lemma FromDefinition_index:
  assumes "index_ok g i"
  shows "\<exists>b. FromDefinition g i 0 = Some b \<and> wf_b g b"
  using assms
  by (auto simp: index_ok_def FromDefinition_def IsConstantDefn_def split: instruction.splits const_value.splits)

lemma IsRedundant_some:
  assumes W: "well_founded rk g" and len: "wf_b g len" and i: "index_ok g i"
  shows "\<exists>r. IsRedundant g i len = Some r"
proof (cases "range_of g i")
  case (Some r)
  obtain b where b: "FromDefinition g i 0 = Some b" "wf_b g b" using FromDefinition_index [OF i] by blast
  obtain c where "check_bounds g i r len = Some c"
    using check_bounds_returns [OF W _ len b] well_foundedD(5) [OF W Some] by blast
  then show ?thesis using Some by (simp add: IsRedundant_def)
next
  case None
  show ?thesis
  proof (cases "\<exists>c. instr_of g i = ConstantInstr (SmiValue c)")
    case True
    then obtain c where c: "instr_of g i = ConstantInstr (SmiValue c)" by blast
    then have c6: "in64 c" using i by (simp add: index_ok_def)
    let ?r = "ConstantRange c c"
    note W' = well_founded_set_constant [OF W c6 c6, of i]
    have wf: "wf_b (set_range g i ?r) b = wf_b g b" for b by (cases b) (simp_all add: IsConstantDefn_def)
    have "FromDefinition (set_range g i ?r) i 0 = Some (kConstant c)" using c c6 by (simp add: FromDefinition_def)
    then obtain k where "check_bounds (set_range g i ?r) i ?r len = Some k"
      using check_bounds_returns [OF W', of ?r len i "kConstant c"] len c6 wf by auto
    then show ?thesis using None c
      by (simp add: IsRedundant_def InferRange_def pure_range_def Let_def Range_IsUnknown_def)
  next
    case False
    then show ?thesis using None
      by (auto simp: IsRedundant_def split: instruction.splits const_value.splits)
  qed
qed

end
