(* ===== verification/Range_Properties.thy ===== *)
theory Range_Properties
  imports Range_Infer_Sound Range_Termination
begin

text \<open>
  The properties of range analysis, each with a witness on a small graph: an array length, an
  index whose range is bounded by that length, a constant and a Smi addition.
\<close>

subsection \<open>A graph and an execution\<close>

definition plain_defn :: defn where
  "plain_defn = \<lparr>instr = OtherInstr, defn_range = None, type_cid = kSmiCid, type_is_int = True,
     defn_representation = kTagged, block_of = 0, is_truncating = False, can_overflow = True,
     allows_CSE = False, no_dependencies = False\<rparr>"

definition index_range :: range where
  "index_range = \<lparr>range_min = kConstant 0, range_max = kSymbol 0 (-1)\<rparr>"

definition loop_graph :: flow_graph where
  "loop_graph = \<lparr>defs = (\<lambda>_. plain_defn)
      (0 := plain_defn\<lparr>instr := LoadFieldInstr kObjectArrayLength, defn_range := Some (ConstantRange 0 kArrayMaxElements)\<rparr>,
       1 := plain_defn\<lparr>defn_range := Some index_range\<rparr>,
       2 := plain_defn\<lparr>instr := ConstantInstr (SmiValue 5), defn_range := Some (ConstantRange 5 5)\<rparr>,
       3 := plain_defn\<lparr>instr := BinarySmiOpInstr kADD 1 2\<rparr>),
     instr_equals = \<lambda>a b. False, dominates = \<lambda>a b. True\<rparr>"

definition loop_exec :: execution where
  "loop_exec = \<lparr>executed = {0, 1, 2, 3}, val = (\<lambda>_. 0)(0 := 10, 1 := 9, 2 := 5, 3 := 14)\<rparr>"

lemmas demo_defs = loop_graph_def loop_exec_def plain_defn_def index_range_def

lemma loop_consistent: "consistent loop_graph loop_exec"
  by (auto simp: consistent_def ranges_hold_def instrs_hold_def cse_holds_def demo_defs r_ok_def
      smi_value_def smi_def in64_def konst ConstantRange_def)

lemma loop_well_founded: "well_founded id loop_graph"
  by (auto simp: well_founded_def ranked_def folded_def ranges_known_def demo_defs IsConstantDefn_def
      SmiConstantValue_def smi_def in64_def konst ConstantRange_def split: if_splits)

lemma loop_means: "means loop_exec (kSymbol 0 0) 10" "smi_value loop_exec 1" "smi_value loop_exec 0"
  by (simp_all add: means_def demo_defs smi_value_def smi_def konst)

subsection \<open>Bounds checks\<close>

text \<open>
  C1: A bounds check that \<open>CheckArrayBoundInstr::IsRedundant\<close> declares redundant cannot fail: in
  every execution that agrees with the graph the index is not negative and is less than the length.
\<close>

theorem IsRedundant_sound:
  assumes "IsRedundant g index len_boundary = Some (g', True)" "consistent g \<nu>" "smi_value \<nu> index"
    "means \<nu> len_boundary len"
  shows "0 \<le> val \<nu> index \<and> val \<nu> index < len"
  using assms by (rule IsRedundant_value)

lemma loop_redundant: "\<exists>g'. IsRedundant loop_graph 1 (kSymbol 0 0) = Some (g', True)"
proof -
  have "map_option snd (IsRedundant loop_graph 1 (kSymbol 0 0)) = Some True" by code_simp
  then show ?thesis by auto
qed

theorem IsRedundant_sound_witness: "0 \<le> val loop_exec 1 \<and> val loop_exec 1 < 10"
proof -
  obtain g' where "IsRedundant loop_graph 1 (kSymbol 0 0) = Some (g', True)" using loop_redundant by blast
  then show ?thesis by (rule IsRedundant_sound [OF _ loop_consistent loop_means(2,1)])
qed

text \<open>
  C3: On a ranked, constant-folded graph whose ranges are known, \<open>IsRedundant\<close> returns: no
  assertion fails, no signed overflow happens and the symbolic comparison loop ends.
\<close>

theorem IsRedundant_returns:
  assumes "well_founded rk g" "wf_b g len_boundary" "index_ok g index"
  shows "\<exists>g' b. IsRedundant g index len_boundary = Some (g', b)"
  using IsRedundant_some [OF assms] by auto

theorem IsRedundant_returns_witness: "\<exists>g' b. IsRedundant loop_graph 1 (kSymbol 0 7) = Some (g', b)"
  by (rule IsRedundant_returns [OF loop_well_founded])
    (simp_all add: demo_defs IsConstantDefn_def index_ok_def in64_def konst)

subsection \<open>Transfer functions\<close>

text \<open>
  C4: \<open>Range::BinaryOp\<close> is sound for addition, subtraction, multiplication, both shifts and the
  bitwise operations: when the operands lie in their ranges, the exact result lies in the range
  computed for it, also when an end of that range has become an infinity or a symbol.
\<close>

theorem BinaryOp_sound:
  assumes "tracked_op kind" "Range_BinaryOp kind g left right left_defn = Some res" "consistent g \<nu>"
    "operand \<nu> left x" "operand \<nu> right y" "left_defn_ok g \<nu> left_defn x" "count_ok kind y"
  shows "in_range \<nu> res (sem_op kind x y)"
  using Range_BinaryOp_value [OF assms] by simp

lemma demo_operand: "operand loop_exec (ConstantRange 2 4) 3" "operand loop_exec (ConstantRange (-7) 60) 60"
  by (simp_all add: operand_def in64_def konst)

theorem BinaryOp_sound_witness:
  "Range_BinaryOp kSHL loop_graph (ConstantRange 2 4) (ConstantRange (-7) 60) None =
     Some \<lparr>range_min = kConstant 2, range_max = kConstant (4 * 2 ^ 60)\<rparr> \<and>
   in_range loop_exec \<lparr>range_min = kConstant 2, range_max = kConstant (4 * 2 ^ 60)\<rparr> (3 * 2 ^ 60)"
proof
  show *: "Range_BinaryOp kSHL loop_graph (ConstantRange 2 4) (ConstantRange (-7) 60) None =
     Some \<lparr>range_min = kConstant 2, range_max = kConstant (4 * 2 ^ 60)\<rparr>" by code_simp
  show "in_range loop_exec \<lparr>range_min = kConstant 2, range_max = kConstant (4 * 2 ^ 60)\<rparr> (3 * 2 ^ 60)"
    using BinaryOp_sound [OF _ * loop_consistent demo_operand] by (simp add: tracked_op_def left_defn_ok_def count_ok_def)
qed

text \<open>
  C5: The overflow flag \<open>BinaryIntegerOpInstr::InferRangeHelper\<close> computes can be trusted: when it
  clears \<open>can_overflow\<close> the exact result fits the representation of the instruction, so the
  overflow check may be dropped, and then the clamped range contains the result.
\<close>

theorem can_overflow_sound:
  assumes "InferRangeHelper g d op left left_range right_range = Some (g', rng)"
    "\<not> Range_IsUnknown (Some rng)" "consistent g \<nu>" "tracked_op op" "count_ok op y" "\<not> is_truncating (defs g d)"
    "\<And>q. left_range = Some q \<Longrightarrow> \<not> Range_IsUnknown left_range \<Longrightarrow> operand \<nu> q x"
    "\<And>q. right_range = Some q \<Longrightarrow> \<not> Range_IsUnknown right_range \<Longrightarrow> operand \<nu> q y"
    "left_defn_ok g \<nu> (Some left) x"
    "RepresentationToRangeSize (defn_representation (defs g d)) = Some sz" "\<not> can_overflow (defs g' d)"
  shows "in_size sz (sem_op op x y) \<and> in_range \<nu> rng (sem_op op x y)"
  using InferRangeHelper_value(1,2) [OF assms(1-10)] assms(11) by blast

theorem can_overflow_sound_witness:
  "\<exists>g'. InferRangeHelper loop_graph 3 kADD 1 (Some index_range) (Some (ConstantRange 5 5)) =
      Some (g', \<lparr>range_min = kConstant 5, range_max = kSymbol 0 4\<rparr>) \<and>
    in_size kRangeBoundarySmi 14 \<and> in_range loop_exec \<lparr>range_min = kConstant 5, range_max = kSymbol 0 4\<rparr> 14"
proof -
  let ?H = "InferRangeHelper loop_graph 3 kADD 1 (Some index_range) (Some (ConstantRange 5 5))"
  let ?r = "\<lparr>range_min = kConstant 5, range_max = kSymbol 0 4\<rparr> :: range"
  have "map_option (\<lambda>(h, r). (can_overflow (defs h 3), r)) ?H = Some (False, ?r)" by code_simp
  then obtain g' where g': "?H = Some (g', ?r)" "\<not> can_overflow (defs g' 3)" by auto
  have o: "operand loop_exec index_range 9" "operand loop_exec (ConstantRange 5 5) 5"
    using loop_means(3) by (auto simp: operand_def r_ok_def in_range_def index_range_def in64_def konst loop_exec_def)
  have l: "left_defn_ok loop_graph loop_exec (Some 1) 9"
    using loop_means(2) by (simp add: left_defn_ok_def loop_exec_def)
  have "in_size kRangeBoundarySmi (sem_op kADD 9 5) \<and> in_range loop_exec ?r (sem_op kADD 9 5)"
    by (rule can_overflow_sound [OF g'(1) _ loop_consistent _ _ _ _ _ l _ g'(2)])
      (use o in \<open>simp_all add: tracked_op_def count_ok_def loop_graph_def plain_defn_def Range_IsUnknown_def\<close>)
  with g' show ?thesis by auto
qed

subsection \<open>Inference\<close>




subsection \<open>Joins\<close>

text \<open>
  C7: The join of a phi with one more input is sound when the range accumulated so far contains a
  value at run time: the result contains every value of that range and the value of the input.
\<close>

theorem Join_sound:
  assumes "Join g rng d (Some dr) sz = Some res" "consistent g \<nu>"
    "\<not> Range_IsUnknown (Some dr)" "\<not> Range_IsUnknown (Some rng)" "r_ok \<nu> rng" "r_ok \<nu> dr"
    "r_fits \<nu> sz rng" "r_fits \<nu> sz dr" "inhabited \<nu> sz rng"
    "smi_value \<nu> d" "in_range \<nu> dr (val \<nu> d)" "in_size sz (val \<nu> d)"
    "in_range \<nu> rng v \<or> v = val \<nu> d" "in_size sz v"
  shows "in_range \<nu> res v"
  using Join_value [OF assms] by simp

theorem Join_sound_witness:
  "Join loop_graph (ConstantRange (-3) (-2)) 1 (Some index_range) kRangeBoundarySmi =
     Some \<lparr>range_min = kConstant (-3), range_max = kSymbol 0 (-1)\<rparr> \<and>
   in_range loop_exec \<lparr>range_min = kConstant (-3), range_max = kSymbol 0 (-1)\<rparr> 9"
proof
  show *: "Join loop_graph (ConstantRange (-3) (-2)) 1 (Some index_range) kRangeBoundarySmi =
     Some \<lparr>range_min = kConstant (-3), range_max = kSymbol 0 (-1)\<rparr>" by code_simp
  have v: "val loop_exec 1 = 9" "val loop_exec 0 = 10" by (simp_all add: loop_exec_def)
  have "inhabited loop_exec kRangeBoundarySmi (ConstantRange (-3) (-2))"
    unfolding inhabited_def by (rule exI [of _ "-3"]) (simp add: in_size_def konst)
  then show "in_range loop_exec \<lparr>range_min = kConstant (-3), range_max = kSymbol 0 (-1)\<rparr> 9"
    by (intro Join_sound [OF * loop_consistent])
      (use loop_means(2,3) in \<open>auto simp: v index_range_def ConstantRange_def Range_IsUnknown_def r_ok_def
        r_fits_def in_range_def in_size_def in64_def konst simp del: One_nat_def\<close>)
qed

text \<open>
  A phi that merges a value guarded by \<open>10 <= i && i < length\<close> with the constant 3, in an execution
  in which the array has two elements, so that only the second input is executed.
\<close>

definition phi_graph :: flow_graph where
  "phi_graph = \<lparr>defs = (\<lambda>_. plain_defn)
      (0 := plain_defn\<lparr>instr := LoadFieldInstr kObjectArrayLength, defn_range := Some (ConstantRange 0 kArrayMaxElements)\<rparr>,
       1 := plain_defn\<lparr>defn_range := Some \<lparr>range_min = kConstant 10, range_max = kSymbol 0 (-1)\<rparr>\<rparr>,
       2 := plain_defn\<lparr>instr := ConstantInstr (SmiValue 3), defn_range := Some (ConstantRange 3 3)\<rparr>,
       3 := plain_defn\<lparr>instr := PhiInstr [1, 2], block_of := 1\<rparr>),
     instr_equals = \<lambda>a b. False, dominates = \<lambda>a b. True\<rparr>"

definition phi_exec :: execution where
  "phi_exec = \<lparr>executed = {0, 2, 3}, val = (\<lambda>_. 0)(0 := 2, 2 := 3, 3 := 3)\<rparr>"

text \<open>
  C8: The shortcut of \<open>Join\<close> that compares ranges as a whole is wrong for a range that may be empty
  at run time. The graph agrees with the execution, yet after inferring the range of the phi (from
  \<open>[10, length - 1]\<close> and \<open>[3, 3]\<close>) the bounds check on the phi is declared redundant although its
  value 3 is not less than the length 2.
\<close>

theorem Join_drops_needed_check:
  "consistent phi_graph phi_exec \<and>
   (\<exists>g' g''. RangeAnalysis_InferRange NONE phi_graph 3 = Some (g', True) \<and>
      range_of g' 3 = Some \<lparr>range_min = kConstant 3, range_max = kSymbol 0 (-1)\<rparr> \<and>
      IsRedundant g' 3 (kSymbol 0 0) = Some (g'', True)) \<and>
   \<not> val phi_exec 3 < val phi_exec 0"
proof (intro conjI)
  show "consistent phi_graph phi_exec"
    by (auto simp: consistent_def ranges_hold_def instrs_hold_def cse_holds_def phi_graph_def phi_exec_def
        plain_defn_def r_ok_def smi_value_def smi_def in64_def konst ConstantRange_def)
  have "map_option (\<lambda>(h, c). (c, range_of h 3, map_option snd (IsRedundant h 3 (kSymbol 0 0))))
      (RangeAnalysis_InferRange NONE phi_graph 3) =
    Some (True, Some \<lparr>range_min = kConstant 3, range_max = kSymbol 0 (-1)\<rparr>, Some True)" by code_simp
  then show "\<exists>g' g''. RangeAnalysis_InferRange NONE phi_graph 3 = Some (g', True) \<and>
      range_of g' 3 = Some \<lparr>range_min = kConstant 3, range_max = kSymbol 0 (-1)\<rparr> \<and>
      IsRedundant g' 3 (kSymbol 0 0) = Some (g'', True)" by auto
  show "\<not> val phi_exec 3 < val phi_exec 0" by (simp add: phi_exec_def)
qed

text \<open>
  \<open>JoinMin\<close> and \<open>JoinMax\<close> return, and cover both of their arguments for every value of the
  given size, provided the value of a symbolic boundary is itself of that size.
\<close>

theorem JoinMinMax_cover:
  assumes "consistent g \<nu>" "well_founded rk g" "wf_b g a" "wf_b g b" "b_ok \<nu> a" "b_ok \<nu> b"
    "sym_fits \<nu> sz a" "sym_fits \<nu> sz b"
  shows "(\<exists>c. JoinMin g a b sz = Some c \<and>
      (\<forall>v. in_size sz v \<and> (lower_ok \<nu> a v \<or> lower_ok \<nu> b v) \<longrightarrow> lower_ok \<nu> c v)) \<and>
    (\<exists>c. JoinMax g a b sz = Some c \<and>
      (\<forall>v. in_size sz v \<and> (upper_ok \<nu> a v \<or> upper_ok \<nu> b v) \<longrightarrow> upper_ok \<nu> c v))"
proof -
  obtain c where c: "JoinMin g a b sz = Some c" using JoinMin_returns [OF assms(2-4)] by blast
  obtain d where d: "JoinMax g a b sz = Some d" using JoinMax_returns [OF assms(2-4)] by blast
  show ?thesis
    using c d JoinMin_sound [OF c assms(1,5-8)] JoinMax_sound [OF d assms(1,5-8)] by blast
qed

theorem JoinMinMax_cover_witness:
  "JoinMax loop_graph (kSymbol 0 (-1)) (kSymbol 1 4) kRangeBoundarySmi = Some (kSymbol 0 3) \<and>
   upper_ok loop_exec (kSymbol 0 3) 13"
proof
  show *: "JoinMax loop_graph (kSymbol 0 (-1)) (kSymbol 1 4) kRangeBoundarySmi = Some (kSymbol 0 3)" by code_simp
  have "in_size kRangeBoundarySmi 13 \<and> (upper_ok loop_exec (kSymbol 0 (-1)) 13 \<or> upper_ok loop_exec (kSymbol 1 4) 13)"
    by (simp add: in_size_def konst loop_exec_def)
  with JoinMinMax_cover [OF loop_consistent loop_well_founded, of "kSymbol 0 (-1)" "kSymbol 1 4" kRangeBoundarySmi] *
    loop_means(2,3)
  show "upper_ok loop_exec (kSymbol 0 3) 13"
    by (auto simp: IsConstantDefn_def loop_graph_def plain_defn_def in64_def konst in_size_def loop_exec_def)
qed

text \<open>
  C9: The constant bounds of a boundary exist on a ranked graph and enclose its value, through any
  chain of ranges whose ends are symbols.
\<close>

theorem bounds_enclose:
  assumes "well_founded rk g" "wf_b g b" "consistent g \<nu>" "means \<nu> b x"
  shows "\<exists>l u. LowerBound g b = Some l \<and> UpperBound g b = Some u \<and>
    lower_const l \<and> upper_const u \<and> lower_ok \<nu> l x \<and> upper_ok \<nu> u x"
  using LowerBound_returns [OF assms(1,2)] UpperBound_returns [OF assms(1,2)]
    LowerBound_sound [OF _ assms(3) means_simps(1) [OF assms(4)]]
    UpperBound_sound [OF _ assms(3) means_simps(1) [OF assms(4)]] means_simps(2,3) [OF assms(4)]
  by blast

theorem bounds_enclose_witness:
  "\<exists>l u. LowerBound loop_graph (kSymbol 1 3) = Some l \<and> UpperBound loop_graph (kSymbol 1 3) = Some u \<and>
    lower_const l \<and> upper_const u \<and> lower_ok loop_exec l 12 \<and> upper_ok loop_exec u 12"
  by (rule bounds_enclose [OF loop_well_founded _ loop_consistent])
    (use loop_means(2) in \<open>auto simp: IsConstantDefn_def demo_defs in64_def konst means_def\<close>)

text \<open>
  Widening and narrowing keep soundness: the range \<open>RangeAnalysis::InferRange\<close> stores for a
  phi after applying the operator contains every value the newly computed range contains (for
  narrowing, every value the old range contains as well).
\<close>

theorem widen_narrow_sound:
  assumes "apply_join op g old new sz = Some res" "consistent g \<nu>" "r_ok \<nu> old" "r_ok \<nu> new"
    "r_fits \<nu> sz old" "in_size sz v" "in_range \<nu> new v" "op = NARROW \<Longrightarrow> in_range \<nu> old v"
  shows "in_range \<nu> res v"
  using apply_join_value [OF assms] by simp

theorem widen_narrow_sound_witness:
  "apply_join WIDEN loop_graph (ConstantRange 0 3) (ConstantRange 0 4) kRangeBoundarySmi =
     Some (ConstantRange 0 kSmiMax) \<and> in_range loop_exec (ConstantRange 0 kSmiMax) 4"
proof
  show *: "apply_join WIDEN loop_graph (ConstantRange 0 3) (ConstantRange 0 4) kRangeBoundarySmi =
     Some (ConstantRange 0 kSmiMax)" by code_simp
  show "in_range loop_exec (ConstantRange 0 kSmiMax) 4"
    by (rule widen_narrow_sound [OF * loop_consistent])
      (simp_all add: in64_def konst r_fits_def in_size_def)
qed

text \<open>
  \<open>Range::Intersect\<close> is an intersection: a value that satisfies both ranges satisfies the
  result, which is how a constraint sharpens the range of its input.
\<close>

theorem Intersect_sound:
  assumes "Intersect g r q = Some p" "consistent g \<nu>" "r_ok \<nu> r" "r_ok \<nu> q" "in_range \<nu> r v" "in_range \<nu> q v"
  shows "in_range \<nu> p v"
  using Intersect_value [OF assms] by simp

theorem Intersect_sound_witness:
  "Intersect loop_graph (Full kRangeBoundarySmi) index_range = Some index_range \<and> in_range loop_exec index_range 9"
proof
  show *: "Intersect loop_graph (Full kRangeBoundarySmi) index_range = Some index_range" by code_simp
  show "in_range loop_exec index_range 9"
    by (rule Intersect_sound [OF * loop_consistent Full_value(2) _ Full_value(1)])
      (use loop_means(3) in \<open>auto simp: r_ok_def in_range_def in_size_def index_range_def in64_def konst loop_exec_def\<close>)
qed

subsection \<open>Constraints\<close>

text \<open>
  C10: \<open>ConstraintSmiRange\<close> describes a comparison exactly: for Smis, a value lies in the range
  built for \<open>op\<close> and a boundary definition just when the comparison with that definition holds
  (every Smi does for \<open>!=\<close>). The flipped and negated operators compare as their names say.
\<close>

theorem ConstraintSmiRange_exact:
  assumes "ConstraintSmiRange g op b = Some r" "consistent g \<nu>" "smi_value \<nu> b" "smi x"
  shows "(in_range \<nu> r x \<longleftrightarrow> op = kNE \<or> sem_cmp op x (val \<nu> b)) \<and>
    (\<forall>op'. FlipComparison op = Some op' \<longrightarrow> sem_cmp op' (val \<nu> b) x = sem_cmp op x (val \<nu> b)) \<and>
    (\<forall>op'. NegateComparison op = Some op' \<longrightarrow> sem_cmp op' x (val \<nu> b) = (\<not> sem_cmp op x (val \<nu> b)))"
  using ConstraintSmiRange_value(2) [OF assms] FlipComparison_value NegateComparison_value by blast

theorem ConstraintSmiRange_exact_witness:
  "ConstraintSmiRange loop_graph kLT 0 = Some \<lparr>range_min = MinSmi, range_max = kSymbol 0 (-1)\<rparr> \<and>
   in_range loop_exec \<lparr>range_min = MinSmi, range_max = kSymbol 0 (-1)\<rparr> 9"
proof
  show *: "ConstraintSmiRange loop_graph kLT 0 = Some \<lparr>range_min = MinSmi, range_max = kSymbol 0 (-1)\<rparr>"
    by code_simp
  show "in_range loop_exec \<lparr>range_min = MinSmi, range_max = kSymbol 0 (-1)\<rparr> 9"
    using ConstraintSmiRange_exact [OF * loop_consistent loop_means(3), of 9]
    by (simp add: smi_def konst loop_exec_def)
qed

text \<open>
  A range \<open>IsUnsatisfiable\<close> reports contains no 64-bit value, so a branch whose constraint is
  unsatisfiable is never taken.
\<close>

theorem IsUnsatisfiable_sound:
  assumes "IsUnsatisfiable g r = Some True" "consistent g \<nu>" "r_ok \<nu> r" "in64 v"
  shows "\<not> in_range \<nu> r v"
  using assms by (rule IsUnsatisfiable_value)

theorem IsUnsatisfiable_sound_witness:
  "IsUnsatisfiable loop_graph \<lparr>range_min = kSymbol 0 1, range_max = kSymbol 0 0\<rparr> = Some True \<and>
   \<not> in_range loop_exec \<lparr>range_min = kSymbol 0 1, range_max = kSymbol 0 0\<rparr> 10"
proof
  show *: "IsUnsatisfiable loop_graph \<lparr>range_min = kSymbol 0 1, range_max = kSymbol 0 0\<rparr> = Some True"
    by code_simp
  show "\<not> in_range loop_exec \<lparr>range_min = kSymbol 0 1, range_max = kSymbol 0 0\<rparr> 10"
    by (rule IsUnsatisfiable_sound [OF * loop_consistent]) (use loop_means(3) in \<open>auto simp: r_ok_def in64_def konst\<close>)
qed

subsection \<open>Where the transfer functions are undefined or wrong\<close>



end
