(* ===== verification/Dart_Random.thy ===== *)
theory Dart_Random
  imports Prelude
begin

text \<open>
  The pseudo random number generator of \<open>vm/random.cc\<close>: multiply-with-carry with base \<open>2^32\<close> on
  a 64-bit state. The seed is an argument; the source reads it from a flag, from the embedder or
  from the clock.
\<close>

unbundle bit_operations_syntax

definition NextState :: "64 word \<Rightarrow> 64 word" where
  "NextState s = (let state_lo = s AND 0xffffffff; state_hi = drop_bit 32 s AND 0xffffffff
     in 0xffffda61 * state_lo + state_hi)"

definition NextUInt32 :: "64 word \<Rightarrow> 64 word \<times> 32 word" where
  "NextUInt32 s = (let s = NextState s in (s, ucast (s AND 0xffffffff)))"

text \<open>The two operands of the \<open>|\<close> of the source are evaluated from left to right.\<close>

definition NextUInt64 :: "64 word \<Rightarrow> 64 word \<times> 64 word" where
  "NextUInt64 s = (let (s, hi) = NextUInt32 s; (s, lo) = NextUInt32 s in (s, push_bit 32 (ucast hi) OR ucast lo))"

definition Initialize :: "64 word \<Rightarrow> 64 word option" where
  "Initialize seed = do { ASSERT (seed \<noteq> 0); Some (NextState (NextState (NextState (NextState seed)))) }"

subsection \<open>The recurrence\<close>

lemma and_mask32: "uint (s AND 0xffffffff :: 64 word) = uint s mod 2 ^ 32"
proof -
  have m: "(0xffffffff :: int) = mask 32" by (simp add: mask_eq_exp_minus_1)
  have "uint (s AND 0xffffffff :: 64 word) = uint s AND 0xffffffff" by (simp add: unsigned_and_eq)
  also have "\<dots> = take_bit 32 (uint s)" by (simp only: m take_bit_eq_mask)
  finally show ?thesis by (simp add: take_bit_eq_mod)
qed

lemma uint_hi_bound: "uint (s :: 64 word) div 2 ^ 32 < 2 ^ 32"
proof -
  have "uint s \<le> 2 ^ 64 - 1" using uint_lt2p [of s] by simp
  then have "uint s div 2 ^ 32 \<le> (2 ^ 64 - 1) div 2 ^ 32" by (rule zdiv_mono1) simp
  then show ?thesis by simp
qed

lemma uint_hi_nonneg: "0 \<le> uint (s :: 64 word) div 2 ^ 32"
  by (rule div_int_pos_iff [THEN iffD2]) simp

lemma uint_hi: "uint (drop_bit 32 s AND 0xffffffff :: 64 word) = uint s div 2 ^ 32"
proof -
  have "uint (drop_bit 32 s) = uint s div 2 ^ 32"
    by (subst unsigned_drop_bit_eq, subst drop_bit_eq_div) (use uint_lt2p [of s] in \<open>simp add: take_bit_int_eq_self\<close>)
  then show ?thesis unfolding and_mask32 using uint_hi_bound [of s] uint_hi_nonneg [of s] by (metis mod_pos_pos_trivial)
qed

lemma uint_NextState: "uint (NextState s) = 0xffffda61 * (uint s mod 2 ^ 32) + uint s div 2 ^ 32"
proof -
  define lo hi where lh: "lo = uint s mod 2 ^ 32" "hi = uint s div 2 ^ 32"
  have b: "0 \<le> lo" "lo < 2 ^ 32" "0 \<le> hi" "hi < 2 ^ 32" using uint_hi_bound [of s] uint_hi_nonneg [of s] unfolding lh by simp_all
  have u: "uint (s AND 0xffffffff) = lo" "uint (drop_bit 32 s AND 0xffffffff) = hi"
    unfolding lh by (rule and_mask32, rule uint_hi)
  have "uint (0xffffda61 * (s AND 0xffffffff) :: 64 word) = 0xffffda61 * lo"
    using b by (simp add: uint_word_ariths(3) u)
  then have "uint (NextState s) = 0xffffda61 * lo + hi"
    using b unfolding NextState_def Let_def by (simp add: uint_word_ariths(1) u)
  then show ?thesis unfolding lh .
qed

section \<open>Properties\<close>

text \<open>
  C28: the generator computes the multiply-with-carry recurrence exactly: the 64-bit multiplication
  and addition never wrap around. A state that is not zero stays so, so the generator never gets
  stuck on the fixed point zero.
\<close>

theorem NextState_exact:
  "uint (NextState s) = 0xffffda61 * (uint s mod 2 ^ 32) + uint s div 2 ^ 32 \<and> (NextState s = 0 \<longleftrightarrow> s = 0)"
proof -
  have "uint (NextState s) = 0 \<longleftrightarrow> uint s mod 2 ^ 32 = 0 \<and> uint s div 2 ^ 32 = 0"
  proof -
    have "0 \<le> uint s mod 2 ^ 32" "0 \<le> uint s div 2 ^ 32" using uint_hi_nonneg [of s] by simp_all
    then show ?thesis unfolding uint_NextState by linarith
  qed
  also have "\<dots> \<longleftrightarrow> uint s = 0" using div_mult_mod_eq [of "uint s" "2 ^ 32"] by auto
  finally show ?thesis unfolding uint_0_iff using uint_NextState by blast
qed

end
