(* ===== verification/Message_Queue.thy ===== *)
theory Message_Queue
  imports Prelude
begin

text \<open>
  Messages and message queues of \<open>vm/message.h\<close> and \<open>vm/message.cc\<close>: an intrusive, singly linked
  list of messages on the C heap, with a head and a tail pointer. The heap maps addresses to live
  messages; \<open>None\<close> in the heap is memory that is not a message, so that reading it is an error. A
  pointer that may be \<open>NULL\<close> is an \<open>addr option\<close>. \<open>MessageQueue::Clear\<close>, which posts messages
  to other ports, is in \<open>Port_Map\<close>.
\<close>

type_synonym addr = nat
type_synonym dart_port = int

datatype priority = kNormalPriority | kOOBPriority

record message =
  next_ptr :: "addr option"
  dest_port :: dart_port
  delivery_failure_port :: dart_port
  msg_data :: "8 word list"
  msg_priority :: priority

type_synonym heap = "addr \<Rightarrow> message option"

record message_queue =
  head_ptr :: "addr option"
  tail_ptr :: "addr option"

definition kIllegalPort :: dart_port where "kIllegalPort = 0"

subsection \<open>Messages\<close>

definition Message :: "dart_port \<Rightarrow> 8 word list \<Rightarrow> priority \<Rightarrow> dart_port \<Rightarrow> message option" where
  "Message dest d p failure_port = do {
     ASSERT (p = kNormalPriority \<or> failure_port = kIllegalPort);
     Some \<lparr>next_ptr = None, dest_port = dest, delivery_failure_port = failure_port, msg_data = d, msg_priority = p\<rparr>
   }"

definition delete_message :: "heap \<Rightarrow> addr \<Rightarrow> heap option" where
  "delete_message h a = do {
     m \<leftarrow> h a;
     ASSERT (delivery_failure_port m = kIllegalPort);
     Some (h(a := None))
   }"

definition IsOOB :: "message \<Rightarrow> bool" where
  "IsOOB m \<longleftrightarrow> msg_priority m = kOOBPriority"

definition RedirectToDeliveryFailurePort :: "heap \<Rightarrow> addr \<Rightarrow> (heap \<times> bool) option" where
  "RedirectToDeliveryFailurePort h a = do {
     m \<leftarrow> h a;
     if delivery_failure_port m = kIllegalPort then Some (h, False)
     else Some (h(a \<mapsto> m\<lparr>dest_port := delivery_failure_port m, delivery_failure_port := kIllegalPort\<rparr>), True)
   }"

subsection \<open>Queues\<close>

definition EmptyQueue :: message_queue where
  "EmptyQueue = \<lparr>head_ptr = None, tail_ptr = None\<rparr>"

definition IsEmpty :: "message_queue \<Rightarrow> bool" where
  "IsEmpty q \<longleftrightarrow> head_ptr q = None"

definition set_next :: "heap \<Rightarrow> addr \<Rightarrow> addr option \<Rightarrow> heap option" where
  "set_next h a p = do { m \<leftarrow> h a; Some (h(a \<mapsto> m\<lparr>next_ptr := p\<rparr>)) }"

text \<open>
  The loop of \<open>Enqueue\<close> that looks for the first message that is not a control message: it returns
  the message after which to insert, and its successor if there is one.
\<close>

partial_function (option) control_walk :: "heap \<Rightarrow> addr \<Rightarrow> (addr \<times> addr option) option" where
  "control_walk h cur = do {
     m \<leftarrow> h cur;
     case next_ptr m of
       None \<Rightarrow> Some (cur, None)
     | Some n \<Rightarrow> do {
         mn \<leftarrow> h n;
         if dest_port mn \<noteq> kIllegalPort then Some (cur, Some n) else control_walk h n
       }
   }"

declare control_walk.simps [code]

definition Enqueue :: "heap \<Rightarrow> message_queue \<Rightarrow> addr \<Rightarrow> bool \<Rightarrow> (heap \<times> message_queue) option" where
  "Enqueue h q msg before_events = do {
     m \<leftarrow> h msg;
     ASSERT (next_ptr m = None);
     case head_ptr q of
       None \<Rightarrow> do {
         ASSERT (tail_ptr q = None);
         Some (h, \<lparr>head_ptr = Some msg, tail_ptr = Some msg\<rparr>)
       }
     | Some hp \<Rightarrow> do {
         tp \<leftarrow> tail_ptr q;
         if \<not> before_events then do {
           h \<leftarrow> set_next h tp (Some msg);
           Some (h, q\<lparr>tail_ptr := Some msg\<rparr>)
         }
         else do {
           ASSERT (dest_port m = kIllegalPort);
           mh \<leftarrow> h hp;
           if dest_port mh \<noteq> kIllegalPort then do {
             h \<leftarrow> set_next h msg (Some hp);
             Some (h, q\<lparr>head_ptr := Some msg\<rparr>)
           }
           else do {
             (cur, nxt) \<leftarrow> control_walk h hp;
             case nxt of
               Some n \<Rightarrow> do {
                 h \<leftarrow> set_next h msg (Some n);
                 h \<leftarrow> set_next h cur (Some msg);
                 Some (h, q)
               }
             | None \<Rightarrow> do {
                 ASSERT (tp = cur);
                 mt \<leftarrow> h tp;
                 ASSERT (dest_port mt = kIllegalPort);
                 h \<leftarrow> set_next h tp (Some msg);
                 Some (h, q\<lparr>tail_ptr := Some msg\<rparr>)
               }
           }
         }
       }
   }"

text \<open>In the DEBUG build \<open>Dequeue\<close> links the message to itself, to catch a second \<open>Enqueue\<close>.\<close>

definition Dequeue :: "heap \<Rightarrow> message_queue \<Rightarrow> (heap \<times> message_queue \<times> addr option) option" where
  "Dequeue h q = (case head_ptr q of
     None \<Rightarrow> Some (h, q, None)
   | Some a \<Rightarrow> do {
       m \<leftarrow> h a;
       let q' = (if next_ptr m = None then \<lparr>head_ptr = None, tail_ptr = None\<rparr>
                 else q\<lparr>head_ptr := next_ptr m\<rparr>);
       h \<leftarrow> set_next h a (Some a);
       Some (h, q', Some a)
     })"

text \<open>The iterator's \<open>Next\<close> reads the current message; the loops over it count or compare.\<close>

partial_function (option) length_loop :: "heap \<Rightarrow> addr option \<Rightarrow> int \<Rightarrow> int option" where
  "length_loop h it len = (case it of
     None \<Rightarrow> Some len
   | Some a \<Rightarrow> do { m \<leftarrow> h a; length_loop h (next_ptr m) (len + 1) })"

definition Length :: "heap \<Rightarrow> message_queue \<Rightarrow> int option" where
  "Length h q = length_loop h (head_ptr q) 0"

partial_function (option) find_loop :: "heap \<Rightarrow> addr option \<Rightarrow> addr \<Rightarrow> addr option option" where
  "find_loop h it i = (case it of
     None \<Rightarrow> Some None
   | Some a \<Rightarrow> do { m \<leftarrow> h a; if a = i then Some (Some a) else find_loop h (next_ptr m) i })"

definition FindMessageById :: "heap \<Rightarrow> message_queue \<Rightarrow> addr \<Rightarrow> addr option option" where
  "FindMessageById h q i = find_loop h (head_ptr q) i"

declare length_loop.simps [code] find_loop.simps [code]

subsection \<open>The list a queue represents\<close>

fun lseg :: "heap \<Rightarrow> addr option \<Rightarrow> addr list \<Rightarrow> addr option \<Rightarrow> bool" where
  "lseg h p [] q = (p = q)"
| "lseg h p (a # as) q = (p = Some a \<and> (\<exists>m. h a = Some m \<and> lseg h (next_ptr m) as q))"

definition queue_rep :: "heap \<Rightarrow> message_queue \<Rightarrow> addr list \<Rightarrow> bool" where
  "queue_rep h q xs \<longleftrightarrow> lseg h (head_ptr q) xs None \<and> distinct xs \<and>
     tail_ptr q = (if xs = [] then None else Some (last xs))"

text \<open>Everything of a message but the link.\<close>

definition content :: "heap \<Rightarrow> addr \<Rightarrow> message option" where
  "content h a = map_option (\<lambda>m. m\<lparr>next_ptr := None\<rparr>) (h a)"

definition is_control :: "heap \<Rightarrow> addr \<Rightarrow> bool" where
  "is_control h a \<longleftrightarrow> (case h a of Some m \<Rightarrow> dest_port m = kIllegalPort | None \<Rightarrow> False)"

text \<open>The abstract operation: at the end, or behind the leading control messages.\<close>

definition insert_message :: "heap \<Rightarrow> addr list \<Rightarrow> addr \<Rightarrow> bool \<Rightarrow> addr list" where
  "insert_message h xs a before_events =
     (if before_events then takeWhile (is_control h) xs @ a # dropWhile (is_control h) xs else xs @ [a])"

lemma lseg_append: "lseg h p (xs @ ys) q \<longleftrightarrow> (\<exists>r. lseg h p xs r \<and> lseg h r ys q)"
  by (induction xs arbitrary: p) auto

lemma lseg_allocated: "lseg h p xs q \<Longrightarrow> a \<in> set xs \<Longrightarrow> \<exists>m. h a = Some m"
  by (induction xs arbitrary: p) auto

lemma lseg_cong: "(\<And>a. a \<in> set xs \<Longrightarrow> h' a = h a) \<Longrightarrow> lseg h' p xs q = lseg h p xs q"
  by (induction xs arbitrary: p) auto

lemma lseg_upd [simp]: "a \<notin> set xs \<Longrightarrow> lseg (h(a := x)) p xs q = lseg h p xs q"
  by (rule lseg_cong) auto

lemma lseg_last_link:
  assumes "lseg h p (xs @ [a]) q" "a \<notin> set xs" "h a = Some m"
  shows "lseg (h(a \<mapsto> m\<lparr>next_ptr := r\<rparr>)) p (xs @ [a]) r"
  using assms by (auto simp: lseg_append)

lemma lseg_unique: "lseg h p xs None \<Longrightarrow> lseg h p ys None \<Longrightarrow> xs = ys"
proof (induction xs arbitrary: p ys)
  case Nil
  then show ?case by (cases ys) auto
next
  case (Cons a xs)
  then show ?case by (cases ys) auto
qed

lemma queue_rep_unique: "queue_rep h q xs \<Longrightarrow> queue_rep h q ys \<Longrightarrow> xs = ys"
  using lseg_unique [of h "head_ptr q" xs ys] by (simp add: queue_rep_def)

lemma queue_rep_cong: "(\<And>a. a \<in> set xs \<Longrightarrow> h' a = h a) \<Longrightarrow> queue_rep h' q xs = queue_rep h q xs"
  using lseg_cong [of xs h' h "head_ptr q" None] by (simp add: queue_rep_def)

lemma queue_rep_empty [simp]: "queue_rep h EmptyQueue xs \<longleftrightarrow> xs = []"
  by (cases xs) (auto simp: queue_rep_def EmptyQueue_def)

lemma IsEmpty_rep: "queue_rep h q xs \<Longrightarrow> IsEmpty q \<longleftrightarrow> xs = []"
  by (cases xs) (auto simp: queue_rep_def IsEmpty_def)

subsection \<open>Enqueue\<close>

definition fresh :: "heap \<Rightarrow> addr list \<Rightarrow> addr \<Rightarrow> bool" where
  "fresh h xs a \<longleftrightarrow> a \<notin> set xs \<and> (\<exists>m. h a = Some m \<and> next_ptr m = None)"

text \<open>What \<open>Enqueue\<close> leaves alone: every message but its links, and memory outside the queue.\<close>

definition same_messages :: "heap \<Rightarrow> heap \<Rightarrow> addr set \<Rightarrow> bool" where
  "same_messages h h' A \<longleftrightarrow> (\<forall>b. content h' b = content h b) \<and> (\<forall>b. b \<notin> A \<longrightarrow> h' b = h b)"

lemma same_messages_upd:
  "h a = Some m \<Longrightarrow> a \<in> A \<Longrightarrow> same_messages h (h(a \<mapsto> m\<lparr>next_ptr := p\<rparr>)) A"
  by (simp add: same_messages_def content_def)

lemma same_messages_trans: "same_messages h k A \<Longrightarrow> same_messages k l A \<Longrightarrow> same_messages h l A"
  by (simp add: same_messages_def)

lemma same_messages_refl [simp]: "same_messages h h A"
  by (simp add: same_messages_def)

lemma control_walk_lseg:
  "lseg h (Some cur) xs None \<Longrightarrow> is_control h cur \<Longrightarrow>
     \<exists>c ys. control_walk h cur = Some (c, (if dropWhile (is_control h) xs = [] then None else Some (hd (dropWhile (is_control h) xs)))) \<and>
       takeWhile (is_control h) xs = ys @ [c]"
proof (induction xs arbitrary: cur)
  case outer: (Cons a xs)
  then obtain m where m: "a = cur" "h cur = Some m" "lseg h (next_ptr m) xs None" by auto
  show ?case
  proof (cases xs)
    case Nil
    then show ?thesis using m outer.prems(2) by (subst control_walk.simps) auto
  next
    case xs: (Cons b ys)
    then obtain mb where b: "next_ptr m = Some b" "h b = Some mb" using m by auto
    show ?thesis
    proof (cases "is_control h b")
      case True
      have "lseg h (Some b) xs None" using m(3) b(1) by simp
      from outer.IH [OF this True] obtain c zs where
        c: "control_walk h b = Some (c, (if dropWhile (is_control h) xs = [] then None else Some (hd (dropWhile (is_control h) xs))))"
        "takeWhile (is_control h) xs = zs @ [c]" by blast
      have w: "control_walk h cur = control_walk h b"
        using m b True by (subst control_walk.simps) (simp add: is_control_def)
      show ?thesis unfolding w c using m(1) c(2) outer.prems(2) by simp
    next
      case False
      then have "control_walk h cur = Some (cur, Some b)"
        using m b by (subst control_walk.simps) (simp add: is_control_def)
      then show ?thesis using m(1) xs False outer.prems(2) by simp
    qed
  qed
qed simp

lemma Enqueue_append:
  assumes q: "queue_rep h q xs" and a: "fresh h xs a"
  shows "\<exists>h' q'. Enqueue h q a False = Some (h', q') \<and> queue_rep h' q' (xs @ [a]) \<and>
    same_messages h h' (insert a (set xs))"
proof -
  obtain m where m: "h a = Some m" "next_ptr m = None" "a \<notin> set xs" using a by (auto simp: fresh_def)
  show ?thesis
  proof (cases xs rule: rev_cases)
    case Nil
    then show ?thesis using q m by (auto simp: Enqueue_def queue_rep_def)
  next
    case (snoc ys z)
    have seg: "lseg h (head_ptr q) (ys @ [z]) None" "distinct (ys @ [z])" "tail_ptr q = Some z"
      using q snoc by (auto simp: queue_rep_def)
    obtain mz where z: "h z = Some mz" using lseg_allocated [OF seg(1), of z] by auto
    obtain p where p: "head_ptr q = Some p" using seg(1) by (cases ys) auto
    let ?h = "h(z \<mapsto> mz\<lparr>next_ptr := Some a\<rparr>)" and ?q = "q\<lparr>tail_ptr := Some a\<rparr>"
    have "Enqueue h q a False = Some (?h, ?q)" using m p seg(3) z by (simp add: Enqueue_def set_next_def)
    moreover have "lseg ?h (head_ptr q) (ys @ [z]) (Some a)"
      using lseg_last_link [OF seg(1) _ z] seg(2) by simp
    then have "lseg ?h (head_ptr q) ((ys @ [z]) @ [a]) None" using m snoc by (subst lseg_append) auto
    moreover have "same_messages h ?h (insert a (set xs))" using same_messages_upd [of h z mz] z snoc by simp
    ultimately show ?thesis using snoc m seg(2) by (auto simp: queue_rep_def)
  qed
qed

lemma Enqueue_before:
  assumes q: "queue_rep h q xs" and a: "fresh h xs a" and control: "is_control h a"
  shows "\<exists>h' q'. Enqueue h q a True = Some (h', q') \<and>
    queue_rep h' q' (takeWhile (is_control h) xs @ a # dropWhile (is_control h) xs) \<and>
    same_messages h h' (insert a (set xs))"
proof -
  obtain m where m: "h a = Some m" "next_ptr m = None" "a \<notin> set xs" "dest_port m = kIllegalPort"
    using a control by (auto simp: fresh_def is_control_def)
  have seg: "lseg h (head_ptr q) xs None" "distinct xs" using q by (auto simp: queue_rep_def)
  show ?thesis
  proof (cases xs)
    case Nil
    then show ?thesis using q m by (auto simp: Enqueue_def queue_rep_def)
  next
    case xs: (Cons x ys)
    then obtain mx z where x: "head_ptr q = Some x" "h x = Some mx" "tail_ptr q = Some z" "z = last xs"
      using q by (auto simp: queue_rep_def)
    show ?thesis
    proof (cases "is_control h x")
      case False
      let ?h = "h(a \<mapsto> m\<lparr>next_ptr := Some x\<rparr>)" and ?q = "q\<lparr>head_ptr := Some a\<rparr>"
      have "Enqueue h q a True = Some (?h, ?q)"
        using m x False by (simp add: Enqueue_def set_next_def is_control_def)
      moreover have "queue_rep ?h ?q (a # xs)"
        using q m x seg by (auto simp: queue_rep_def)
      ultimately show ?thesis using xs False same_messages_upd [of h a m] m(1) by simp
    next
      case True
      define ts ds where "ts = takeWhile (is_control h) xs" and "ds = dropWhile (is_control h) xs"
      note tsds = ts_def [symmetric] ds_def [symmetric]
      obtain c cs where w: "control_walk h x = Some (c, if ds = [] then None else Some (hd ds))" "ts = cs @ [c]"
        using control_walk_lseg [of h x xs] seg(1) x(1) True unfolding tsds by auto
      have split: "xs = cs @ c # ds" using w(2) takeWhile_dropWhile_id [of "is_control h" xs] unfolding tsds by simp
      have dist: "c \<notin> set cs" "c \<notin> set ds" "c \<in> set xs" "distinct (cs @ c # ds)" "a \<notin> set (cs @ c # ds)"
        using seg(2) m(3) unfolding split by auto
      have cc: "is_control h c" using w(2) set_takeWhileD [of c "is_control h" xs] unfolding tsds by simp
      obtain mc where c: "h c = Some mc" using lseg_allocated [OF seg(1) dist(3)] by auto
      have lc: "lseg h (head_ptr q) (cs @ [c]) (next_ptr mc)" "lseg h (next_ptr mc) ds None"
        using seg(1) c unfolding split by (auto simp: lseg_append)
      let ?k = "h(a \<mapsto> m\<lparr>next_ptr := next_ptr mc\<rparr>)"
      let ?h = "?k(c \<mapsto> mc\<lparr>next_ptr := Some a\<rparr>)"
      have "a \<noteq> c" "a \<notin> set cs" "a \<notin> set ds" using dist(5) by auto
      then have "lseg ?h (head_ptr q) (cs @ [c]) (Some a)"
        using lseg_last_link [OF _ dist(1), of ?k "head_ptr q" "next_ptr mc" mc "Some a"] lc c by (simp add: lseg_append)
      moreover have "lseg ?h (Some a) (a # ds) None" using lc(2) \<open>a \<noteq> c\<close> \<open>a \<notin> set ds\<close> dist by simp
      ultimately have L: "lseg ?h (head_ptr q) (ts @ a # ds) None" unfolding w(2) lseg_append by blast
      have D: "distinct (ts @ a # ds)" using dist(4,5) w(2) by auto
      have S: "same_messages h ?h (insert a (set xs))"
        by (rule same_messages_trans [of h ?k]; rule same_messages_upd) (use m(1) c dist(3) \<open>a \<noteq> c\<close> in auto)
      have "\<exists>h' q'. Enqueue h q a True = Some (h', q') \<and> queue_rep h' q' (ts @ a # ds) \<and>
        same_messages h h' (insert a (set xs))"
      proof (cases ds)
        case Nil
        then have n: "next_ptr mc = None" "z = c" using lc(2) x(4) split by (auto simp: Nil)
        have "?k = h" using m n by (auto simp: fun_eq_iff)
        moreover have "Enqueue h q a True = Some (h(c \<mapsto> mc\<lparr>next_ptr := Some a\<rparr>), q\<lparr>tail_ptr := Some a\<rparr>)"
          using m x True w(1) Nil n c cc by (simp add: Enqueue_def set_next_def is_control_def)
        ultimately show ?thesis using L D S Nil by (auto simp: queue_rep_def)
      next
        case ds: (Cons d es)
        then have n: "next_ptr mc = Some d" using lc(2) by auto
        have "Enqueue h q a True = Some (?h, q)"
          using m x True w(1) ds n c \<open>a \<noteq> c\<close> by (simp add: Enqueue_def set_next_def is_control_def)
        moreover have "last (ts @ a # ds) = z" using ds x(4) split by simp
        ultimately show ?thesis using L D S x(3) by (auto simp: queue_rep_def)
      qed
      then show ?thesis unfolding tsds .
    qed
  qed
qed

lemma Enqueue_rep:
  assumes "queue_rep h q xs" "fresh h xs a" "before_events \<Longrightarrow> is_control h a"
  shows "\<exists>h' q'. Enqueue h q a before_events = Some (h', q') \<and>
    queue_rep h' q' (insert_message h xs a before_events) \<and> same_messages h h' (insert a (set xs))"
  using Enqueue_append [OF assms(1,2)] Enqueue_before [OF assms(1,2)] assms(3)
  by (cases before_events) (simp_all add: insert_message_def)

subsection \<open>Dequeue\<close>

lemma Dequeue_empty: "queue_rep h q [] \<Longrightarrow> Dequeue h q = Some (h, q, None)"
  by (simp add: queue_rep_def Dequeue_def)

lemma Dequeue_rep:
  assumes "queue_rep h q (a # xs)"
  shows "\<exists>h' q'. Dequeue h q = Some (h', q', Some a) \<and> queue_rep h' q' xs \<and> same_messages h h' {a}"
proof -
  obtain m where m: "head_ptr q = Some a" "h a = Some m" "lseg h (next_ptr m) xs None" "distinct (a # xs)"
    "tail_ptr q = Some (last (a # xs))"
    using assms by (auto simp: queue_rep_def)
  let ?h = "h(a \<mapsto> m\<lparr>next_ptr := Some a\<rparr>)"
  let ?q = "if next_ptr m = None then \<lparr>head_ptr = None, tail_ptr = None\<rparr> else q\<lparr>head_ptr := next_ptr m\<rparr>"
  have "Dequeue h q = Some (?h, ?q, Some a)" using m by (simp add: Dequeue_def set_next_def Let_def)
  moreover have "queue_rep ?h ?q xs" using m by (cases xs) (auto simp: queue_rep_def)
  moreover have "same_messages h ?h {a}" using same_messages_upd [of h a m] m(2) by simp
  ultimately show ?thesis by blast
qed

text \<open>A queue that does not share messages with the one operated on keeps what it represents.\<close>

lemma queue_rep_frame:
  assumes "queue_rep h q xs" "same_messages h h' A" "set xs \<inter> A = {}"
  shows "queue_rep h' q xs"
  using assms queue_rep_cong [of xs h' h q] by (auto simp: same_messages_def)

lemma content_fields:
  assumes "content h' a = content h a" "h a = Some m" "h' a = Some m'"
  shows "dest_port m' = dest_port m" "msg_priority m' = msg_priority m"
    "delivery_failure_port m' = delivery_failure_port m" "msg_data m' = msg_data m"
proof -
  have e: "m'\<lparr>next_ptr := None\<rparr> = m\<lparr>next_ptr := None\<rparr>" using assms by (simp add: content_def)
  show "dest_port m' = dest_port m" using arg_cong [OF e, of dest_port] by simp
  show "msg_priority m' = msg_priority m" using arg_cong [OF e, of msg_priority] by simp
  show "delivery_failure_port m' = delivery_failure_port m" using arg_cong [OF e, of delivery_failure_port] by simp
  show "msg_data m' = msg_data m" using arg_cong [OF e, of msg_data] by simp
qed

lemma same_messages_content:
  assumes "same_messages h h' A"
  shows "is_control h' a = is_control h a" "(h' a = None) = (h a = None)"
proof -
  have e: "content h' a = content h a" using assms by (simp add: same_messages_def)
  then show n: "(h' a = None) = (h a = None)" by (auto simp: content_def)
  show "is_control h' a = is_control h a"
  proof (cases "h a")
    case (Some m)
    then obtain m' where "h' a = Some m'" using n by auto
    with Some content_fields(1) [OF e Some this] show ?thesis by (simp add: is_control_def)
  qed (use n in \<open>simp add: is_control_def\<close>)
qed

subsection \<open>Iteration\<close>

lemma length_loop_lseg: "lseg h p xs None \<Longrightarrow> length_loop h p n = Some (n + int (length xs))"
proof (induction xs arbitrary: p n)
  case Nil
  then show ?case by (subst length_loop.simps) simp
next
  case (Cons a xs)
  then show ?case by (subst length_loop.simps) auto
qed

lemma find_loop_lseg: "lseg h p xs None \<Longrightarrow> find_loop h p i = Some (if i \<in> set xs then Some i else None)"
proof (induction xs arbitrary: p)
  case Nil
  then show ?case by (subst find_loop.simps) simp
next
  case (Cons a xs)
  then show ?case by (subst find_loop.simps) auto
qed

lemma Length_rep: "queue_rep h q xs \<Longrightarrow> Length h q = Some (int (length xs))"
  using length_loop_lseg [of h "head_ptr q" xs 0] by (simp add: queue_rep_def Length_def)

lemma FindMessageById_rep: "queue_rep h q xs \<Longrightarrow> FindMessageById h q i = Some (if i \<in> set xs then Some i else None)"
  by (simp add: queue_rep_def FindMessageById_def find_loop_lseg)

subsection \<open>What the users of a queue rely on\<close>

text \<open>
  A first-in first-out queue over a state: \<open>rep s q xs\<close> says that \<open>q\<close> holds \<open>xs\<close>, and
  \<open>ready s xs a\<close> that \<open>a\<close> may be enqueued.
\<close>

locale fifo_queue =
  fixes rep :: "'s \<Rightarrow> 'q \<Rightarrow> 'a list \<Rightarrow> bool"
    and ready :: "'s \<Rightarrow> 'a list \<Rightarrow> 'a \<Rightarrow> bool"
    and enq :: "'s \<Rightarrow> 'q \<Rightarrow> 'a \<Rightarrow> ('s \<times> 'q) option"
    and deq :: "'s \<Rightarrow> 'q \<Rightarrow> ('s \<times> 'q \<times> 'a option) option"
  assumes enq_law: "rep s q xs \<Longrightarrow> ready s xs a \<Longrightarrow>
      \<exists>s' q'. enq s q a = Some (s', q') \<and> rep s' q' (xs @ [a]) \<and>
        (\<forall>b. b \<noteq> a \<longrightarrow> ready s xs b \<longrightarrow> ready s' (xs @ [a]) b)"
    and deq_empty: "rep s q [] \<Longrightarrow> deq s q = Some (s, q, None)"
    and deq_law: "rep s q (a # xs) \<Longrightarrow> \<exists>s' q'. deq s q = Some (s', q', Some a) \<and> rep s' q' xs"
begin

fun enq_all :: "'s \<Rightarrow> 'q \<Rightarrow> 'a list \<Rightarrow> ('s \<times> 'q) option" where
  "enq_all s q [] = Some (s, q)"
| "enq_all s q (a # as) = do { (s, q) \<leftarrow> enq s q a; enq_all s q as }"

fun deq_all :: "nat \<Rightarrow> 's \<Rightarrow> 'q \<Rightarrow> 'a list option" where
  "deq_all 0 s q = Some []"
| "deq_all (Suc n) s q = do {
     (s, q, r) \<leftarrow> deq s q;
     case r of None \<Rightarrow> Some [] | Some a \<Rightarrow> do { as \<leftarrow> deq_all n s q; Some (a # as) }
   }"

lemma enq_all_rep:
  "rep s q xs \<Longrightarrow> distinct as \<Longrightarrow> \<forall>a \<in> set as. ready s xs a \<Longrightarrow>
     \<exists>s' q'. enq_all s q as = Some (s', q') \<and> rep s' q' (xs @ as)"
proof (induction as arbitrary: s q xs)
  case (Cons a as)
  have "ready s xs a" using Cons.prems(3) by simp
  from enq_law [OF Cons.prems(1) this] obtain s' q' where e: "enq s q a = Some (s', q')" "rep s' q' (xs @ [a])"
    "\<forall>b. b \<noteq> a \<longrightarrow> ready s xs b \<longrightarrow> ready s' (xs @ [a]) b" by blast
  have "\<forall>b \<in> set as. ready s' (xs @ [a]) b" using Cons.prems e(3) by auto
  from Cons.IH [OF e(2) _ this] Cons.prems(2) e(1) show ?case by auto
qed simp

lemma deq_all_rep: "rep s q xs \<Longrightarrow> length xs < n \<Longrightarrow> deq_all n s q = Some xs"
proof (induction n arbitrary: s q xs)
  case (Suc n)
  show ?case
  proof (cases xs)
    case Nil
    then show ?thesis using Suc.prems deq_empty by simp
  next
    case xs: (Cons a ys)
    then obtain s' q' where "deq s q = Some (s', q', Some a)" "rep s' q' ys" using deq_law Suc.prems by blast
    then show ?thesis using Suc.IH [of s' q' ys] Suc.prems xs by simp
  qed
qed simp

lemma fifo:
  assumes "rep s q xs" "distinct as" "\<forall>a \<in> set as. ready s xs a"
  shows "\<exists>s' q'. enq_all s q as = Some (s', q') \<and> deq_all (Suc (length xs + length as)) s' q' = Some (xs @ as)"
proof -
  obtain s' q' where "enq_all s q as = Some (s', q')" "rep s' q' (xs @ as)" using enq_all_rep [OF assms] by blast
  with deq_all_rep [of s' q' "xs @ as" "Suc (length xs + length as)"] show ?thesis by auto
qed

end

lemma fresh_same:
  assumes "same_messages h h' (insert a (set xs))" "b \<noteq> a" "fresh h xs b" "set ys = insert a (set xs)"
  shows "fresh h' ys b"
  using assms by (auto simp: fresh_def same_messages_def)

interpretation event_queue: fifo_queue queue_rep fresh "\<lambda>h q a. Enqueue h q a False" Dequeue
proof
  fix h q xs a
  assume *: "queue_rep h q xs" "fresh h xs a"
  from Enqueue_append [OF *] obtain h' q' where e: "Enqueue h q a False = Some (h', q')"
    "queue_rep h' q' (xs @ [a])" "same_messages h h' (insert a (set xs))" by blast
  show "\<exists>h' q'. Enqueue h q a False = Some (h', q') \<and> queue_rep h' q' (xs @ [a]) \<and>
      (\<forall>b. b \<noteq> a \<longrightarrow> fresh h xs b \<longrightarrow> fresh h' (xs @ [a]) b)"
    using e fresh_same [OF e(3)] by auto
next
  fix h :: heap and q
  assume "queue_rep h q []"
  then show "Dequeue h q = Some (h, q, None)" by (rule Dequeue_empty)
next
  fix h q a xs
  assume "queue_rep h q (a # xs)"
  from Dequeue_rep [OF this] show "\<exists>h' q'. Dequeue h q = Some (h', q', Some a) \<and> queue_rep h' q' xs" by blast
qed

text \<open>Control messages among themselves are served in order, too.\<close>

lemma takeWhile_all: "\<forall>a \<in> set xs. P a \<Longrightarrow> takeWhile P xs = xs \<and> dropWhile P xs = []"
  by (induction xs) auto

interpretation control_queue: fifo_queue "\<lambda>h q xs. queue_rep h q xs \<and> (\<forall>a \<in> set xs. is_control h a)"
    "\<lambda>h xs a. fresh h xs a \<and> is_control h a" "\<lambda>h q a. Enqueue h q a True" Dequeue
proof
  fix h q xs a
  assume r: "queue_rep h q xs \<and> (\<forall>a \<in> set xs. is_control h a)" and f: "fresh h xs a \<and> is_control h a"
  from Enqueue_before [of h q xs a] r f obtain h' q' where e: "Enqueue h q a True = Some (h', q')"
    "queue_rep h' q' (xs @ [a])" "same_messages h h' (insert a (set xs))" by (auto simp: takeWhile_all)
  show "\<exists>h' q'. Enqueue h q a True = Some (h', q') \<and>
      (queue_rep h' q' (xs @ [a]) \<and> (\<forall>a \<in> set (xs @ [a]). is_control h' a)) \<and>
      (\<forall>b. b \<noteq> a \<longrightarrow> fresh h xs b \<and> is_control h b \<longrightarrow> fresh h' (xs @ [a]) b \<and> is_control h' b)"
    using e r f fresh_same [OF e(3)] same_messages_content(1) [OF e(3)] by auto
next
  fix h :: heap and q
  assume "queue_rep h q [] \<and> (\<forall>a \<in> set []. is_control h a)"
  then show "Dequeue h q = Some (h, q, None)" by (simp add: Dequeue_empty)
next
  fix h q a xs
  assume r: "queue_rep h q (a # xs) \<and> (\<forall>b \<in> set (a # xs). is_control h b)"
  then obtain h' q' where e: "Dequeue h q = Some (h', q', Some a)" "queue_rep h' q' xs" "same_messages h h' {a}"
    using Dequeue_rep by blast
  then show "\<exists>h' q'. Dequeue h q = Some (h', q', Some a) \<and> (queue_rep h' q' xs \<and> (\<forall>a \<in> set xs. is_control h' a))"
    using r same_messages_content(1) [OF e(3)] by auto
qed

subsection \<open>Properties\<close>

text \<open>
  C20: \<open>Enqueue\<close> implements the abstract insertion: no assertion fails for a message that is not
  linked, the list grows by the message at the end (or, for control messages, behind the leading
  control messages), no message changes but for its link, and memory outside the queue is untouched.
\<close>

theorem Enqueue_refines:
  assumes "queue_rep h q xs" "fresh h xs a" "before_events \<Longrightarrow> is_control h a"
  shows "\<exists>h' q'. Enqueue h q a before_events = Some (h', q') \<and>
    queue_rep h' q' (insert_message h xs a before_events) \<and> same_messages h h' (insert a (set xs))"
  using assms by (rule Enqueue_rep)

definition demo_message :: "dart_port \<Rightarrow> message" where
  "demo_message p = \<lparr>next_ptr = None, dest_port = p, delivery_failure_port = 0, msg_data = [], msg_priority = kNormalPriority\<rparr>"

definition demo_heap :: heap where
  "demo_heap = (\<lambda>_. None)(1 \<mapsto> demo_message 7, 2 \<mapsto> demo_message 8, 3 \<mapsto> demo_message 0, 4 \<mapsto> demo_message 0)"

lemmas demo_queue_defs = demo_heap_def demo_message_def fresh_def is_control_def kIllegalPort_def

theorem Enqueue_refines_witness:
  "\<exists>h' q'. Enqueue demo_heap EmptyQueue 3 True = Some (h', q') \<and> queue_rep h' q' [3] \<and> same_messages demo_heap h' {3}"
  using Enqueue_refines [of demo_heap EmptyQueue "[]" 3 True] by (auto simp: demo_queue_defs insert_message_def)

text \<open>
  C21: Messages leave a queue in the order in which they were enqueued as events, each exactly once.
\<close>

theorem events_first_in_first_out:
  assumes "queue_rep h q xs" "distinct as" "\<forall>a \<in> set as. fresh h xs a"
  shows "\<exists>h' q'. event_queue.enq_all h q as = Some (h', q') \<and>
    event_queue.deq_all (Suc (length xs + length as)) h' q' = Some (xs @ as) \<and> Length h' q' = Some (int (length xs + length as))"
proof -
  obtain h' q' where "event_queue.enq_all h q as = Some (h', q')" "queue_rep h' q' (xs @ as)"
    using event_queue.enq_all_rep [OF assms] by blast
  with event_queue.deq_all_rep [of h' q' "xs @ as" "Suc (length xs + length as)"] Length_rep [of h' q' "xs @ as"]
  show ?thesis by auto
qed

theorem events_first_in_first_out_witness:
  "\<exists>h' q'. event_queue.enq_all demo_heap EmptyQueue [2, 1] = Some (h', q') \<and>
    event_queue.deq_all 3 h' q' = Some [2, 1] \<and> Length h' q' = Some 2"
  using events_first_in_first_out [of demo_heap EmptyQueue "[]" "[2, 1]"]
  by (auto simp: demo_queue_defs numeral_3_eq_3)

end
