(* ===== verification/Port_Map.thy ===== *)
theory Port_Map
  imports Dart_Random "HOL-Library.Multiset" "HOL-Library.Signed_Division" Message_Queue
begin

text \<open>
  The port map of \<open>vm/port.cc\<close>: an open-addressing hash table with linear probing that maps port
  ids to message handlers. This theory holds the table, \<open>Port_Messages\<close> the operations that also
  reach handlers and messages. A handler pointer is \<open>NULL\<close>, the marker \<open>deleted_entry_\<close>, or the
  identity of a handler. The array \<open>map_\<close> is a list; reading or writing outside of it is an error.
  C++'s \<open>%\<close> on signed operands is \<open>smod\<close>.
\<close>

unbundle bit_operations_syntax

datatype port_state = kNewPort | kLivePort | kControlPort

datatype hptr = HNull | HDeleted | Handler nat

record entry =
  entry_port :: dart_port
  entry_handler :: hptr
  entry_state :: port_state

record port_map =
  map_entries :: "entry list"
  capacity :: int
  used_count :: int
  deleted_count :: int
  prng :: "64 word"

text \<open>What \<open>memset\<close> with zero makes of an entry.\<close>

definition zero_entry :: entry where
  "zero_entry = \<lparr>entry_port = 0, entry_handler = HNull, entry_state = kNewPort\<rparr>"

subsection \<open>Operations\<close>

partial_function (option) find_loop_port :: "entry list \<Rightarrow> int \<Rightarrow> dart_port \<Rightarrow> int \<Rightarrow> int \<Rightarrow> int option" where
  "find_loop_port m cap port start index = do {
     e \<leftarrow> read_at m index;
     if entry_handler e = HNull then Some (-1)
     else if entry_port e = port then Some index
     else do {
       ASSERT ((index + 1) smod cap \<noteq> start);
       find_loop_port m cap port start ((index + 1) smod cap)
     }
   }"

definition FindPort :: "port_map \<Rightarrow> dart_port \<Rightarrow> int option" where
  "FindPort pm port =
     (if port = kIllegalPort then Some (-1)
      else find_loop_port (map_entries pm) (capacity pm) port (port smod capacity pm) (port smod capacity pm))"

text \<open>The search for an unused (free or deleted) slot, of \<open>Rehash\<close> and of \<open>CreatePort\<close>.\<close>

partial_function (option) unused_slot :: "entry list \<Rightarrow> int \<Rightarrow> int \<Rightarrow> int option" where
  "unused_slot m cap index = do {
     e \<leftarrow> read_at m index;
     if entry_port e \<noteq> 0 then unused_slot m cap ((index + 1) smod cap) else Some index
   }"

fun rehash_loop :: "entry list \<Rightarrow> int \<Rightarrow> entry list \<Rightarrow> entry list option" where
  "rehash_loop new_ports new_capacity [] = Some new_ports"
| "rehash_loop new_ports new_capacity (e # es) =
     (if entry_port e \<noteq> 0 then do {
        i \<leftarrow> unused_slot new_ports new_capacity (entry_port e smod new_capacity);
        new_ports \<leftarrow> write_at new_ports i e;
        rehash_loop new_ports new_capacity es
      }
      else rehash_loop new_ports new_capacity es)"

definition Rehash :: "port_map \<Rightarrow> int \<Rightarrow> port_map option" where
  "Rehash pm new_capacity = do {
     new_ports \<leftarrow> rehash_loop (replicate (nat new_capacity) zero_entry) new_capacity (map_entries pm);
     Some (pm\<lparr>map_entries := new_ports, capacity := new_capacity, deleted_count := 0\<rparr>)
   }"

definition PortStateString :: "port_state \<Rightarrow> string" where
  "PortStateString kind = (case kind of kNewPort \<Rightarrow> ''new'' | kLivePort \<Rightarrow> ''live'' | kControlPort \<Rightarrow> ''control'')"

definition draw_port :: "64 word \<Rightarrow> 64 word \<times> dart_port" where
  "draw_port s = (case NextUInt32 s of (s, r) \<Rightarrow> (s, uint (r AND 0x3fffffff)))"

partial_function (option) allocate_loop :: "port_map \<Rightarrow> dart_port \<Rightarrow> (port_map \<times> dart_port) option" where
  "allocate_loop pm result = do {
     i \<leftarrow> (if result = 0 then Some 0 else FindPort pm result);
     if i \<ge> 0
     then allocate_loop (pm\<lparr>prng := fst (draw_port (prng pm))\<rparr>) (snd (draw_port (prng pm)))
     else Some (pm, result)
   }"

definition AllocatePort :: "port_map \<Rightarrow> (port_map \<times> dart_port) option" where
  "AllocatePort pm = do {
     (pm, result) \<leftarrow> allocate_loop (pm\<lparr>prng := fst (draw_port (prng pm))\<rparr>) (snd (draw_port (prng pm)));
     ASSERT (result \<noteq> 0);
     i \<leftarrow> FindPort pm result;
     ASSERT (i < 0);
     Some (pm, result)
   }"

text \<open>Integer division truncates; the operand is not negative.\<close>

definition MaintainInvariants :: "port_map \<Rightarrow> port_map option" where
  "MaintainInvariants pm = (let empty = capacity pm - used_count pm - deleted_count pm in
     if used_count pm > (capacity pm sdiv 4) * 3 then Rehash pm (capacity pm * 2)
     else if empty < deleted_count pm then Rehash pm (capacity pm)
     else Some pm)"

definition CreatePort :: "port_map \<Rightarrow> nat \<Rightarrow> (port_map \<times> dart_port) option" where
  "CreatePort pm handler = do {
     (pm, port) \<leftarrow> AllocatePort pm;
     let entry = \<lparr>entry_port = port, entry_handler = Handler handler, entry_state = kNewPort\<rparr>;
     f \<leftarrow> FindPort pm port;
     ASSERT (f < 0);
     index \<leftarrow> unused_slot (map_entries pm) (capacity pm) (port smod capacity pm);
     ASSERT (index \<ge> 0 \<and> index < capacity pm);
     cur \<leftarrow> read_at (map_entries pm) index;
     ASSERT (entry_port cur = 0);
     ASSERT (entry_handler cur = HNull \<or> entry_handler cur = HDeleted);
     let deleted = (if entry_handler cur = HDeleted then deleted_count pm - 1 else deleted_count pm);
     m \<leftarrow> write_at (map_entries pm) index entry;
     pm \<leftarrow> MaintainInvariants (pm\<lparr>map_entries := m, deleted_count := deleted, used_count := used_count pm + 1\<rparr>);
     Some (pm, port)
   }"

text \<open>
  The part of \<open>ClosePort\<close> under the lock: it returns the handler of the closed port and whether
  the port was live, or \<open>None\<close> if there is no such port.
\<close>

definition close_entry :: "port_map \<Rightarrow> dart_port \<Rightarrow> (port_map \<times> (nat \<times> bool) option) option" where
  "close_entry pm port = do {
     index \<leftarrow> FindPort pm port;
     if index < 0 then Some (pm, None)
     else do {
       ASSERT (index < capacity pm);
       e \<leftarrow> read_at (map_entries pm) index;
       ASSERT (entry_port e \<noteq> 0);
       case entry_handler e of
         Handler handler \<Rightarrow> do {
           m \<leftarrow> write_at (map_entries pm) index (e\<lparr>entry_port := 0, entry_handler := HDeleted\<rparr>);
           pm \<leftarrow> MaintainInvariants (pm\<lparr>map_entries := m, used_count := used_count pm - 1,
                   deleted_count := deleted_count pm + 1\<rparr>);
           Some (pm, Some (handler, entry_state e = kLivePort))
         }
       | _ \<Rightarrow> None
     }
   }"

text \<open>The loop of \<open>ClosePorts\<close>: the entries of the handler are marked, live ones are counted.\<close>

fun close_entries :: "nat \<Rightarrow> entry list \<Rightarrow> entry list \<times> int \<times> int" where
  "close_entries handler [] = ([], 0, 0)"
| "close_entries handler (e # es) = (case close_entries handler es of (m, live, closed) \<Rightarrow>
     if entry_handler e = Handler handler
     then (e\<lparr>entry_port := 0, entry_handler := HDeleted\<rparr> # m, (if entry_state e = kLivePort then live + 1 else live), closed + 1)
     else (e # m, live, closed))"

definition set_entry_state :: "port_map \<Rightarrow> dart_port \<Rightarrow> port_state \<Rightarrow> (port_map \<times> nat) option" where
  "set_entry_state pm port st = do {
     index \<leftarrow> FindPort pm port;
     ASSERT (index \<ge> 0);
     e \<leftarrow> read_at (map_entries pm) index;
     ASSERT (entry_state e = kNewPort);
     m \<leftarrow> write_at (map_entries pm) index (e\<lparr>entry_state := st\<rparr>);
     case entry_handler e of Handler handler \<Rightarrow> Some (pm\<lparr>map_entries := m\<rparr>, handler) | _ \<Rightarrow> None
   }"

definition InitOnce :: "64 word \<Rightarrow> port_map option" where
  "InitOnce seed = do {
     s \<leftarrow> Initialize seed;
     Some \<lparr>map_entries = replicate 8 zero_entry, capacity = 8, used_count = 0, deleted_count = 0, prng = s\<rparr>
   }"

declare find_loop_port.simps [code] unused_slot.simps [code] allocate_loop.simps [code]

subsection \<open>Probing\<close>

lemma smod_nat: "0 < c \<Longrightarrow> int a smod int c = int (a mod c)"
  by (cases "a = 0") (simp_all add: signed_modulo_int_def zmod_int)

lemma next_index: "0 < c \<Longrightarrow> (int (i mod c) + 1) smod int c = int (Suc i mod c)"
  using smod_nat [of c "Suc (i mod c)"] by (simp add: mod_Suc_eq add.commute)

lemma mod_add_neq:
  assumes "0 < k" "k < (c::nat)"
  shows "(s + k) mod c \<noteq> s mod c"
proof
  assume "(s + k) mod c = s mod c"
  then have "c dvd (s + k) - s" by (subst mod_eq_dvd_iff_nat [symmetric]) simp_all
  then show False using assms by (auto dest: dvd_imp_le)
qed

text \<open>The number of probes from the home slot of a port to the slot \<open>i\<close>.\<close>

definition probes :: "nat \<Rightarrow> nat \<Rightarrow> nat \<Rightarrow> nat" where
  "probes c s i = (i + (c - s mod c)) mod c"

lemma probes_less: "0 < c \<Longrightarrow> probes c s i < c"
  by (simp add: probes_def)

lemma probes_slot:
  assumes "i < c"
  shows "(s + probes c s i) mod c = i"
proof -
  have "(s + probes c s i) mod c = (s mod c + (i + (c - s mod c))) mod c"
    unfolding probes_def by (metis mod_add_left_eq mod_add_right_eq)
  also have "s mod c + (i + (c - s mod c)) = i + c" using assms mod_less_divisor [of c s] by linarith
  finally show ?thesis using assms by simp
qed

lemma probes_inverse:
  assumes "d < c"
  shows "probes c s ((s + d) mod c) = d"
proof (rule ccontr)
  let ?p = "probes c s ((s + d) mod c)"
  have p: "?p < c" "(s + ?p) mod c = (s + d) mod c" using assms probes_less probes_slot by auto
  assume "?p \<noteq> d"
  then consider "?p < d" | "d < ?p" by linarith
  then show False
    using mod_add_neq [of "d - ?p" c "s + ?p"] mod_add_neq [of "?p - d" c "s + d"] assms p by cases (simp_all add: less_imp_diff_less)
qed

text \<open>Of the slots that satisfy a predicate, the first one in probe order.\<close>

lemma first_probe:
  assumes "i < c" "P i"
  obtains d where "d < c" "P ((s + d) mod c)" "\<And>k. k < d \<Longrightarrow> \<not> P ((s + k) mod c)" "d \<le> probes c s i"
proof -
  let ?Q = "\<lambda>d. P ((s + d) mod c)"
  have q: "?Q (probes c s i)" using assms probes_slot by simp
  have l: "(LEAST d. ?Q d) \<le> probes c s i" by (rule Least_le [of ?Q, OF q])
  show ?thesis
    by (rule that [of "LEAST d. ?Q d"])
      (use LeastI [of ?Q, OF q] not_less_Least [of _ ?Q] l probes_less [of c s i] assms(1) in auto)
qed

lemma find_loop_from:
  assumes c: "c = length m" "d < c"
    and go: "\<And>k. k < d \<Longrightarrow> entry_handler (m ! ((s + k) mod c)) \<noteq> HNull \<and> entry_port (m ! ((s + k) mod c)) \<noteq> port"
    and stop: "entry_handler (m ! ((s + d) mod c)) = HNull \<or> entry_port (m ! ((s + d) mod c)) = port"
    and j: "j \<le> d"
  shows "find_loop_port m (int c) port (int (s mod c)) (int ((s + j) mod c)) =
    Some (if entry_handler (m ! ((s + d) mod c)) = HNull then -1 else int ((s + d) mod c))"
  using j
proof (induction "d - j" arbitrary: j)
  case 0
  then have "j = d" "m \<noteq> []" using c by auto
  then show ?case using c stop by (subst find_loop_port.simps) auto
next
  case (Suc n)
  then have jd: "j < d" and ne: "m \<noteq> []" using c by auto
  have "(s + Suc j) mod c \<noteq> s mod c" using mod_add_neq [of "Suc j" c s] jd c by linarith
  moreover have "(int ((s + j) mod c) + 1) smod int c = int ((s + Suc j) mod c)" using next_index [of c "s + j"] c ne by simp
  moreover have "find_loop_port m (int c) port (int (s mod c)) (int ((s + Suc j) mod c)) =
      Some (if entry_handler (m ! ((s + d) mod c)) = HNull then -1 else int ((s + d) mod c))"
    using Suc jd by (intro Suc.hyps(1)) auto
  ultimately show ?case using c ne go [OF jd] by (subst find_loop_port.simps) simp
qed

lemma unused_slot_from:
  assumes c: "c = length m" "d < c"
    and go: "\<And>k. k < d \<Longrightarrow> entry_port (m ! ((s + k) mod c)) \<noteq> 0"
    and stop: "entry_port (m ! ((s + d) mod c)) = 0" and j: "j \<le> d"
  shows "unused_slot m (int c) (int ((s + j) mod c)) = Some (int ((s + d) mod c))"
  using j
proof (induction "d - j" arbitrary: j)
  case 0
  then have "j = d" "m \<noteq> []" using c by auto
  then show ?case using c stop by (subst unused_slot.simps) auto
next
  case (Suc n)
  then have jd: "j < d" and ne: "m \<noteq> []" using c by auto
  have "(int ((s + j) mod c) + 1) smod int c = int ((s + Suc j) mod c)" using next_index [of c "s + j"] c ne by simp
  moreover have "unused_slot m (int c) (int ((s + Suc j) mod c)) = Some (int ((s + d) mod c))"
    using Suc jd by (intro Suc.hyps(1)) auto
  ultimately show ?case using c ne go [OF jd] by (subst unused_slot.simps) simp
qed

subsection \<open>The invariant of the array\<close>

definition in_use :: "entry \<Rightarrow> bool" where
  "in_use e \<longleftrightarrow> entry_port e \<noteq> 0"

definition entry_ok :: "entry \<Rightarrow> bool" where
  "entry_ok e \<longleftrightarrow> 0 \<le> entry_port e \<and> (in_use e \<longleftrightarrow> entry_handler e \<noteq> HNull \<and> entry_handler e \<noteq> HDeleted)"

text \<open>The entries in use, with their multiplicity.\<close>

definition bag :: "entry list \<Rightarrow> entry multiset" where
  "bag m = filter_mset in_use (mset m)"

definition ports_distinct :: "entry list \<Rightarrow> bool" where
  "ports_distinct m \<longleftrightarrow> (\<forall>p. count (image_mset entry_port (bag m)) p \<le> 1)"

text \<open>No free slot between the home slot of a port and the slot it is in.\<close>

definition chained :: "entry list \<Rightarrow> bool" where
  "chained m \<longleftrightarrow> (\<forall>i < length m. in_use (m ! i) \<longrightarrow>
     (\<forall>k < probes (length m) (nat (entry_port (m ! i))) i.
        entry_handler (m ! ((nat (entry_port (m ! i)) + k) mod length m)) \<noteq> HNull))"

definition arr_ok :: "entry list \<Rightarrow> bool" where
  "arr_ok m \<longleftrightarrow> (\<forall>e \<in> set m. entry_ok e) \<and> ports_distinct m \<and> chained m"

lemma bag_update:
  assumes "i < length m"
  shows "bag (m[i := e]) + (if in_use (m ! i) then {#m ! i#} else {#}) = bag m + (if in_use e then {#e#} else {#})"
proof -
  obtain B where B: "mset m = add_mset (m ! i) B" using assms by (metis nth_mem_mset multi_member_split)
  then have "mset (m[i := e]) = add_mset e B" using assms by (simp add: mset_update)
  then show ?thesis by (simp add: bag_def B)
qed

lemma count_image_zero: "count (image_mset f M) x = 0 \<Longrightarrow> y \<in># M \<Longrightarrow> f y \<noteq> x"
  by (metis count_eq_zero_iff imageI set_image_mset)

lemma in_bag: "e \<in># bag m \<longleftrightarrow> e \<in> set m \<and> in_use e"
  by (simp add: bag_def)

lemma ports_distinct_unique:
  assumes d: "ports_distinct m" and e: "e \<in># bag m" "e' \<in># bag m" "entry_port e = entry_port e'"
  shows "e = e'"
proof (rule ccontr)
  assume n: "e \<noteq> e'"
  obtain B where B: "bag m = add_mset e B" using e(1) by (metis multi_member_split)
  then have "e' \<in># B" using e(2) n by auto
  then obtain C where "B = add_mset e' C" by (metis multi_member_split)
  then have "count (image_mset entry_port (bag m)) (entry_port e) \<ge> 2" using B e(3) by simp
  moreover have "count (image_mset entry_port (bag m)) (entry_port e) \<le> 1" using d by (simp add: ports_distinct_def)
  ultimately show False by linarith
qed

lemma unused_exists:
  assumes "size (bag m) < length m"
  shows "\<exists>i < length m. \<not> in_use (m ! i)"
proof (rule ccontr)
  assume "\<not> ?thesis"
  then have "filter_mset in_use (mset m) = mset m"
    by (intro filter_mset_eq_conv [THEN iffD2]) (auto simp: in_set_conv_nth)
  then show False using assms by (simp add: bag_def)
qed

subsection \<open>Searching and inserting\<close>

lemma port_home: "0 \<le> port \<Longrightarrow> 0 < c \<Longrightarrow> port smod int c = int (nat port mod c)"
  using smod_nat [of c "nat port"] by simp

text \<open>A search of an array with a free slot finds the entry of the port, or reports that there is none.\<close>

lemma find_loop_port_spec:
  assumes ok: "arr_ok m" and free: "i < length m" "entry_handler (m ! i) = HNull" and port: "0 < port"
  shows "\<exists>r. find_loop_port m (int (length m)) port (port smod int (length m)) (port smod int (length m)) = Some r \<and>
    (if \<exists>e \<in># bag m. entry_port e = port
     then 0 \<le> r \<and> r < int (length m) \<and> entry_port (m ! nat r) = port else r = -1)"
proof -
  let ?c = "length m" and ?s = "nat port"
  let ?stop = "\<lambda>i. entry_handler (m ! i) = HNull \<or> entry_port (m ! i) = port"
  have c0: "0 < ?c" using free by auto
  obtain d where d: "d < ?c" "?stop ((?s + d) mod ?c)" "\<And>k. k < d \<Longrightarrow> \<not> ?stop ((?s + k) mod ?c)"
    using first_probe [of i ?c ?stop ?s] free by blast
  define e where "e = m ! ((?s + d) mod ?c)"
  have em: "e \<in> set m" using c0 by (simp add: e_def)
  have find: "find_loop_port m (int ?c) port (port smod int ?c) (port smod int ?c) =
      Some (if entry_handler e = HNull then -1 else int ((?s + d) mod ?c))"
    using find_loop_from [OF refl d(1), of ?s port 0] d(2,3) port_home [of port ?c] port c0 by (simp add: e_def)
  have eok: "entry_ok e" using ok em by (simp add: arr_ok_def)
  show ?thesis
  proof (cases "\<exists>e' \<in># bag m. entry_port e' = port")
    case True
    then obtain j where j: "j < ?c" "in_use (m ! j)" "entry_port (m ! j) = port"
      by (auto simp: in_bag in_set_conv_nth)
    have "d \<le> probes ?c ?s j"
    proof (rule ccontr)
      assume "\<not> ?thesis"
      then have "\<not> ?stop ((?s + probes ?c ?s j) mod ?c)" using d(3) by simp
      then show False using j probes_slot [of j ?c ?s] by simp
    qed
    moreover have "entry_handler e \<noteq> HNull" if "d < probes ?c ?s j"
      using ok j that unfolding arr_ok_def chained_def e_def by auto
    moreover have "e = m ! j" if "d = probes ?c ?s j" using that j probes_slot [of j ?c ?s] by (simp add: e_def)
    moreover have "entry_ok (m ! j)" using ok j(1) by (simp add: arr_ok_def)
    ultimately have "entry_handler e \<noteq> HNull" using j(2) by (cases "d = probes ?c ?s j") (auto simp: entry_ok_def)
    then show ?thesis using True find d(2) c0 by (auto simp: e_def)
  next
    case False
    then have "entry_port e \<noteq> port" using em port by (auto simp: in_bag in_use_def)
    then have "entry_handler e = HNull" using d(2) by (simp add: e_def)
    then show ?thesis using False find by auto
  qed
qed

text \<open>Storing a new port in the first unused slot keeps the array well formed.\<close>

lemma insert_arr_ok:
  assumes ok: "arr_ok m" and room: "size (bag m) < length m"
    and e: "entry_ok e" "in_use e" "\<forall>e' \<in># bag m. entry_port e' \<noteq> entry_port e"
  shows "\<exists>i < length m. unused_slot m (int (length m)) (entry_port e smod int (length m)) = Some (int i) \<and>
    \<not> in_use (m ! i) \<and> arr_ok (m[i := e]) \<and> bag (m[i := e]) = add_mset e (bag m)"
proof -
  let ?c = "length m" and ?s = "nat (entry_port e)"
  obtain j where j: "j < ?c" "\<not> in_use (m ! j)" using unused_exists [OF room] by blast
  obtain d where d: "d < ?c" "\<not> in_use (m ! ((?s + d) mod ?c))" "\<And>k. k < d \<Longrightarrow> in_use (m ! ((?s + k) mod ?c))"
    by (rule first_probe [of j ?c "\<lambda>i. \<not> in_use (m ! i)" ?s, OF j]) blast
  define i where "i = (?s + d) mod ?c"
  have c0: "0 < ?c" using d(1) by auto
  have i: "i < ?c" "\<not> in_use (m ! i)" using c0 d(2) by (simp_all add: i_def)
  have slot: "unused_slot m (int ?c) (entry_port e smod int ?c) = Some (int i)"
    using unused_slot_from [OF refl d(1), of ?s 0] d(2,3) port_home [of "entry_port e" ?c] e(1) c0
    by (simp add: i_def in_use_def entry_ok_def)
  have bag: "bag (m[i := e]) = add_mset e (bag m)" using bag_update [OF i(1), of e] i(2) e(2) by simp
  have "ports_distinct (m[i := e])"
    unfolding ports_distinct_def bag
  proof
    fix p
    have "count (image_mset entry_port (bag m)) (entry_port e) = 0" using e(3) by (auto simp: count_eq_zero_iff)
    then show "count (image_mset entry_port (add_mset e (bag m))) p \<le> 1"
      using ok by (cases "p = entry_port e") (simp_all add: arr_ok_def ports_distinct_def)
  qed
  moreover have "\<forall>x \<in> set (m[i := e]). entry_ok x" using ok e(1) set_update_subset_insert [of m i e] by (auto simp: arr_ok_def)
  moreover have "chained (m[i := e])"
    unfolding chained_def length_list_update
  proof (intro allI impI)
    fix j k
    assume j: "j < ?c" "in_use (m[i := e] ! j)" and k: "k < probes ?c (nat (entry_port (m[i := e] ! j))) j"
    have null: "entry_handler (m[i := e] ! x) \<noteq> HNull" if "x = i \<or> entry_handler (m ! x) \<noteq> HNull" for x
      using that e(1,2) i(1) by (cases "x = i") (auto simp: entry_ok_def)
    show "entry_handler (m[i := e] ! ((nat (entry_port (m[i := e] ! j)) + k) mod ?c)) \<noteq> HNull"
    proof (cases "j = i")
      case True
      have "probes ?c ?s i = d" using probes_inverse [OF d(1), of ?s] by (simp add: i_def)
      then have "in_use (m ! ((?s + k) mod ?c))" using d(3) k True i(1) by simp
      moreover have "entry_ok (m ! ((?s + k) mod ?c))" using ok c0 by (simp add: arr_ok_def)
      ultimately have "entry_handler (m ! ((?s + k) mod ?c)) \<noteq> HNull" by (simp add: entry_ok_def)
      then show ?thesis using null True i(1) by simp
    next
      case False
      then have "in_use (m ! j)" "k < probes ?c (nat (entry_port (m ! j))) j" using j(2) k by simp_all
      moreover have "chained m" using ok by (simp add: arr_ok_def)
      ultimately have "entry_handler (m ! ((nat (entry_port (m ! j)) + k) mod ?c)) \<noteq> HNull"
        using j(1) unfolding chained_def by blast
      then show ?thesis using null False by simp
    qed
  qed
  ultimately have "arr_ok (m[i := e])" by (simp add: arr_ok_def)
  then show ?thesis using i slot bag by blast
qed

text \<open>Changing an entry in place, without freeing its slot or moving its port.\<close>

lemma chained_update:
  assumes ok: "chained m" and i: "i < length m" and e: "entry_handler e \<noteq> HNull"
    and port: "in_use e \<Longrightarrow> in_use (m ! i) \<and> entry_port e = entry_port (m ! i)"
  shows "chained (m[i := e])"
  unfolding chained_def length_list_update
proof (intro allI impI)
  fix j k
  assume j: "j < length m" "in_use (m[i := e] ! j)" and k: "k < probes (length m) (nat (entry_port (m[i := e] ! j))) j"
  have same: "in_use (m ! j) \<and> entry_port (m[i := e] ! j) = entry_port (m ! j)" using port j i by (cases "j = i") auto
  then have "entry_handler (m ! ((nat (entry_port (m ! j)) + k) mod length m)) \<noteq> HNull"
    using ok j(1) k unfolding chained_def by auto
  moreover have "entry_handler (m[i := e] ! x) \<noteq> HNull" if "entry_handler (m ! x) \<noteq> HNull" for x
    using that e i by (cases "x = i") auto
  ultimately show "entry_handler (m[i := e] ! ((nat (entry_port (m[i := e] ! j)) + k) mod length m)) \<noteq> HNull"
    using same by simp
qed

lemma entries_update: "\<forall>x \<in> set m. entry_ok x \<Longrightarrow> entry_ok e \<Longrightarrow> \<forall>x \<in> set (m[i := e]). entry_ok x"
  using set_update_subset_insert [of m i e] by blast

lemma delete_arr_ok:
  assumes ok: "arr_ok m" and i: "i < length m" "in_use (m ! i)" and e: "entry_port e = 0" "entry_handler e = HDeleted"
  shows "arr_ok (m[i := e])" and "bag m = add_mset (m ! i) (bag (m[i := e]))"
proof -
  have ne: "\<not> in_use e" using e by (simp add: in_use_def)
  show bag: "bag m = add_mset (m ! i) (bag (m[i := e]))" using bag_update [OF i(1), of e] i(2) ne by simp
  have "ports_distinct (m[i := e])"
    unfolding ports_distinct_def
  proof
    fix p
    have "count (image_mset entry_port (bag m)) p \<le> 1" using ok by (simp add: arr_ok_def ports_distinct_def)
    then show "count (image_mset entry_port (bag (m[i := e]))) p \<le> 1" unfolding bag by (simp split: if_splits)
  qed
  moreover have "\<forall>x \<in> set (m[i := e]). entry_ok x"
    using ok ne e by (intro entries_update) (auto simp: arr_ok_def entry_ok_def)
  moreover have "chained (m[i := e])" using ok e ne by (intro chained_update [OF _ i(1)]) (auto simp: arr_ok_def)
  ultimately show "arr_ok (m[i := e])" by (simp add: arr_ok_def)
qed

lemma set_state_arr_ok:
  assumes ok: "arr_ok m" and i: "i < length m" "in_use (m ! i)" and e: "e = (m ! i)\<lparr>entry_state := st\<rparr>"
  shows "arr_ok (m[i := e])" and "add_mset (m ! i) (bag (m[i := e])) = add_mset e (bag m)"
proof -
  have eok: "entry_ok (m ! i)" using ok i(1) by (simp add: arr_ok_def)
  have ie: "in_use e" "entry_ok e" "entry_port e = entry_port (m ! i)" "entry_handler e \<noteq> HNull"
    using i(2) eok by (simp_all add: e in_use_def entry_ok_def)
  show bag: "add_mset (m ! i) (bag (m[i := e])) = add_mset e (bag m)" using bag_update [OF i(1), of e] i(2) ie(1) by simp
  from arg_cong [OF bag, of "image_mset entry_port"]
  have "image_mset entry_port (bag (m[i := e])) = image_mset entry_port (bag m)" using ie(3) by simp
  then have "ports_distinct (m[i := e])" using ok by (simp add: arr_ok_def ports_distinct_def)
  moreover have "\<forall>x \<in> set (m[i := e]). entry_ok x"
    using ok ie(2) by (intro entries_update) (auto simp: arr_ok_def)
  moreover have "chained (m[i := e])" using ok ie i(2) by (intro chained_update [OF _ i(1)]) (auto simp: arr_ok_def)
  ultimately show "arr_ok (m[i := e])" by (simp add: arr_ok_def)
qed

subsection \<open>Rehashing\<close>

lemma bag_Nil [simp]: "bag [] = {#}"
  by (simp add: bag_def)

lemma bag_Cons [simp]: "bag (e # es) = (if in_use e then add_mset e (bag es) else bag es)"
  by (simp add: bag_def)

lemma bag_zero [simp]: "bag (replicate n zero_entry) = {#}"
  by (induction n) (simp_all add: zero_entry_def in_use_def)

lemma arr_ok_zero: "arr_ok (replicate n zero_entry)"
  by (simp add: arr_ok_def ports_distinct_def chained_def) (simp add: zero_entry_def entry_ok_def in_use_def)

definition no_deleted :: "entry list \<Rightarrow> bool" where
  "no_deleted m \<longleftrightarrow> (\<forall>e \<in> set m. entry_handler e \<noteq> HDeleted)"

lemma rehash_loop_ok:
  assumes "arr_ok new" "no_deleted new" "\<forall>e \<in> set es. entry_ok e"
    "\<forall>p. count (image_mset entry_port (bag new + bag es)) p \<le> 1" "size (bag new) + size (bag es) \<le> length new"
  shows "\<exists>new'. rehash_loop new (int (length new)) es = Some new' \<and> arr_ok new' \<and> no_deleted new' \<and>
    length new' = length new \<and> bag new' = bag new + bag es"
  using assms
proof (induction es arbitrary: new)
  case (Cons e es)
  show ?case
  proof (cases "in_use e")
    case True
    have room: "size (bag new) < length new" using Cons.prems(5) True by simp
    have eok: "entry_ok e" using Cons.prems(3) by simp
    have "count (image_mset entry_port (bag new + bag (e # es))) (entry_port e) \<le> 1" using Cons.prems(4) by blast
    then have "count (image_mset entry_port (bag new)) (entry_port e) = 0" using True by simp
    then have new: "\<forall>e' \<in># bag new. entry_port e' \<noteq> entry_port e" by (blast dest: count_image_zero)
    from insert_arr_ok [OF Cons.prems(1) room eok True new] obtain i where
      i: "i < length new" "unused_slot new (int (length new)) (entry_port e smod int (length new)) = Some (int i)"
        "arr_ok (new[i := e])" "bag (new[i := e]) = add_mset e (bag new)" by blast
    have nd: "no_deleted (new[i := e])"
      using Cons.prems(2) eok True set_update_subset_insert [of new i e] by (auto simp: no_deleted_def entry_ok_def)
    have d: "\<forall>p. count (image_mset entry_port (bag (new[i := e]) + bag es)) p \<le> 1"
      using Cons.prems(4) True unfolding i(4) by simp
    have "\<exists>new'. rehash_loop (new[i := e]) (int (length (new[i := e]))) es = Some new' \<and> arr_ok new' \<and> no_deleted new' \<and>
        length new' = length (new[i := e]) \<and> bag new' = bag (new[i := e]) + bag es"
      by (rule Cons.IH [OF i(3) nd _ d]) (use Cons.prems(3,5) i(4) True in auto)
    then show ?thesis using i True by (auto simp: in_use_def)
  next
    case False
    then have "\<exists>new'. rehash_loop new (int (length new)) es = Some new' \<and> arr_ok new' \<and> no_deleted new' \<and>
        length new' = length new \<and> bag new' = bag new + bag es"
      using Cons.prems by (intro Cons.IH) auto
    then show ?thesis using False by (auto simp: in_use_def)
  qed
qed simp

lemma Rehash_ok:
  assumes "arr_ok (map_entries pm)" "size (bag (map_entries pm)) \<le> n"
  shows "\<exists>m. Rehash pm (int n) = Some (pm\<lparr>map_entries := m, capacity := int n, deleted_count := 0\<rparr>) \<and>
    arr_ok m \<and> no_deleted m \<and> length m = n \<and> bag m = bag (map_entries pm)"
proof -
  have "no_deleted (replicate n zero_entry)" by (simp add: no_deleted_def zero_entry_def)
  moreover have "\<forall>p. count (image_mset entry_port (bag (replicate n zero_entry) + bag (map_entries pm))) p \<le> 1"
    using assms(1) by (simp add: arr_ok_def ports_distinct_def)
  ultimately show ?thesis
    using rehash_loop_ok [OF arr_ok_zero, of n "map_entries pm"] assms by (auto simp: Rehash_def arr_ok_def)
qed

subsection \<open>The invariant of the port map\<close>

definition deleted_bag :: "entry list \<Rightarrow> entry multiset" where
  "deleted_bag m = filter_mset (\<lambda>e. entry_handler e = HDeleted) (mset m)"

definition counts_ok :: "port_map \<Rightarrow> bool" where
  "counts_ok pm \<longleftrightarrow> arr_ok (map_entries pm) \<and> capacity pm = int (length (map_entries pm)) \<and> 8 \<le> capacity pm \<and>
     used_count pm = int (size (bag (map_entries pm))) \<and> deleted_count pm = int (size (deleted_bag (map_entries pm)))"

text \<open>What \<open>MaintainInvariants\<close> adds: a quarter of the slots are unused, and not too many of them deleted.\<close>

definition pm_inv :: "port_map \<Rightarrow> bool" where
  "pm_inv pm \<longleftrightarrow> counts_ok pm \<and> used_count pm \<le> (capacity pm sdiv 4) * 3 \<and>
     deleted_count pm \<le> capacity pm - used_count pm - deleted_count pm"

lemma sdiv4: "0 \<le> c \<Longrightarrow> (c :: int) sdiv 4 = c div 4"
  by (cases "c = 0") (simp_all add: signed_divide_int_def)

lemma no_deleted_bag [simp]: "no_deleted m \<Longrightarrow> deleted_bag m = {#}"
  by (simp add: no_deleted_def deleted_bag_def)

lemma deleted_update:
  assumes "i < length m"
  shows "size (deleted_bag (m[i := e])) + (if entry_handler (m ! i) = HDeleted then 1 else 0) =
    size (deleted_bag m) + (if entry_handler e = HDeleted then 1 else 0)"
proof -
  obtain B where B: "mset m = add_mset (m ! i) B" using assms by (metis nth_mem_mset multi_member_split)
  then have "mset (m[i := e]) = add_mset e B" using assms by (simp add: mset_update)
  then show ?thesis by (simp add: deleted_bag_def B)
qed

lemma null_exists:
  assumes "\<forall>e \<in> set m. entry_ok e" "size (bag m) + size (deleted_bag m) < length m"
  shows "\<exists>i < length m. entry_handler (m ! i) = HNull"
proof (rule ccontr)
  assume n: "\<not> ?thesis"
  have "filter_mset (\<lambda>e. entry_handler e = HDeleted) (mset m) = filter_mset (\<lambda>e. \<not> in_use e) (mset m)"
    using assms(1) n by (intro filter_mset_cong refl) (auto simp: entry_ok_def in_set_conv_nth)
  then have "mset m = bag m + deleted_bag m" using multiset_partition [of "mset m" in_use] by (simp add: bag_def deleted_bag_def)
  then have "size (mset m) = size (bag m) + size (deleted_bag m)" by (metis size_union)
  then show False using assms(2) by simp
qed

lemma pm_inv_null:
  assumes "pm_inv pm"
  shows "\<exists>i < length (map_entries pm). entry_handler (map_entries pm ! i) = HNull"
proof (rule null_exists)
  show "\<forall>e \<in> set (map_entries pm). entry_ok e" using assms by (simp add: pm_inv_def counts_ok_def arr_ok_def)
  have c: "capacity pm = int (length (map_entries pm))" "8 \<le> capacity pm"
    "used_count pm = int (size (bag (map_entries pm)))" "deleted_count pm = int (size (deleted_bag (map_entries pm)))"
    "used_count pm \<le> (capacity pm div 4) * 3" "deleted_count pm \<le> capacity pm - used_count pm - deleted_count pm"
    using assms by (auto simp: pm_inv_def counts_ok_def sdiv4)
  then have "used_count pm + deleted_count pm < capacity pm" by linarith
  then show "size (bag (map_entries pm)) + size (deleted_bag (map_entries pm)) < length (map_entries pm)" using c by linarith
qed

lemma MaintainInvariants_ok:
  assumes ok: "counts_ok pm"
  shows "\<exists>pm'. MaintainInvariants pm = Some pm' \<and> pm_inv pm' \<and> bag (map_entries pm') = bag (map_entries pm) \<and>
    prng pm' = prng pm"
proof -
  let ?n = "length (map_entries pm)"
  have c: "arr_ok (map_entries pm)" "capacity pm = int ?n" "8 \<le> capacity pm" "used_count pm = int (size (bag (map_entries pm)))"
    "deleted_count pm = int (size (deleted_bag (map_entries pm)))" using ok by (auto simp: counts_ok_def)
  have le: "size (bag (map_entries pm)) \<le> ?n"
    using size_filter_mset_lesseq [of in_use "mset (map_entries pm)"] by (simp add: bag_def)
  have rehash: "\<exists>pm'. Rehash pm (int k) = Some pm' \<and> pm_inv pm' \<and> bag (map_entries pm') = bag (map_entries pm) \<and>
      prng pm' = prng pm" if k: "8 \<le> k" "size (bag (map_entries pm)) \<le> k" "used_count pm \<le> (int k div 4) * 3" for k
  proof -
    from Rehash_ok [OF c(1) k(2)] obtain m where
      m: "Rehash pm (int k) = Some (pm\<lparr>map_entries := m, capacity := int k, deleted_count := 0\<rparr>)"
        "arr_ok m" "no_deleted m" "length m = k" "bag m = bag (map_entries pm)" by blast
    moreover have "used_count pm \<le> int k" using k by linarith
    ultimately show ?thesis using c k by (simp add: pm_inv_def counts_ok_def sdiv4)
  qed
  consider "used_count pm > (capacity pm div 4) * 3"
    | "used_count pm \<le> (capacity pm div 4) * 3" "capacity pm - used_count pm - deleted_count pm < deleted_count pm"
    | "used_count pm \<le> (capacity pm div 4) * 3" "deleted_count pm \<le> capacity pm - used_count pm - deleted_count pm" by linarith
  then show ?thesis
  proof cases
    case 1
    have "used_count pm \<le> (int (2 * ?n) div 4) * 3" using c le by simp
    then show ?thesis using 1 c le rehash [of "2 * ?n"] by (simp add: MaintainInvariants_def sdiv4 mult.commute)
  next
    case 2
    then show ?thesis using c le rehash [of ?n] by (simp add: MaintainInvariants_def sdiv4)
  next
    case 3
    then show ?thesis using ok c by (simp add: MaintainInvariants_def sdiv4 pm_inv_def)
  qed
qed

subsection \<open>The map a table represents\<close>

type_synonym port_value = "nat \<times> port_state"

definition lookup_port :: "entry list \<Rightarrow> dart_port \<Rightarrow> port_value option" where
  "lookup_port m p = (case find (\<lambda>e. in_use e \<and> entry_port e = p) m of
     Some e \<Rightarrow> (case entry_handler e of Handler k \<Rightarrow> Some (k, entry_state e) | _ \<Rightarrow> None)
   | None \<Rightarrow> None)"

lemma lookup_port_iff:
  assumes "arr_ok m"
  shows "lookup_port m p = Some v \<longleftrightarrow>
    (\<exists>e \<in># bag m. entry_port e = p \<and> entry_handler e = Handler (fst v) \<and> entry_state e = snd v)"
proof (cases "find (\<lambda>e. in_use e \<and> entry_port e = p) m")
  case None
  then show ?thesis by (simp add: lookup_port_def) (auto simp: find_None_iff in_bag)
next
  case (Some e)
  then have e: "e \<in># bag m" "entry_port e = p" by (auto simp: find_Some_iff in_bag)
  have "e' = e" if "e' \<in># bag m" "entry_port e' = p" for e'
    using ports_distinct_unique [of m e' e] assms e that by (simp add: arr_ok_def)
  then have "(\<exists>e \<in># bag m. entry_port e = p \<and> entry_handler e = Handler (fst v) \<and> entry_state e = snd v) \<longleftrightarrow>
      entry_handler e = Handler (fst v) \<and> entry_state e = snd v" using e by blast
  also have "\<dots> \<longleftrightarrow> lookup_port m p = Some v"
    using Some by (cases v; cases "entry_handler e") (auto simp: lookup_port_def)
  finally show ?thesis by simp
qed

lemma bag_handler: "arr_ok m \<Longrightarrow> e \<in># bag m \<Longrightarrow> \<exists>k. entry_handler e = Handler k"
  by (cases "entry_handler e") (auto simp: arr_ok_def in_bag entry_ok_def)

lemma lookup_port_None: "arr_ok m \<Longrightarrow> lookup_port m p = None \<longleftrightarrow> (\<forall>e \<in># bag m. entry_port e \<noteq> p)"
proof -
  assume ok: "arr_ok m"
  have "(\<exists>v. lookup_port m p = Some v) \<longleftrightarrow> (\<exists>e \<in># bag m. entry_port e = p)"
    using lookup_port_iff [OF ok, of p] bag_handler [OF ok] by fastforce
  then show ?thesis by auto
qed

lemma lookup_port_cong:
  assumes "arr_ok m" "arr_ok m'" "bag m' = bag m"
  shows "lookup_port m' = lookup_port m"
proof
  fix p
  have "lookup_port m' p = Some v \<longleftrightarrow> lookup_port m p = Some v" for v
    using assms(3) by (simp add: lookup_port_iff [OF assms(1)] lookup_port_iff [OF assms(2)])
  then show "lookup_port m' p = lookup_port m p" by (metis not_None_eq)
qed

lemma lookup_port_add:
  assumes ok: "arr_ok m" "arr_ok m'" and bag: "bag m' = add_mset e (bag m)" and e: "entry_handler e = Handler k"
  shows "lookup_port m (entry_port e) = None" and "lookup_port m' = (lookup_port m)(entry_port e \<mapsto> (k, entry_state e))"
proof -
  have "count (image_mset entry_port (bag m')) (entry_port e) \<le> 1" using ok(2) by (simp add: arr_ok_def ports_distinct_def)
  then have "count (image_mset entry_port (bag m)) (entry_port e) = 0" unfolding bag by simp
  then have new: "\<forall>e' \<in># bag m. entry_port e' \<noteq> entry_port e" by (blast dest: count_image_zero)
  then show "lookup_port m (entry_port e) = None" by (simp add: lookup_port_None [OF ok(1)])
  have "lookup_port m' p = Some v \<longleftrightarrow> ((lookup_port m)(entry_port e \<mapsto> (k, entry_state e))) p = Some v" for p v
    using new e by (cases v) (auto simp: lookup_port_iff [OF ok(1)] lookup_port_iff [OF ok(2)] bag)
  then show "lookup_port m' = (lookup_port m)(entry_port e \<mapsto> (k, entry_state e))"
    by (intro ext) (metis not_None_eq)
qed

lemma lookup_port_remove:
  assumes "arr_ok m" "arr_ok m'" "bag m = add_mset e (bag m')" "entry_handler e = Handler k"
  shows "lookup_port m (entry_port e) = Some (k, entry_state e)" and "lookup_port m' = (lookup_port m)(entry_port e := None)"
  using lookup_port_add [OF assms(2,1,3,4)] by (auto simp: fun_eq_iff)

lemma lookup_port_zero: "lookup_port m 0 = None"
proof -
  have "find (\<lambda>e. in_use e \<and> entry_port e = 0) m = None" by (auto simp: find_None_iff in_use_def)
  then show ?thesis by (simp add: lookup_port_def)
qed

subsection \<open>The operations on the map\<close>

abbreviation lookup :: "port_map \<Rightarrow> dart_port \<Rightarrow> port_value option" where
  "lookup pm \<equiv> lookup_port (map_entries pm)"

lemma pm_inv_arr [simp]: "pm_inv pm \<Longrightarrow> arr_ok (map_entries pm)"
  by (simp add: pm_inv_def counts_ok_def)

lemma pm_inv_prng [simp]: "pm_inv (pm\<lparr>prng := s\<rparr>) = pm_inv pm"
  by (simp add: pm_inv_def counts_ok_def)

lemma FindPort_spec:
  assumes inv: "pm_inv pm" and port: "0 \<le> port"
  shows "\<exists>r. FindPort pm port = Some r \<and> (if lookup pm port = None then r = -1
    else 0 \<le> r \<and> r < capacity pm \<and> entry_port (map_entries pm ! nat r) = port)"
proof (cases "port = 0")
  case True
  then show ?thesis by (simp add: FindPort_def kIllegalPort_def lookup_port_zero)
next
  case False
  obtain i where i: "i < length (map_entries pm)" "entry_handler (map_entries pm ! i) = HNull" using pm_inv_null [OF inv] by blast
  have c: "capacity pm = int (length (map_entries pm))" using inv by (simp add: pm_inv_def counts_ok_def)
  have p: "0 < port" using False port by simp
  from find_loop_port_spec [OF pm_inv_arr [OF inv] i p] show ?thesis
    using False c lookup_port_None [OF pm_inv_arr [OF inv], of port] by (auto simp: FindPort_def kIllegalPort_def split: if_splits)
qed

lemma draw_port_nonneg: "0 \<le> snd (draw_port s)"
  by (simp add: draw_port_def split: prod.split)

lemma allocate_loop_fresh:
  assumes "allocate_loop pm result = Some y" "pm_inv pm" "0 \<le> result"
  shows "\<exists>s. fst y = pm\<lparr>prng := s\<rparr> \<and> 0 < snd y \<and> lookup pm (snd y) = None"
  using assms
proof (induction pm result y rule: allocate_loop.raw_induct [rotated, consumes 1, case_names step])
  case (step loop pm result y)
  obtain i where i: "(if result = 0 then Some 0 else FindPort pm result) = Some i" using step.hyps by auto
  show ?case
  proof (cases "i \<ge> 0")
    case True
    let ?s = "prng pm"
    have "loop (pm\<lparr>prng := fst (draw_port ?s)\<rparr>) (snd (draw_port ?s)) = Some y" using step.hyps i True by simp
    from step.IH [OF this] show ?thesis using step.prems(1) draw_port_nonneg by auto
  next
    case False
    then have y: "y = (pm, result)" "result \<noteq> 0" using step.hyps i by (auto split: if_splits)
    then have "lookup pm result = None" using FindPort_spec [OF step.prems] i False by (auto split: if_splits)
    then show ?thesis using y step.prems(2) by (intro exI [of _ "prng pm"]) simp
  qed
qed

lemma AllocatePort_fresh:
  assumes "AllocatePort pm = Some (pm', port)" "pm_inv pm"
  shows "\<exists>s. pm' = pm\<lparr>prng := s\<rparr> \<and> 0 < port \<and> lookup pm port = None"
proof -
  let ?pm = "pm\<lparr>prng := fst (draw_port (prng pm))\<rparr>"
  have "allocate_loop ?pm (snd (draw_port (prng pm))) = Some (pm', port)" using assms(1) by (auto simp: AllocatePort_def)
  from allocate_loop_fresh [OF this] show ?thesis using assms(2) draw_port_nonneg by auto
qed

text \<open>The \<open>n\<close>-th number the generator yields, as \<open>AllocatePort\<close> reads it.\<close>

definition nth_draw :: "64 word \<Rightarrow> nat \<Rightarrow> dart_port" where
  "nth_draw s n = snd (draw_port (((\<lambda>s. fst (draw_port s)) ^^ n) s))"

lemma allocate_loop_hit:
  assumes "pm_inv pm" "0 \<le> r" "r \<noteq> 0" "lookup pm r = None"
  shows "allocate_loop pm r = Some (pm, r)"
  using FindPort_spec [OF assms(1,2)] assms by (subst allocate_loop.simps) auto

lemma allocate_loop_miss:
  assumes "pm_inv pm" "0 \<le> r" "r = 0 \<or> lookup pm r \<noteq> None"
  shows "allocate_loop pm r = allocate_loop (pm\<lparr>prng := fst (draw_port (prng pm))\<rparr>) (snd (draw_port (prng pm)))"
proof -
  have "\<exists>i \<ge> 0. (if r = 0 then Some 0 else FindPort pm r) = Some i" using FindPort_spec [OF assms(1,2)] assms(3) by auto
  then show ?thesis by (subst allocate_loop.simps) auto
qed

lemma allocate_loop_returns:
  assumes "pm_inv pm" "0 \<le> result" "nth_draw (prng pm) n \<noteq> 0" "lookup pm (nth_draw (prng pm) n) = None"
  shows "\<exists>y. allocate_loop pm result = Some y"
  using assms
proof (induction n arbitrary: pm result)
  case 0
  then show ?case
    using allocate_loop_hit [of pm result] allocate_loop_miss [of pm result]
      allocate_loop_hit [of "pm\<lparr>prng := fst (draw_port (prng pm))\<rparr>" "snd (draw_port (prng pm))"] draw_port_nonneg
    by (cases "result \<noteq> 0 \<and> lookup pm result = None") (simp_all add: nth_draw_def)
next
  case (Suc n)
  let ?pm = "pm\<lparr>prng := fst (draw_port (prng pm))\<rparr>"
  have "nth_draw (prng ?pm) n = nth_draw (prng pm) (Suc n)"
    using funpow_swap1 [of "\<lambda>s. fst (draw_port s)" n "prng pm"] by (simp add: nth_draw_def)
  then have r: "\<exists>y. allocate_loop ?pm (snd (draw_port (prng pm))) = Some y"
    using Suc.prems draw_port_nonneg by (intro Suc.IH) auto
  then show ?case
    using Suc.prems allocate_loop_hit [of pm result] allocate_loop_miss [of pm result]
    by (cases "result \<noteq> 0 \<and> lookup pm result = None") simp_all
qed

lemma AllocatePort_loop:
  assumes "pm_inv pm" "0 \<le> result" "allocate_loop (pm\<lparr>prng := fst (draw_port (prng pm))\<rparr>) (snd (draw_port (prng pm))) = Some y"
  shows "AllocatePort pm = Some y"
proof -
  obtain s where s: "fst y = pm\<lparr>prng := s\<rparr>" "0 < snd y" "lookup pm (snd y) = None"
    using allocate_loop_fresh [OF assms(3)] assms(1) draw_port_nonneg by auto
  have "FindPort (fst y) (snd y) = Some (-1)" using FindPort_spec [of "fst y" "snd y"] s assms(1) by simp
  then show ?thesis using assms(3) s(2) by (cases y) (simp add: AllocatePort_def)
qed

lemma CreatePort_alloc:
  assumes inv: "pm_inv pm" and alloc: "AllocatePort pm = Some (pm1, port)"
  shows "\<exists>pm'. CreatePort pm k = Some (pm', port) \<and> pm_inv pm' \<and> 0 < port \<and>
    bag (map_entries pm') = add_mset \<lparr>entry_port = port, entry_handler = Handler k, entry_state = kNewPort\<rparr> (bag (map_entries pm)) \<and>
    lookup pm port = None \<and> lookup pm' = (lookup pm)(port \<mapsto> (k, kNewPort))"
proof -
  obtain s where a: "pm1 = pm\<lparr>prng := s\<rparr>" "0 < port" "lookup pm port = None" using AllocatePort_fresh [OF alloc inv] by blast
  let ?m = "map_entries pm" and ?e = "\<lparr>entry_port = port, entry_handler = Handler k, entry_state = kNewPort\<rparr>"
  have ok: "arr_ok ?m" and c: "capacity pm = int (length ?m)" "8 \<le> capacity pm" "used_count pm = int (size (bag ?m))"
    "deleted_count pm = int (size (deleted_bag ?m))" using inv by (auto simp: pm_inv_def counts_ok_def)
  have "used_count pm \<le> (capacity pm div 4) * 3" using inv c by (simp add: pm_inv_def sdiv4)
  then have room: "size (bag ?m) < length ?m" using c by linarith
  have find: "FindPort pm1 port = Some (-1)" using FindPort_spec [of pm1 port] a inv by simp
  have e: "entry_ok ?e" "in_use ?e" using a(2) by (simp_all add: entry_ok_def in_use_def)
  have "\<forall>e' \<in># bag ?m. entry_port e' \<noteq> entry_port ?e" using a(3) lookup_port_None [OF ok, of port] by simp
  from insert_arr_ok [OF ok room e this] obtain i where i: "i < length ?m" "unused_slot ?m (int (length ?m)) (port smod int (length ?m)) = Some (int i)"
    "\<not> in_use (?m ! i)" "arr_ok (?m[i := ?e])" "bag (?m[i := ?e]) = add_mset ?e (bag ?m)" by auto
  have ui: "entry_port (?m ! i) = 0" "entry_handler (?m ! i) = HNull \<or> entry_handler (?m ! i) = HDeleted"
    using ok i(1,3) by (auto simp: arr_ok_def entry_ok_def in_use_def)
  let ?pm = "pm1\<lparr>map_entries := ?m[i := ?e], deleted_count := (if entry_handler (?m ! i) = HDeleted then deleted_count pm - 1 else deleted_count pm),
    used_count := used_count pm + 1\<rparr>"
  have "counts_ok ?pm" using i c a deleted_update [OF i(1), of ?e] by (auto simp: counts_ok_def split: if_splits)
  from MaintainInvariants_ok [OF this] obtain pm' where m: "MaintainInvariants ?pm = Some pm'" "pm_inv pm'"
    "bag (map_entries pm') = bag (?m[i := ?e])" by auto
  have "CreatePort pm k = Some (pm', port)"
    using alloc find i(1,2) ui m(1) a c by (cases "entry_handler (?m ! i) = HDeleted") (simp_all add: CreatePort_def)
  moreover have "lookup pm' = (lookup pm)(port \<mapsto> (k, kNewPort))"
    using lookup_port_add [OF ok pm_inv_arr [OF m(2)], of ?e k] m(3) i(5) by simp
  ultimately show ?thesis using m a i(5) by simp
qed

text \<open>The entry of a port that is in the map.\<close>

lemma lookup_found:
  assumes inv: "pm_inv pm" and port: "0 \<le> port" and l: "lookup pm port = Some (k, st)"
  obtains i where "i < length (map_entries pm)" "FindPort pm port = Some (int i)" "in_use (map_entries pm ! i)"
    "entry_port (map_entries pm ! i) = port" "entry_handler (map_entries pm ! i) = Handler k"
    "entry_state (map_entries pm ! i) = st" "capacity pm = int (length (map_entries pm))"
proof -
  let ?m = "map_entries pm"
  have ok: "arr_ok ?m" and c: "capacity pm = int (length ?m)" using inv by (auto simp: pm_inv_def counts_ok_def)
  obtain r where r: "FindPort pm port = Some r" "0 \<le> r" "r < capacity pm" "entry_port (?m ! nat r) = port"
    using FindPort_spec [OF inv port] l by auto
  obtain e where e: "e \<in># bag ?m" "entry_port e = port" "entry_handler e = Handler k" "entry_state e = st"
    using l lookup_port_iff [OF ok, of port "(k, st)"] by auto
  have rm: "nat r < length ?m" using r c by linarith
  have "port \<noteq> 0" using e by (auto simp: in_bag in_use_def)
  then have "?m ! nat r \<in># bag ?m" using rm r(4) by (simp add: in_bag in_use_def)
  then have "?m ! nat r = e" using ports_distinct_unique [of ?m] ok e r(4) by (auto simp: arr_ok_def)
  then show ?thesis using that [of "nat r"] rm r e c by (auto simp: in_bag)
qed

lemma close_entry_none:
  assumes "pm_inv pm" "0 \<le> port" "lookup pm port = None"
  shows "close_entry pm port = Some (pm, None)"
  using FindPort_spec [OF assms(1,2)] assms(3) by (auto simp: close_entry_def)

lemma close_entry_some:
  assumes inv: "pm_inv pm" and port: "0 \<le> port" and l: "lookup pm port = Some (k, st)"
  shows "\<exists>pm'. close_entry pm port = Some (pm', Some (k, st = kLivePort)) \<and> pm_inv pm' \<and>
    bag (map_entries pm) = add_mset \<lparr>entry_port = port, entry_handler = Handler k, entry_state = st\<rparr> (bag (map_entries pm')) \<and>
    lookup pm' = (lookup pm)(port := None)"
proof -
  let ?m = "map_entries pm"
  obtain i where i: "i < length ?m" "FindPort pm port = Some (int i)" "in_use (?m ! i)" "entry_port (?m ! i) = port"
    "entry_handler (?m ! i) = Handler k" "entry_state (?m ! i) = st" "capacity pm = int (length ?m)"
    using lookup_found [OF inv port l] by blast
  have mi: "?m ! i = \<lparr>entry_port = port, entry_handler = Handler k, entry_state = st\<rparr>" using i by simp
  let ?e = "(?m ! i)\<lparr>entry_port := 0, entry_handler := HDeleted\<rparr>"
  have ok: "arr_ok ?m" using inv by simp
  note d = delete_arr_ok [OF ok i(1,3), of ?e]
  let ?pm = "pm\<lparr>map_entries := ?m[i := ?e], used_count := used_count pm - 1, deleted_count := deleted_count pm + 1\<rparr>"
  have "counts_ok ?pm"
    using inv d i deleted_update [OF i(1), of ?e] by (auto simp: pm_inv_def counts_ok_def)
  from MaintainInvariants_ok [OF this] obtain pm' where m: "MaintainInvariants ?pm = Some pm'" "pm_inv pm'"
    "bag (map_entries pm') = bag (?m[i := ?e])" by auto
  have "close_entry pm port = Some (pm', Some (k, st = kLivePort))"
    using i m(1) by (simp add: close_entry_def in_use_def)
  moreover have b: "bag ?m = add_mset (?m ! i) (bag (map_entries pm'))" using d(2) m(3) by simp
  moreover have "lookup pm' = (lookup pm)(port := None)"
    using lookup_port_remove(2) [OF ok pm_inv_arr [OF m(2)] b i(5)] i(4) by simp
  ultimately show ?thesis using m(2) mi by auto
qed

lemma set_entry_state_ok:
  assumes inv: "pm_inv pm" and port: "0 \<le> port" and l: "lookup pm port = Some (k, kNewPort)"
  shows "\<exists>pm'. set_entry_state pm port st = Some (pm', k) \<and> pm_inv pm' \<and>
    add_mset \<lparr>entry_port = port, entry_handler = Handler k, entry_state = kNewPort\<rparr> (bag (map_entries pm')) =
      add_mset \<lparr>entry_port = port, entry_handler = Handler k, entry_state = st\<rparr> (bag (map_entries pm)) \<and>
    lookup pm' = (lookup pm)(port \<mapsto> (k, st))"
proof -
  let ?m = "map_entries pm"
  obtain i where i: "i < length ?m" "FindPort pm port = Some (int i)" "in_use (?m ! i)" "entry_port (?m ! i) = port"
    "entry_handler (?m ! i) = Handler k" "entry_state (?m ! i) = kNewPort" "capacity pm = int (length ?m)"
    using lookup_found [OF inv port l] by blast
  have mi: "?m ! i = \<lparr>entry_port = port, entry_handler = Handler k, entry_state = kNewPort\<rparr>" using i by simp
  let ?e = "(?m ! i)\<lparr>entry_state := st\<rparr>" and ?pm = "pm\<lparr>map_entries := ?m[i := (?m ! i)\<lparr>entry_state := st\<rparr>]\<rparr>"
  have ok: "arr_ok ?m" using inv by simp
  note d = set_state_arr_ok [OF ok i(1,3) refl, of st]
  have "size (bag (?m[i := ?e])) = size (bag ?m)" using arg_cong [OF d(2), of size] by simp
  then have "pm_inv ?pm"
    using inv d(1) i deleted_update [OF i(1), of ?e] by (simp add: pm_inv_def counts_ok_def)
  moreover have "set_entry_state pm port st = Some (?pm, k)" using i by (simp add: set_entry_state_def)
  moreover have "lookup ?pm = (lookup pm)(port \<mapsto> (k, st))"
  proof -
    obtain B where B: "bag ?m = add_mset (?m ! i) B" using i(1,3) by (metis in_bag multi_member_split nth_mem)
    then have B': "bag (?m[i := ?e]) = add_mset ?e B" using d(2) by simp
    have "lookup ?pm p = Some v \<longleftrightarrow> ((lookup pm)(port \<mapsto> (k, st))) p = Some v" for p v
    proof -
      have "entry_port e' \<noteq> port" if "e' \<in># B" for e'
      proof -
        have "count (image_mset entry_port (bag ?m)) port \<le> 1" using ok by (simp add: arr_ok_def ports_distinct_def)
        then have "count (image_mset entry_port B) port = 0" using B i(4) by simp
        then show ?thesis using that by (rule count_image_zero)
      qed
      then show ?thesis
        using i(4,5) by (cases v) (auto simp: lookup_port_iff [OF ok] lookup_port_iff [OF d(1)] B B')
    qed
    then show ?thesis by (intro ext) (metis not_None_eq)
  qed
  ultimately show ?thesis using d(2) mi by auto
qed

lemma InitOnce_ok:
  assumes "InitOnce seed = Some pm"
  shows "pm_inv pm" "lookup pm = Map.empty"
proof -
  have pm: "map_entries pm = replicate 8 zero_entry" "capacity pm = 8" "used_count pm = 0" "deleted_count pm = 0"
    using assms by (auto simp: InitOnce_def)
  have "no_deleted (replicate 8 zero_entry)" by (simp add: no_deleted_def zero_entry_def)
  then show "pm_inv pm" using pm arr_ok_zero [of 8] bag_zero [of 8] by (simp add: pm_inv_def counts_ok_def sdiv4)
  then show "lookup pm = Map.empty" using lookup_port_None [OF arr_ok_zero [of 8]] pm by (auto simp: fun_eq_iff)
qed

subsection \<open>Refinement of a map\<close>

datatype port_op = Create nat | Close dart_port
datatype port_out = Opened dart_port | Closed bool

fun run_ops :: "('t \<Rightarrow> nat \<Rightarrow> ('t \<times> dart_port) option) \<Rightarrow> ('t \<Rightarrow> dart_port \<Rightarrow> ('t \<times> 'r option) option) \<Rightarrow>
    't \<Rightarrow> port_op list \<Rightarrow> ('t \<times> port_out list) option" where
  "run_ops create close t [] = Some (t, [])"
| "run_ops create close t (Create k # ops) = do {
     (t, p) \<leftarrow> create t k; (t, outs) \<leftarrow> run_ops create close t ops; Some (t, Opened p # outs) }"
| "run_ops create close t (Close p # ops) = do {
     (t, r) \<leftarrow> close t p; (t, outs) \<leftarrow> run_ops create close t ops; Some (t, Closed (r \<noteq> None) # outs) }"

text \<open>
  The specification: a port that is handed out is positive and not open; closing tells whether the
  port was open. It yields the map after a sequence of operations with their results, or \<open>None\<close>
  if a result is not allowed.
\<close>

fun spec_ops :: "(dart_port \<rightharpoonup> port_value) \<Rightarrow> port_op list \<Rightarrow> port_out list \<Rightarrow> (dart_port \<rightharpoonup> port_value) option" where
  "spec_ops m [] [] = Some m"
| "spec_ops m (Create k # ops) (Opened p # outs) =
     (if 0 < p \<and> m p = None then spec_ops (m(p \<mapsto> (k, kNewPort))) ops outs else None)"
| "spec_ops m (Close p # ops) (Closed b # outs) =
     (if b = (m p \<noteq> None) then spec_ops (m(p := None)) ops outs else None)"
| "spec_ops m _ _ = None"

definition valid_op :: "port_op \<Rightarrow> bool" where
  "valid_op op = (case op of Create k \<Rightarrow> True | Close p \<Rightarrow> 0 \<le> p)"

locale port_table =
  fixes inv :: "'t \<Rightarrow> bool" and look :: "'t \<Rightarrow> dart_port \<Rightarrow> port_value option"
    and create :: "'t \<Rightarrow> nat \<Rightarrow> ('t \<times> dart_port) option"
    and close :: "'t \<Rightarrow> dart_port \<Rightarrow> ('t \<times> 'r option) option"
  assumes create_law: "inv t \<Longrightarrow> create t k = Some (t', p) \<Longrightarrow>
      inv t' \<and> 0 < p \<and> look t p = None \<and> look t' = (look t)(p \<mapsto> (k, kNewPort))"
    and close_open: "inv t \<Longrightarrow> 0 \<le> p \<Longrightarrow> look t p = Some v \<Longrightarrow>
      \<exists>t' r. close t p = Some (t', Some r) \<and> inv t' \<and> look t' = (look t)(p := None)"
    and close_absent: "inv t \<Longrightarrow> 0 \<le> p \<Longrightarrow> look t p = None \<Longrightarrow> close t p = Some (t, None)"
begin

lemma close_total:
  assumes "inv t" "0 \<le> p"
  obtains t' r where "close t p = Some (t', r)" "inv t'" "look t' = (look t)(p := None)" "(r \<noteq> None) = (look t p \<noteq> None)"
proof (cases "look t p")
  case None
  then have "look t = (look t)(p := None)" by auto
  then show ?thesis using that [OF close_absent [OF assms None]] assms(1) None by blast
next
  case (Some v)
  from close_open [OF assms Some] obtain t' r where "close t p = Some (t', Some r)" "inv t'" "look t' = (look t)(p := None)"
    by blast
  then show ?thesis using that [of t' "Some r"] Some by auto
qed

lemma run_refines:
  "inv t \<Longrightarrow> list_all valid_op ops \<Longrightarrow> run_ops create close t ops = Some (t', outs) \<Longrightarrow>
     inv t' \<and> spec_ops (look t) ops outs = Some (look t')"
proof (induction ops arbitrary: t outs)
  case (Cons op ops)
  show ?case
  proof (cases op)
    case (Create k)
    then obtain t1 p outs1 where r: "create t k = Some (t1, p)" "run_ops create close t1 ops = Some (t', outs1)"
      "outs = Opened p # outs1" using Cons.prems(3) by auto
    note l = create_law [OF Cons.prems(1) r(1)]
    then have "inv t' \<and> spec_ops (look t1) ops outs1 = Some (look t')" using Cons.prems(2) by (intro Cons.IH [OF _ _ r(2)]) auto
    then show ?thesis using l Create r(3) by simp
  next
    case (Close p)
    then have p: "0 \<le> p" using Cons.prems(2) by (simp add: valid_op_def)
    obtain t1 r where c: "close t p = Some (t1, r)" "inv t1" "look t1 = (look t)(p := None)"
      "(r \<noteq> None) = (look t p \<noteq> None)" by (rule close_total [OF Cons.prems(1) p])
    obtain outs1 where o1: "run_ops create close t1 ops = Some (t', outs1)" "outs = Closed (r \<noteq> None) # outs1"
      using Cons.prems(3) Close c(1) by auto
    have "inv t' \<and> spec_ops (look t1) ops outs1 = Some (look t')"
      using Cons.prems(2) by (intro Cons.IH [OF c(2) _ o1(1)]) auto
    then show ?thesis using Close o1(2) c(3,4) by simp
  qed
qed simp

end

lemma CreatePort_law:
  assumes "pm_inv pm" "CreatePort pm k = Some (pm', p)"
  shows "pm_inv pm' \<and> 0 < p \<and> lookup pm p = None \<and> lookup pm' = (lookup pm)(p \<mapsto> (k, kNewPort))"
proof -
  obtain pm1 q where a: "AllocatePort pm = Some (pm1, q)" using assms(2) by (auto simp: CreatePort_def)
  from CreatePort_alloc [OF assms(1) a, of k] assms(2) show ?thesis by auto
qed

interpretation port_map: port_table pm_inv lookup CreatePort close_entry
proof
  show "\<exists>t' r. close_entry t p = Some (t', Some r) \<and> pm_inv t' \<and> lookup t' = (lookup t)(p := None)"
    if "pm_inv t" "0 \<le> p" "lookup t p = Some v" for t p v
    using close_entry_some [OF that(1,2), of "fst v" "snd v"] that(3) by auto
qed (rule CreatePort_law, assumption+, rule close_entry_none)

section \<open>Properties\<close>

text \<open>A map after \<open>InitOnce\<close>, for evaluating the operations.\<close>

definition example_map :: port_map where
  "example_map = \<lparr>map_entries = replicate 8 zero_entry, capacity = 8, used_count = 0, deleted_count = 0,
     prng = NextState (NextState (NextState (NextState 1)))\<rparr>"

lemma example_map_init: "InitOnce 1 = Some example_map"
  by (simp add: InitOnce_def Initialize_def example_map_def)

text \<open>
  C13: whatever sequence of \<open>CreatePort\<close> and \<open>ClosePort\<close> operations runs on the initial table,
  through all its growing, rehashing and reuse of deleted slots, the results are those of a partial
  map from ports to handlers: a port that is handed out was not open, closing reports whether the
  port was open, and the table ends up representing the map. The invariant of the table holds at
  the end.
\<close>

theorem port_map_refines_map:
  assumes "InitOnce seed = Some pm" "list_all valid_op ops" "run_ops CreatePort close_entry pm ops = Some (pm', outs)"
  shows "spec_ops Map.empty ops outs = Some (lookup_port (map_entries pm')) \<and> pm_inv pm'"
  using port_map.run_refines [OF InitOnce_ok(1) [OF assms(1)] assms(2,3)] InitOnce_ok(2) [OF assms(1)] by simp

theorem port_map_refines_map_witness:
  "\<exists>pm'. run_ops CreatePort close_entry example_map [Create 1, Create 2, Close 207665294, Close 7] =
      Some (pm', [Opened 207665294, Opened 707401800, Closed True, Closed False]) \<and>
    pm_inv pm' \<and> lookup_port (map_entries pm') = [707401800 \<mapsto> (2, kNewPort)]"
proof -
  let ?ops = "[Create 1, Create 2, Close 207665294, Close 7]"
  have "map_option snd (run_ops CreatePort close_entry example_map ?ops) =
      Some [Opened 207665294, Opened 707401800, Closed True, Closed False]" by code_simp
  then obtain pm' where r: "run_ops CreatePort close_entry example_map ?ops =
      Some (pm', [Opened 207665294, Opened 707401800, Closed True, Closed False])" by auto
  from port_map_refines_map [OF example_map_init _ r] show ?thesis
    using r by (simp add: valid_op_def fun_upd_twist)
qed

text \<open>
  C17: \<open>FindPort\<close> on a table that satisfies the invariant always returns: the assertion against
  endless loops holds. It returns the index of the port's entry, and \<open>-1\<close> exactly when the port is
  not open.
\<close>

theorem FindPort_finds:
  assumes "pm_inv pm" "0 \<le> port"
  shows "\<exists>r. FindPort pm port = Some r \<and> (if lookup_port (map_entries pm) port = None then r = -1
    else 0 \<le> r \<and> r < capacity pm \<and> entry_port (map_entries pm ! nat r) = port)"
  using assms by (rule FindPort_spec)

theorem FindPort_finds_witness: "FindPort example_map 207665294 = Some (-1)"
  using FindPort_finds [OF InitOnce_ok(1) [OF example_map_init], of 207665294] InitOnce_ok(2) [OF example_map_init] by simp

text \<open>
  C18: \<open>CreatePort\<close> returns when one of the numbers the generator yields is a port that is not in
  use. No assertion fails, the port is new, and exactly this port is added.
\<close>

theorem CreatePort_returns:
  assumes "pm_inv pm" "nth_draw (fst (draw_port (prng pm))) n \<noteq> 0"
    "lookup_port (map_entries pm) (nth_draw (fst (draw_port (prng pm))) n) = None"
  shows "\<exists>pm' port. CreatePort pm k = Some (pm', port) \<and> pm_inv pm' \<and> 0 < port \<and>
    lookup_port (map_entries pm) port = None \<and>
    lookup_port (map_entries pm') = (lookup_port (map_entries pm))(port \<mapsto> (k, kNewPort))"
proof -
  have "\<exists>y. allocate_loop (pm\<lparr>prng := fst (draw_port (prng pm))\<rparr>) (snd (draw_port (prng pm))) = Some y"
    using assms draw_port_nonneg by (intro allocate_loop_returns [of _ _ n]) simp_all
  then obtain pm1 port where "AllocatePort pm = Some (pm1, port)" using AllocatePort_loop [OF assms(1), of 0] by auto
  from CreatePort_alloc [OF assms(1) this, of k] show ?thesis by blast
qed

theorem CreatePort_returns_witness:
  "\<exists>pm' port. CreatePort example_map 3 = Some (pm', port) \<and> lookup_port (map_entries pm') port = Some (3, kNewPort)"
proof -
  have "nth_draw (fst (draw_port (prng example_map))) 0 \<noteq> 0" by code_simp
  from CreatePort_returns [OF InitOnce_ok(1) [OF example_map_init] this, of 3] InitOnce_ok(2) [OF example_map_init]
  show ?thesis by auto
qed

text \<open>
  C19: \<open>MaintainInvariants\<close> re-establishes the load bounds from correct counts, by growing or
  flushing deleted slots, without losing, adding or changing an open port.
\<close>

theorem MaintainInvariants_keeps:
  assumes "counts_ok pm"
  shows "\<exists>pm'. MaintainInvariants pm = Some pm' \<and> pm_inv pm' \<and>
    lookup_port (map_entries pm') = lookup_port (map_entries pm)"
proof -
  have ok: "arr_ok (map_entries pm)" using assms by (simp add: counts_ok_def)
  from MaintainInvariants_ok [OF assms] obtain pm' where m: "MaintainInvariants pm = Some pm'" "pm_inv pm'"
    "bag (map_entries pm') = bag (map_entries pm)" by blast
  then show ?thesis using lookup_port_cong [OF ok pm_inv_arr [OF m(2)] m(3)] by simp
qed

theorem MaintainInvariants_keeps_witness:
  "\<exists>pm'. MaintainInvariants (example_map\<lparr>map_entries := (replicate 8 zero_entry)[5 := zero_entry\<lparr>entry_handler := HDeleted\<rparr>],
      deleted_count := 1\<rparr>) = Some pm' \<and> pm_inv pm'"
proof -
  let ?e = "zero_entry\<lparr>entry_handler := HDeleted\<rparr>" and ?m = "replicate 8 zero_entry"
  have "arr_ok (?m[5 := ?e])"
  proof -
    have "\<not> in_use zero_entry" "\<not> in_use ?e" by (simp_all add: in_use_def zero_entry_def)
    then have "bag (?m[5 := ?e]) = {#}" using bag_update [of 5 ?m ?e] by simp
    moreover have "chained (?m[5 := ?e])"
      by (rule chained_update) (use arr_ok_zero [of 8] in \<open>auto simp: arr_ok_def in_use_def zero_entry_def\<close>)
    moreover have "\<forall>x \<in> set (?m[5 := ?e]). entry_ok x"
      by (rule entries_update) (auto simp: entry_ok_def in_use_def zero_entry_def)
    ultimately show ?thesis by (simp add: arr_ok_def ports_distinct_def)
  qed
  moreover have "size (bag (?m[5 := ?e])) = 0" "size (deleted_bag (?m[5 := ?e])) = 1" by code_simp+
  ultimately have "counts_ok (example_map\<lparr>map_entries := ?m[5 := ?e], deleted_count := 1\<rparr>)"
    by (simp add: counts_ok_def example_map_def)
  from MaintainInvariants_keeps [OF this] show ?thesis by blast
qed

text \<open>
  C27: a port id is a signed 64-bit number, and nothing checks its sign before it is looked up:
  \<open>FindPort\<close> of a negative id that is not a multiple of the capacity computes a negative index
  and reads outside of the table.
\<close>

theorem FindPort_negative_undefined:
  assumes "pm_inv pm" "port < 0" "port smod capacity pm \<noteq> 0"
  shows "FindPort pm port = None"
proof -
  have "8 \<le> capacity pm" using assms(1) by (simp add: pm_inv_def counts_ok_def)
  then have "port smod capacity pm = - (\<bar>port\<bar> mod capacity pm)" using assms(2) by (simp add: signed_modulo_int_def)
  moreover have "0 \<le> \<bar>port\<bar> mod capacity pm" using \<open>8 \<le> capacity pm\<close> by (intro pos_mod_sign) simp
  ultimately have "port smod capacity pm < 0" using assms(3) by linarith
  then have "read_at (map_entries pm) (port smod capacity pm) = None" by (simp add: read_at_def)
  then show ?thesis using assms(2) by (subst FindPort_def, subst find_loop_port.simps) (simp add: kIllegalPort_def)
qed

theorem FindPort_negative_undefined_witness: "FindPort example_map (-1) = None"
  by (rule FindPort_negative_undefined [OF InitOnce_ok(1) [OF example_map_init]])
    (simp_all add: example_map_def signed_modulo_int_def)

end
