(* ===== verification/Message_Handler.thy ===== *)
theory Message_Handler
  imports Message_Queue
begin

text \<open>
  Class \<open>MessageHandler\<close> of \<open>vm/message_handler.h/.cc\<close>. The state is the message heap with the
  fields of one handler; a pointer field of which the code only tests whether it is \<open>NULL\<close> is a
  boolean. The virtual methods a subclass provides, the start callback, the clock and the thread
  pool are a record of functions, an argument of the operations: the monitor is released while they
  run, so they may change the state in any way other threads can.
\<close>

record message_handler =
  normal_queue :: message_queue
  oob_queue :: message_queue
  oob_message_handling_allowed :: bool
  live_ports :: int
  paused_count :: int
  pause_on_start :: bool
  pause_on_exit :: bool
  paused_on_start :: bool
  paused_on_exit :: bool
  paused_timestamp :: int
  pool_set :: bool
  task_set :: bool
  start_callback_set :: bool
  end_callback_set :: bool

type_synonym hstate = "heap \<times> message_handler"

record handler_env =
  handle_message :: "addr \<Rightarrow> hstate \<Rightarrow> hstate \<times> bool"
  message_notify :: "priority \<Rightarrow> hstate \<Rightarrow> hstate"
  notify_pause_on_start :: "hstate \<Rightarrow> hstate"
  notify_pause_on_exit :: "hstate \<Rightarrow> hstate"
  start_callback :: "hstate \<Rightarrow> hstate \<times> bool"
  pool_run :: bool
  current_time_millis :: int

definition NewHandler :: message_handler where
  "NewHandler = \<lparr>normal_queue = EmptyQueue, oob_queue = EmptyQueue, oob_message_handling_allowed = True,
     live_ports = 0, paused_count = 0, pause_on_start = False, pause_on_exit = False,
     paused_on_start = False, paused_on_exit = False, paused_timestamp = -1, pool_set = False,
     task_set = False, start_callback_set = False, end_callback_set = False\<rparr>"

subsection \<open>Operations\<close>


definition paused :: "message_handler \<Rightarrow> bool" where
  "paused mh \<longleftrightarrow> paused_count mh > 0"


definition decrement_paused :: "message_handler \<Rightarrow> message_handler option" where
  "decrement_paused mh = do { ASSERT (paused_count mh > 0); Some (mh\<lparr>paused_count := paused_count mh - 1\<rparr>) }"




definition enqueue_message :: "heap \<Rightarrow> message_handler \<Rightarrow> message \<Rightarrow> addr \<Rightarrow> bool \<Rightarrow> (heap \<times> message_handler) option" where
  "enqueue_message h mh m msg before_events =
     (if IsOOB m
      then do { (h, q) \<leftarrow> Enqueue h (oob_queue mh) msg before_events; Some (h, mh\<lparr>oob_queue := q\<rparr>) }
      else do { (h, q) \<leftarrow> Enqueue h (normal_queue mh) msg before_events; Some (h, mh\<lparr>normal_queue := q\<rparr>) })"

definition PostMessage :: "handler_env \<Rightarrow> hstate \<Rightarrow> addr \<Rightarrow> bool \<Rightarrow> hstate option" where
  "PostMessage env s msg before_events = do {
     let (h, mh) = s;
     m \<leftarrow> h msg;
     (h, mh) \<leftarrow> enqueue_message h mh m msg before_events;
     mh \<leftarrow> (if pool_set mh \<and> \<not> task_set mh
       then do { ASSERT (pool_run env); Some (mh\<lparr>task_set := True\<rparr>) }
       else Some mh);
     Some (message_notify env (msg_priority m) (h, mh))
   }"

definition DequeueMessage :: "hstate \<Rightarrow> priority \<Rightarrow> (hstate \<times> addr option) option" where
  "DequeueMessage s min_priority = do {
     let (h, mh) = s;
     (h, q, msg) \<leftarrow> Dequeue h (oob_queue mh);
     let mh = mh\<lparr>oob_queue := q\<rparr>;
     if msg = None \<and> min_priority = kNormalPriority
     then do { (h, q, msg) \<leftarrow> Dequeue h (normal_queue mh); Some ((h, mh\<lparr>normal_queue := q\<rparr>), msg) }
     else Some ((h, mh), msg)
   }"

definition min_priority :: "bool \<Rightarrow> message_handler \<Rightarrow> priority" where
  "min_priority allow_normal_messages mh =
     (if allow_normal_messages \<and> \<not> paused mh then kNormalPriority else kOOBPriority)"

partial_function (option) handle_loop ::
  "handler_env \<Rightarrow> bool \<Rightarrow> bool \<Rightarrow> hstate \<Rightarrow> addr option \<Rightarrow> bool \<Rightarrow> (hstate \<times> bool) option" where
  "handle_loop env allow_normal allow_multiple s msg result = (case msg of
     None \<Rightarrow> Some (s, result)
   | Some a \<Rightarrow> do {
       m \<leftarrow> fst s a;
       case handle_message env a s of (s', ok) \<Rightarrow>
         if \<not> ok then Some (s', ok)
         else if msg_priority m = kNormalPriority \<and> \<not> allow_multiple then Some (s', ok)
         else do {
           r \<leftarrow> DequeueMessage s' (min_priority allow_normal (snd s'));
           handle_loop env allow_normal allow_multiple (fst r) (snd r) ok
         }
     })"

declare handle_loop.simps [code]

definition HandleMessages :: "handler_env \<Rightarrow> bool \<Rightarrow> bool \<Rightarrow> hstate \<Rightarrow> (hstate \<times> bool) option" where
  "HandleMessages env allow_normal allow_multiple s = do {
     (s, msg) \<leftarrow> DequeueMessage s (min_priority allow_normal (snd s));
     handle_loop env allow_normal allow_multiple s msg True
   }"

definition HandleNextMessage :: "handler_env \<Rightarrow> hstate \<Rightarrow> (hstate \<times> bool) option" where
  "HandleNextMessage env s = do { ASSERT (\<not> pool_set (snd s)); HandleMessages env True False s }"

definition HandleOOBMessages :: "handler_env \<Rightarrow> hstate \<Rightarrow> (hstate \<times> bool) option" where
  "HandleOOBMessages env s =
     (if \<not> oob_message_handling_allowed (snd s) then Some (s, True) else HandleMessages env False False s)"

definition HasOOBMessages :: "message_handler \<Rightarrow> bool" where
  "HasOOBMessages mh \<longleftrightarrow> \<not> IsEmpty (oob_queue mh)"





text \<open>\<open>AcquiredQueues::Reset\<close>: leaving and entering a handler sets the flag for OOB messages.\<close>

definition release_queues :: "message_handler \<Rightarrow> message_handler" where
  "release_queues mh = mh\<lparr>oob_message_handling_allowed := True\<rparr>"

definition acquire_queues :: "message_handler \<Rightarrow> message_handler" where
  "acquire_queues mh = mh\<lparr>oob_message_handling_allowed := False\<rparr>"

subsection \<open>Invariant\<close>

definition has_priority :: "heap \<Rightarrow> priority \<Rightarrow> addr \<Rightarrow> bool" where
  "has_priority h p a \<longleftrightarrow> (\<exists>m. h a = Some m \<and> msg_priority m = p)"

definition queues :: "hstate \<Rightarrow> addr list \<Rightarrow> addr list \<Rightarrow> bool" where
  "queues s ns os \<longleftrightarrow> queue_rep (fst s) (normal_queue (snd s)) ns \<and> queue_rep (fst s) (oob_queue (snd s)) os \<and>
     set ns \<inter> set os = {} \<and> (\<forall>a \<in> set ns. has_priority (fst s) kNormalPriority a) \<and>
     (\<forall>a \<in> set os. has_priority (fst s) kOOBPriority a)"

definition handler_inv :: "hstate \<Rightarrow> bool" where
  "handler_inv s \<longleftrightarrow> (\<exists>ns os. queues s ns os)"

text \<open>What the code relies on of the virtual methods and callbacks: they keep the queues well formed.\<close>

definition env_ok :: "handler_env \<Rightarrow> bool" where
  "env_ok env \<longleftrightarrow> (\<forall>s. handler_inv s \<longrightarrow>
     (\<forall>a. handler_inv (fst (handle_message env a s))) \<and> (\<forall>p. handler_inv (message_notify env p s)) \<and>
     handler_inv (notify_pause_on_start env s) \<and>
     handler_inv (notify_pause_on_exit env s) \<and> handler_inv (fst (start_callback env s)))"

lemma has_priority_same:
  assumes "same_messages h h' A"
  shows "has_priority h' p a = has_priority h p a"
proof -
  have e: "content h' a = content h a" using assms by (simp add: same_messages_def)
  then have n: "(h' a = None) = (h a = None)" by (auto simp: content_def)
  show ?thesis
  proof (cases "h a")
    case (Some m)
    then obtain m' where "h' a = Some m'" using n by auto
    with Some content_fields(2) [OF e Some this] show ?thesis by (simp add: has_priority_def)
  qed (use n in \<open>simp add: has_priority_def\<close>)
qed

lemma queues_cong:
  "fst s' = fst s \<Longrightarrow> normal_queue (snd s') = normal_queue (snd s) \<Longrightarrow> oob_queue (snd s') = oob_queue (snd s) \<Longrightarrow>
     queues s' ns os = queues s ns os"
  by (simp add: queues_def)



lemma has_priority_cong: "h' a = h a \<Longrightarrow> has_priority h' p a = has_priority h p a"
  by (simp add: has_priority_def)

subsection \<open>Which message is next\<close>

text \<open>The contract of \<open>DequeueMessage\<close>: out-of-band messages first, events only when they may run.\<close>

fun next_message :: "priority \<Rightarrow> addr list \<Rightarrow> addr list \<Rightarrow> addr option \<times> addr list \<times> addr list" where
  "next_message p ns (a # os) = (Some a, ns, os)"
| "next_message p ns [] = (case (p, ns) of
     (kNormalPriority, a # ns') \<Rightarrow> (Some a, ns', [])
   | _ \<Rightarrow> (None, ns, []))"

definition same_flags :: "message_handler \<Rightarrow> message_handler \<Rightarrow> bool" where
  "same_flags mh mh' \<longleftrightarrow> mh' = mh\<lparr>normal_queue := normal_queue mh', oob_queue := oob_queue mh'\<rparr>"

lemma same_flags_fields:
  assumes "same_flags mh mh'"
  shows "paused mh' = paused mh" "pool_set mh' = pool_set mh" "task_set mh' = task_set mh" "live_ports mh' = live_ports mh"
proof -
  note e = assms [unfolded same_flags_def]
  show "paused mh' = paused mh" using arg_cong [OF e, of paused] by (simp add: paused_def)
  show "pool_set mh' = pool_set mh" using arg_cong [OF e, of pool_set] by simp
  show "task_set mh' = task_set mh" using arg_cong [OF e, of task_set] by simp
  show "live_ports mh' = live_ports mh" using arg_cong [OF e, of live_ports] by simp
qed

lemma same_flags_upd [simp]: "same_flags mh (mh\<lparr>oob_queue := q\<rparr>)" "same_flags mh (mh\<lparr>normal_queue := q\<rparr>)"
    "same_flags mh mh" "same_flags mh (mh\<lparr>oob_queue := q, normal_queue := r\<rparr>)"
  by (simp_all add: same_flags_def)

lemma queues_frame_normal:
  assumes q: "queues (h, mh) ns os" and s: "same_messages h h' A" and A: "A \<inter> set ns = {}"
    and r: "queue_rep h' oq os'" "set ns \<inter> set os' = {}" "\<forall>a \<in> set os'. has_priority h kOOBPriority a"
  shows "queues (h', mh\<lparr>oob_queue := oq\<rparr>) ns os'"
proof -
  have "queue_rep h' (normal_queue mh) ns" using q A by (intro queue_rep_frame [OF _ s]) (auto simp: queues_def)
  then show ?thesis using q r by (simp add: queues_def has_priority_same [OF s])
qed

lemma queues_frame_oob:
  assumes q: "queues (h, mh) ns os" and s: "same_messages h h' A" and A: "A \<inter> set os = {}"
    and r: "queue_rep h' nq ns'" "set ns' \<inter> set os = {}" "\<forall>a \<in> set ns'. has_priority h kNormalPriority a"
  shows "queues (h', mh\<lparr>normal_queue := nq\<rparr>) ns' os"
proof -
  have "queue_rep h' (oob_queue mh) os" using q A by (intro queue_rep_frame [OF _ s]) (auto simp: queues_def)
  then show ?thesis using q r by (simp add: queues_def has_priority_same [OF s])
qed

lemma DequeueMessage_oob:
  assumes q: "queues s ns (a # os)"
  shows "\<exists>s'. DequeueMessage s p = Some (s', Some a) \<and> queues s' ns os \<and> same_flags (snd s) (snd s') \<and>
    same_messages (fst s) (fst s') {a}"
proof -
  obtain h mh where s: "s = (h, mh)" by (cases s)
  have "queue_rep h (oob_queue mh) (a # os)" using q s by (simp add: queues_def)
  from Dequeue_rep [OF this] obtain h' oq where
    d: "Dequeue h (oob_queue mh) = Some (h', oq, Some a)" "queue_rep h' oq os" "same_messages h h' {a}" by blast
  have "queues (h', mh\<lparr>oob_queue := oq\<rparr>) ns os"
    by (rule queues_frame_normal [OF _ d(3) _ d(2)]) (use q s in \<open>auto simp: queues_def\<close>)
  then show ?thesis using d s by (simp add: DequeueMessage_def)
qed

lemma queues_oob_nil: "queues (h, mh) ns [] \<Longrightarrow> Dequeue h (oob_queue mh) = Some (h, oob_queue mh, None)"
  by (rule Dequeue_empty) (simp add: queues_def)

lemma DequeueMessage_normal:
  assumes q: "queues s (a # ns) []"
  shows "\<exists>s'. DequeueMessage s kNormalPriority = Some (s', Some a) \<and> queues s' ns [] \<and>
    same_flags (snd s) (snd s') \<and> same_messages (fst s) (fst s') {a}"
proof -
  obtain h mh where s: "s = (h, mh)" by (cases s)
  have "queue_rep h (normal_queue mh) (a # ns)" using q s by (simp add: queues_def)
  from Dequeue_rep [OF this] obtain h' nq where
    d: "Dequeue h (normal_queue mh) = Some (h', nq, Some a)" "queue_rep h' nq ns" "same_messages h h' {a}" by blast
  have "queues (h', mh\<lparr>normal_queue := nq\<rparr>) ns []"
    by (rule queues_frame_oob [OF _ d(3) _ d(2)]) (use q s in \<open>auto simp: queues_def\<close>)
  then show ?thesis using d s queues_oob_nil [of h mh "a # ns"] q by (simp add: DequeueMessage_def)
qed

lemma DequeueMessage_none:
  assumes q: "queues s ns []" and n: "p = kOOBPriority \<or> ns = []"
  shows "DequeueMessage s p = Some (s, None)"
proof -
  obtain h mh where s: "s = (h, mh)" by (cases s)
  have "Dequeue h (normal_queue mh) = Some (h, normal_queue mh, None)" if "ns = []"
    using q s that by (intro Dequeue_empty) (simp add: queues_def)
  then show ?thesis using q s n queues_oob_nil [of h mh ns] by (auto simp: DequeueMessage_def)
qed

lemma DequeueMessage_next:
  assumes q: "queues s ns os" and n: "next_message p ns os = (r, ns', os')"
  shows "\<exists>s'. DequeueMessage s p = Some (s', r) \<and> queues s' ns' os' \<and> same_flags (snd s) (snd s') \<and>
    same_messages (fst s) (fst s') (set_option r)"
proof (cases os)
  case Nil
  show ?thesis
  proof (cases "p = kOOBPriority \<or> ns = []")
    case True
    then have "r = None" "ns' = ns" "os' = os" using n Nil by (auto split: list.splits priority.splits)
    then show ?thesis using DequeueMessage_none [OF _ True] q Nil by simp
  next
    case False
    then obtain a xs where "p = kNormalPriority" "ns = a # xs" by (cases p; cases ns) auto
    then show ?thesis using n q Nil DequeueMessage_normal [of s a xs] by auto
  qed
next
  case (Cons a xs)
  then show ?thesis using n q DequeueMessage_oob [of s ns a xs p] by auto
qed

subsection \<open>The message loop\<close>

text \<open>Nothing is left that the loop may handle.\<close>

definition drained :: "bool \<Rightarrow> message_handler \<Rightarrow> bool" where
  "drained allow_normal mh \<longleftrightarrow> IsEmpty (oob_queue mh) \<and>
     (allow_normal \<and> \<not> paused mh \<longrightarrow> IsEmpty (normal_queue mh))"





subsection \<open>The thread pool task\<close>







subsection \<open>Posting\<close>

text \<open>A message posted to a handler lands in the queue of its priority, and a task is scheduled.\<close>

definition posted :: "heap \<Rightarrow> addr list \<Rightarrow> addr list \<Rightarrow> addr \<Rightarrow> message \<Rightarrow> bool \<Rightarrow> addr list \<times> addr list" where
  "posted h ns os a m before_events =
     (if IsOOB m then (ns, insert_message h os a before_events) else (insert_message h ns a before_events, os))"

lemma set_insert_message [simp]: "set (insert_message h xs a b) = insert a (set xs)"
  by (simp add: insert_message_def) (metis set_append takeWhile_dropWhile_id)

lemma queues_post:
  assumes q: "queues (h, mh) ns os" and m: "h a = Some m" "next_ptr m = None" "a \<notin> set ns" "a \<notin> set os"
    and control: "before_events \<Longrightarrow> dest_port m = kIllegalPort"
  shows "\<exists>h' mh'. enqueue_message h mh m a before_events = Some (h', mh') \<and>
     same_flags mh mh' \<and> queues (h', mh') (fst (posted h ns os a m before_events)) (snd (posted h ns os a m before_events))"
proof (cases "IsOOB m")
  case True
  have "queue_rep h (oob_queue mh) os" "fresh h os a" "before_events \<Longrightarrow> is_control h a"
    using q m control by (auto simp: queues_def fresh_def is_control_def)
  from Enqueue_rep [OF this] obtain h' oq where
    e: "Enqueue h (oob_queue mh) a before_events = Some (h', oq)" "queue_rep h' oq (insert_message h os a before_events)"
      "same_messages h h' (insert a (set os))" by blast
  have "queues (h', mh\<lparr>oob_queue := oq\<rparr>) ns (insert_message h os a before_events)"
    by (rule queues_frame_normal [OF q e(3) _ e(2)]) (use q m True in \<open>auto simp: queues_def has_priority_def IsOOB_def\<close>)
  then show ?thesis using e(1) True by (simp add: posted_def enqueue_message_def)
next
  case False
  have "queue_rep h (normal_queue mh) ns" "fresh h ns a" "before_events \<Longrightarrow> is_control h a"
    using q m control by (auto simp: queues_def fresh_def is_control_def)
  from Enqueue_rep [OF this] obtain h' nq where
    e: "Enqueue h (normal_queue mh) a before_events = Some (h', nq)" "queue_rep h' nq (insert_message h ns a before_events)"
      "same_messages h h' (insert a (set ns))" by blast
  have "msg_priority m = kNormalPriority" using False by (cases "msg_priority m") (auto simp: IsOOB_def)
  then have "queues (h', mh\<lparr>normal_queue := nq\<rparr>) (insert_message h ns a before_events) os"
    by (intro queues_frame_oob [OF q e(3) _ e(2)]) (use q m in \<open>auto simp: queues_def has_priority_def\<close>)
  then show ?thesis using e(1) False by (simp add: posted_def enqueue_message_def)
qed



lemma queues_task [simp]: "queues (h, mh\<lparr>task_set := b\<rparr>) ns os = queues (h, mh) ns os"
  by (rule queues_cong) simp_all

lemma PostMessage_post:
  assumes q: "queues (h, mh) ns os" and m: "h a = Some m" "next_ptr m = None" "a \<notin> set ns" "a \<notin> set os"
    and control: "before_events \<Longrightarrow> dest_port m = kIllegalPort"
    and pool: "pool_set mh \<and> \<not> task_set mh \<Longrightarrow> pool_run env"
  shows "\<exists>s'. PostMessage env (h, mh) a before_events = Some (message_notify env (msg_priority m) s') \<and>
    pool_set (snd s') = pool_set mh \<and> (pool_set mh \<longrightarrow> task_set (snd s')) \<and>
    queues s' (fst (posted h ns os a m before_events)) (snd (posted h ns os a m before_events))"
proof -
  from queues_post [OF q m control] obtain h' mh' where
    p: "enqueue_message h mh m a before_events = Some (h', mh')"
      "same_flags mh mh'" "queues (h', mh') (fst (posted h ns os a m before_events)) (snd (posted h ns os a m before_events))" by blast
  let ?mh = "if pool_set mh' \<and> \<not> task_set mh' then mh'\<lparr>task_set := True\<rparr> else mh'"
  have "PostMessage env (h, mh) a before_events = Some (message_notify env (msg_priority m) (h', ?mh))"
    using p(1) m(1) pool same_flags_fields(2,3) [OF p(2)] by (simp add: PostMessage_def)
  moreover have "queues (h', ?mh) (fst (posted h ns os a m before_events)) (snd (posted h ns os a m before_events))"
    using p(3) by simp
  moreover have "pool_set ?mh = pool_set mh" "pool_set mh \<longrightarrow> task_set ?mh"
    using same_flags_fields(2,3) [OF p(2)] by simp_all
  ultimately show ?thesis by (intro exI [of _ "(h', ?mh)"] conjI) simp_all
qed

subsection \<open>No lost wakeup\<close>

text \<open>
  While a handler belongs to a pool and no task is scheduled for it, no message is pending that a
  task would handle, unless the handler is paused on start or on exit.
\<close>

definition woken :: "hstate \<Rightarrow> bool" where
  "woken s \<longleftrightarrow> handler_inv s \<and> (pool_set (snd s) \<and> \<not> task_set (snd s) \<and> \<not> pause_on_start (snd s) \<and>
     \<not> pause_on_exit (snd s) \<longrightarrow> drained True (snd s))"

definition notify_ok :: "handler_env \<Rightarrow> bool" where
  "notify_ok env \<longleftrightarrow> (\<forall>p s. woken s \<longrightarrow> woken (message_notify env p s))"


lemma queues_alloc:
  assumes q: "queues (h, mh) ns os" and a: "h a = None"
  shows "queues (h(a \<mapsto> m), mh) ns os" "a \<notin> set ns" "a \<notin> set os"
proof -
  show na: "a \<notin> set ns" and oa: "a \<notin> set os"
    using q a by (auto simp: queues_def has_priority_def)
  then have "queue_rep (h(a \<mapsto> m)) (normal_queue mh) ns = queue_rep h (normal_queue mh) ns"
    "queue_rep (h(a \<mapsto> m)) (oob_queue mh) os = queue_rep h (oob_queue mh) os"
    by (intro queue_rep_cong; auto)+
  then show "queues (h(a \<mapsto> m), mh) ns os" using q na oa by (auto simp: queues_def has_priority_def)
qed




subsection \<open>Termination\<close>

text \<open>
  The loop ends when handling a message does not produce more of them: the handler changes at most
  the message it was given, which it may delete.
\<close>

definition quiet :: "handler_env \<Rightarrow> bool" where
  "quiet env \<longleftrightarrow> (\<forall>a s. \<exists>h'. handle_message env a s = ((h', snd s), True) \<and> (\<forall>b. b \<noteq> a \<longrightarrow> h' b = fst s b))"

lemma queues_other:
  assumes q: "queues (h, mh) ns os" and h': "\<forall>b. b \<noteq> a \<longrightarrow> h' b = h b" and a: "a \<notin> set ns" "a \<notin> set os"
  shows "queues (h', mh) ns os"
proof -
  have "\<And>b. b \<in> set ns \<Longrightarrow> h' b = h b" "\<And>b. b \<in> set os \<Longrightarrow> h' b = h b" using h' a by metis+
  then show ?thesis using q queue_rep_cong [of ns h' h] queue_rep_cong [of os h' h]
    by (auto simp: queues_def has_priority_def)
qed

lemma next_message_taken:
  assumes q: "queues s ns os" and n: "next_message p ns os = (Some b, ns', os')"
  shows "b \<notin> set ns'" "b \<notin> set os'" "\<exists>m. fst s b = Some m" "length ns' + length os' < length ns + length os"
    "p = kOOBPriority \<Longrightarrow> ns' = ns"
  using q n by (cases os; cases ns; cases p; auto simp: queues_def queue_rep_def has_priority_def)+

lemma next_message_none:
  "next_message p ns os = (None, ns', os') \<Longrightarrow> os = [] \<and> os' = [] \<and> ns' = ns \<and> (p = kNormalPriority \<longrightarrow> ns = [])"
  by (cases os; cases ns; cases p; auto)

lemma dequeue_step:
  assumes q: "queues s ns os"
  obtains s' r ns' os' where "DequeueMessage s (min_priority an (snd s)) = Some (s', r)" "queues s' ns' os'"
    "paused (snd s') = paused (snd s)" "an \<and> \<not> paused (snd s) \<or> ns' = ns"
    "\<And>a. r = Some a \<Longrightarrow> a \<notin> set ns' \<and> a \<notin> set os' \<and> fst s' a \<noteq> None"
    "r = None \<Longrightarrow> os' = [] \<and> (an \<and> \<not> paused (snd s) \<longrightarrow> ns' = [])"
    "length ns' + length os' + (if r = None then 0 else 1) \<le> length ns + length os"
proof -
  let ?p = "min_priority an (snd s)"
  obtain r ns' os' where n: "next_message ?p ns os = (r, ns', os')" by (metis prod_cases3)
  from DequeueMessage_next [OF q n] obtain s' where
    d: "DequeueMessage s ?p = Some (s', r)" "queues s' ns' os'" "same_flags (snd s) (snd s')"
      "same_messages (fst s) (fst s') (set_option r)" by auto
  have same: "(fst s' b = None) = (fst s b = None)" for b
  proof -
    have "content (fst s') b = content (fst s) b" using d(4) by (simp add: same_messages_def)
    then show ?thesis by (auto simp: content_def)
  qed
  show ?thesis
  proof (rule that [OF d(1,2) same_flags_fields(1) [OF d(3)]])
    show "an \<and> \<not> paused (snd s) \<or> ns' = ns"
    proof (rule disjCI)
      assume "ns' \<noteq> ns"
      then have "?p \<noteq> kOOBPriority" using next_message_taken(5) [OF q] next_message_none [of ?p ns os] n by (cases r) auto
      then show "an \<and> \<not> paused (snd s)" by (auto simp: min_priority_def split: if_splits)
    qed
    show "a \<notin> set ns' \<and> a \<notin> set os' \<and> fst s' a \<noteq> None" if "r = Some a" for a
      using next_message_taken(1-3) [OF q, of ?p a ns' os'] n that same by auto
    show "os' = [] \<and> (an \<and> \<not> paused (snd s) \<longrightarrow> ns' = [])" if "r = None"
      using next_message_none [of ?p ns os ns' os'] n that by (auto simp: min_priority_def)
    show "length ns' + length os' + (if r = None then 0 else 1) \<le> length ns + length os"
      using next_message_taken(4) [OF q, of ?p _ ns' os'] next_message_none [of ?p ns os ns' os'] n by (cases r) auto
  qed
qed

lemma handle_loop_quiet:
  assumes quiet: "quiet env"
  shows "queues s ns os \<Longrightarrow> (\<And>a. msg = Some a \<Longrightarrow> a \<notin> set ns \<and> a \<notin> set os \<and> fst s a \<noteq> None) \<Longrightarrow>
    (msg = None \<Longrightarrow> os = [] \<and> (an \<and> \<not> paused (snd s) \<longrightarrow> ns = [])) \<Longrightarrow>
    \<exists>s'. handle_loop env an True s msg True = Some (s', True) \<and>
      queues s' (if an \<and> \<not> paused (snd s) then [] else ns) []"
proof (induction "length ns + length os + (if msg = None then 0 else 1)" arbitrary: s ns os msg rule: less_induct)
  case less
  show ?case
  proof (cases msg)
    case None
    then show ?thesis using less.prems by (subst handle_loop.simps) auto
  next
    case (Some a)
    obtain h mh where s: "s = (h, mh)" by (cases s)
    obtain m where m: "h a = Some m" using less.prems(2) [OF Some] s by auto
    obtain h' where hm: "handle_message env a s = ((h', mh), True)" "\<forall>b. b \<noteq> a \<longrightarrow> h' b = h b"
      using quiet s unfolding quiet_def by (metis fst_conv snd_conv)
    have q': "queues (h', mh) ns os" using queues_other [OF _ hm(2)] less.prems(1,2) Some s by blast
    obtain s2 r ns' os' where d: "DequeueMessage (h', mh) (min_priority an mh) = Some (s2, r)" "queues s2 ns' os'"
      "paused (snd s2) = paused mh" "an \<and> \<not> paused mh \<or> ns' = ns"
      "\<And>a. r = Some a \<Longrightarrow> a \<notin> set ns' \<and> a \<notin> set os' \<and> fst s2 a \<noteq> None"
      "r = None \<Longrightarrow> os' = [] \<and> (an \<and> \<not> paused mh \<longrightarrow> ns' = [])"
      "length ns' + length os' + (if r = None then 0 else 1) \<le> length ns + length os"
      by (rule dequeue_step [OF q', of an]) simp
    have step: "handle_loop env an True s msg True = handle_loop env an True s2 r True"
      using Some s m hm(1) d(1) by (subst handle_loop.simps) simp
    have "length ns' + length os' + (if r = None then 0 else 1) < length ns + length os + (if msg = None then 0 else 1)"
      using d(7) Some by simp
    from less.hyps [OF this d(2) d(5)] have "\<exists>s'. handle_loop env an True s2 r True = Some (s', True) \<and>
        queues s' (if an \<and> \<not> paused (snd s2) then [] else ns') []" using d(3,6) by simp
    moreover have "(if an \<and> \<not> paused (snd s2) then [] else ns') = (if an \<and> \<not> paused (snd s) then [] else ns)"
      using d(3,4) s by auto
    ultimately show ?thesis unfolding step by simp
  qed
qed

lemma HandleMessages_quiet:
  assumes quiet: "quiet env" and q: "queues s ns os"
  shows "\<exists>s'. HandleMessages env an True s = Some (s', True) \<and>
    queues s' (if an \<and> \<not> paused (snd s) then [] else ns) []"
proof -
  obtain s2 r ns' os' where d: "DequeueMessage s (min_priority an (snd s)) = Some (s2, r)" "queues s2 ns' os'"
    "paused (snd s2) = paused (snd s)" "an \<and> \<not> paused (snd s) \<or> ns' = ns"
    "\<And>a. r = Some a \<Longrightarrow> a \<notin> set ns' \<and> a \<notin> set os' \<and> fst s2 a \<noteq> None"
    "r = None \<Longrightarrow> os' = [] \<and> (an \<and> \<not> paused (snd s) \<longrightarrow> ns' = [])"
    by (rule dequeue_step [OF q, of an]) simp
  have "\<exists>s'. handle_loop env an True s2 r True = Some (s', True) \<and>
      queues s' (if an \<and> \<not> paused (snd s2) then [] else ns') []"
    using handle_loop_quiet [OF quiet d(2) d(5)] d(3,6) by simp
  then show ?thesis using d(1,3,4) by (auto simp: HandleMessages_def)
qed

section \<open>Properties\<close>

text \<open>An environment whose methods do nothing, for evaluating the operations.\<close>

definition idle_env :: "bool \<Rightarrow> handler_env" where
  "idle_env ok = \<lparr>handle_message = (\<lambda>a s. (s, ok)), message_notify = (\<lambda>p s. s), notify_pause_on_start = (\<lambda>s. s),
     notify_pause_on_exit = (\<lambda>s. s), start_callback = (\<lambda>s. (s, True)), pool_run = True, current_time_millis = 0\<rparr>"

lemma idle_env_ok: "env_ok (idle_env ok)" "notify_ok (idle_env ok)" "quiet (idle_env True)"
  by (auto simp: env_ok_def notify_ok_def quiet_def idle_env_def)

definition example_message :: "dart_port \<Rightarrow> priority \<Rightarrow> addr option \<Rightarrow> message" where
  "example_message port p n = \<lparr>next_ptr = n, dest_port = port, delivery_failure_port = kIllegalPort, msg_data = [], msg_priority = p\<rparr>"

text \<open>A handler on a pool, with one event (address 1) and two out-of-band messages (addresses 2 and 3).\<close>

definition example_heap :: heap where
  "example_heap = [1 \<mapsto> example_message 7 kNormalPriority None, 2 \<mapsto> example_message 0 kOOBPriority (Some 3),
     3 \<mapsto> example_message 0 kOOBPriority None]"

definition example_handler :: message_handler where
  "example_handler = NewHandler\<lparr>normal_queue := \<lparr>head_ptr = Some 1, tail_ptr = Some 1\<rparr>,
     oob_queue := \<lparr>head_ptr = Some 2, tail_ptr = Some 3\<rparr>, live_ports := 1, pool_set := True, task_set := True\<rparr>"

lemma example_queues: "queues (example_heap, example_handler) [1] [2, 3]"
  by (simp add: queues_def queue_rep_def example_heap_def example_handler_def example_message_def NewHandler_def has_priority_def)

text \<open>
  C22: \<open>DequeueMessage\<close> takes the oldest out-of-band message; an event is taken only when there is
  no out-of-band message and the minimum priority allows it. The rest of both queues and all the
  other fields are kept.
\<close>

theorem DequeueMessage_refines:
  assumes "queues s ns os" "next_message p ns os = (r, ns', os')"
  shows "\<exists>s'. DequeueMessage s p = Some (s', r) \<and> queues s' ns' os' \<and> same_flags (snd s) (snd s') \<and>
    same_messages (fst s) (fst s') (set_option r)"
  using assms by (rule DequeueMessage_next)

theorem DequeueMessage_refines_witness:
  "\<exists>s'. DequeueMessage (example_heap, example_handler) kNormalPriority = Some (s', Some 2) \<and> queues s' [1] [3]"
  using DequeueMessage_refines [OF example_queues, of kNormalPriority "Some 2" "[1]" "[3]"] by auto

text \<open>
  Posting a message that is in no queue to a well-formed handler succeeds, inserts it in the
  queue of its priority, and leaves a task scheduled if the handler belongs to a pool.
\<close>

theorem PostMessage_refines:
  assumes "queues (h, mh) ns os" "h a = Some m" "next_ptr m = None" "a \<notin> set ns" "a \<notin> set os"
    "before_events \<longrightarrow> dest_port m = kIllegalPort" "pool_set mh \<and> \<not> task_set mh \<longrightarrow> pool_run env"
  shows "\<exists>s'. PostMessage env (h, mh) a before_events = Some (message_notify env (msg_priority m) s') \<and>
    pool_set (snd s') = pool_set mh \<and> (pool_set mh \<longrightarrow> task_set (snd s')) \<and>
    queues s' (fst (posted h ns os a m before_events)) (snd (posted h ns os a m before_events))"
  using assms by (intro PostMessage_post) auto

theorem PostMessage_refines_witness:
  "\<exists>s'. PostMessage (idle_env True) (example_heap(5 \<mapsto> example_message 7 kNormalPriority None), example_handler\<lparr>task_set := False\<rparr>) 5 False =
      Some s' \<and> task_set (snd s') \<and> queues s' [1, 5] [2, 3]"
proof -
  let ?h = "example_heap(5 \<mapsto> example_message 7 kNormalPriority None)" and ?mh = "example_handler\<lparr>task_set := False\<rparr>"
  have "queues (?h, ?mh) [1] [2, 3]" using queues_alloc(1) [OF example_queues, of 5] by (simp add: example_heap_def)
  from PostMessage_refines [OF this, of 5 "example_message 7 kNormalPriority None" False "idle_env True"]
  show ?thesis
    by (auto simp: example_message_def idle_env_def example_handler_def posted_def insert_message_def IsOOB_def)
qed





text \<open>
  C23: the loop of \<open>HandleMessages\<close> ends, and leaves nothing it may handle, when the messages it
  handles neither fail nor produce more messages.
\<close>

theorem HandleMessages_returns:
  assumes "quiet env" "queues s ns os"
  shows "\<exists>s'. HandleMessages env allow_normal True s = Some (s', True) \<and>
    queues s' (if allow_normal \<and> \<not> paused (snd s) then [] else ns) []"
  using assms by (rule HandleMessages_quiet)

theorem HandleMessages_returns_witness:
  "\<exists>s'. HandleMessages (idle_env True) True True (example_heap, example_handler) = Some (s', True) \<and> queues s' [] []"
  using HandleMessages_returns [OF idle_env_ok(3) example_queues, of True]
  by (simp add: paused_def example_handler_def NewHandler_def)


end
