(* ===== verification/Port_Messages.thy ===== *)
theory Port_Messages
  imports Port_Map Message_Handler
begin

text \<open>
  The operations of \<open>vm/port.cc\<close> that reach handlers and messages: posting a message to a port,
  opening and closing ports with the count of live ports of their handler, closing all the ports of
  a handler, and \<open>MessageQueue::Clear\<close>, which sends messages back to their delivery failure port.
  The state is the port map, the live handlers and the messages on the heap. What subclasses of
  \<open>MessageHandler\<close> provide is a record of functions on handler identities.
\<close>

record vm =
  ports :: port_map
  handlers :: "nat \<Rightarrow> message_handler option"
  messages :: heap

record vm_env =
  methods :: "nat \<Rightarrow> handler_env"
  owned_by_port_map :: "nat \<Rightarrow> bool"
  is_current_isolate :: "nat \<Rightarrow> bool"
  handler_isolate :: "nat \<Rightarrow> nat option"

subsection \<open>Operations\<close>

definition PortMap_PostMessage :: "vm_env \<Rightarrow> vm \<Rightarrow> addr \<Rightarrow> (vm \<times> bool) option" where
  "PortMap_PostMessage env vm msg = do {
     m \<leftarrow> messages vm msg;
     index \<leftarrow> FindPort (ports vm) (dest_port m);
     if index < 0 then do {
       h \<leftarrow> delete_message (messages vm) msg;
       Some (vm\<lparr>messages := h\<rparr>, False)
     }
     else do {
       ASSERT (index < capacity (ports vm));
       e \<leftarrow> read_at (map_entries (ports vm)) index;
       ASSERT (entry_port e \<noteq> 0);
       case entry_handler e of
         Handler k \<Rightarrow> do {
           mh \<leftarrow> handlers vm k;
           (h, mh) \<leftarrow> PostMessage (methods env k) (messages vm, mh) msg False;
           Some (vm\<lparr>messages := h, handlers := (handlers vm)(k \<mapsto> mh)\<rparr>, True)
         }
       | _ \<Rightarrow> None
     }
   }"

partial_function (option) clear_loop :: "vm_env \<Rightarrow> vm \<Rightarrow> addr option \<Rightarrow> vm option" where
  "clear_loop env vm cur = (case cur of
     None \<Rightarrow> Some vm
   | Some a \<Rightarrow> do {
       m \<leftarrow> messages vm a;
       r \<leftarrow> RedirectToDeliveryFailurePort (messages vm) a;
       vm' \<leftarrow> (if snd r
         then map_option fst (PortMap_PostMessage env (vm\<lparr>messages := fst r\<rparr>) a)
         else do { h \<leftarrow> delete_message (fst r) a; Some (vm\<lparr>messages := h\<rparr>) });
       clear_loop env vm' (next_ptr m)
     })"

text \<open>\<open>MessageQueue::Clear\<close> of the two queues of a handler.\<close>

definition clear_normal :: "vm_env \<Rightarrow> vm \<Rightarrow> nat \<Rightarrow> vm option" where
  "clear_normal env vm k = do {
     mh \<leftarrow> handlers vm k;
     clear_loop env (vm\<lparr>handlers := (handlers vm)(k \<mapsto> mh\<lparr>normal_queue := EmptyQueue\<rparr>)\<rparr>) (head_ptr (normal_queue mh))
   }"

definition clear_oob :: "vm_env \<Rightarrow> vm \<Rightarrow> nat \<Rightarrow> vm option" where
  "clear_oob env vm k = do {
     mh \<leftarrow> handlers vm k;
     clear_loop env (vm\<lparr>handlers := (handlers vm)(k \<mapsto> mh\<lparr>oob_queue := EmptyQueue\<rparr>)\<rparr>) (head_ptr (oob_queue mh))
   }"

definition CloseAllPorts :: "vm_env \<Rightarrow> vm \<Rightarrow> nat \<Rightarrow> vm option" where
  "CloseAllPorts env vm k = do { vm \<leftarrow> clear_normal env vm k; clear_oob env vm k }"


definition open_port :: "vm \<Rightarrow> nat \<Rightarrow> (vm \<times> dart_port) option" where
  "open_port vm k = do { (pm, port) \<leftarrow> CreatePort (ports vm) k; Some (vm\<lparr>ports := pm\<rparr>, port) }"



definition ClosePorts :: "vm_env \<Rightarrow> vm \<Rightarrow> nat \<Rightarrow> vm option" where
  "ClosePorts env vm k = do {
     mh \<leftarrow> handlers vm k;
     let (m, live, closed) = close_entries k (map_entries (ports vm));
     let pm = ports vm;
     pm \<leftarrow> MaintainInvariants (pm\<lparr>map_entries := m, used_count := used_count pm - closed,
             deleted_count := deleted_count pm + closed\<rparr>);
     CloseAllPorts env (vm\<lparr>ports := pm, handlers := (handlers vm)(k \<mapsto> mh\<lparr>live_ports := live_ports mh - live\<rparr>)\<rparr>) k
   }"

definition IsLocalPort :: "vm_env \<Rightarrow> vm \<Rightarrow> dart_port \<Rightarrow> bool option" where
  "IsLocalPort env vm port = do {
     index \<leftarrow> FindPort (ports vm) port;
     if index < 0 then Some False
     else do {
       e \<leftarrow> read_at (map_entries (ports vm)) index;
       case entry_handler e of Handler k \<Rightarrow> Some (is_current_isolate env k) | _ \<Rightarrow> None
     }
   }"

definition GetIsolate :: "vm_env \<Rightarrow> vm \<Rightarrow> dart_port \<Rightarrow> nat option option" where
  "GetIsolate env vm port = do {
     index \<leftarrow> FindPort (ports vm) port;
     if index < 0 then Some None
     else do {
       e \<leftarrow> read_at (map_entries (ports vm)) index;
       case entry_handler e of Handler k \<Rightarrow> Some (handler_isolate env k) | _ \<Rightarrow> None
     }
   }"

subsection \<open>Closing every port of a handler\<close>

definition mark_deleted :: "nat \<Rightarrow> entry \<Rightarrow> entry" where
  "mark_deleted k e = (if entry_handler e = Handler k then e\<lparr>entry_port := 0, entry_handler := HDeleted\<rparr> else e)"

lemma close_entries_map: "fst (close_entries k m) = map (mark_deleted k) m"
  by (induction k m rule: close_entries.induct) (auto simp: mark_deleted_def split: prod.splits)

lemma mark_deleted_ok: "entry_ok e \<Longrightarrow> entry_ok (mark_deleted k e)"
  by (auto simp: mark_deleted_def entry_ok_def in_use_def)

lemma mark_deleted_null: "entry_handler (mark_deleted k e) = HNull \<longleftrightarrow> entry_handler e = HNull"
  by (simp add: mark_deleted_def)

lemma mark_deleted_in_use: "in_use (mark_deleted k e) \<Longrightarrow> mark_deleted k e = e"
  by (auto simp: mark_deleted_def in_use_def split: if_splits)

lemma close_entries_counts:
  "close_entries k m = (m', live, closed) \<Longrightarrow> \<forall>e \<in> set m. entry_ok e \<Longrightarrow>
     bag m' = filter_mset (\<lambda>e. entry_handler e \<noteq> Handler k) (bag m) \<and>
     live = int (size (filter_mset (\<lambda>e. entry_handler e = Handler k \<and> entry_state e = kLivePort) (bag m))) \<and>
     closed = int (size (filter_mset (\<lambda>e. entry_handler e = Handler k) (bag m))) \<and>
     int (size (deleted_bag m')) = int (size (deleted_bag m)) + closed"
proof (induction k m arbitrary: m' live closed rule: close_entries.induct)
  case (2 k e es)
  obtain m1 l1 c1 where r: "close_entries k es = (m1, l1, c1)" by (metis prod_cases3)
  have e: "entry_handler e = Handler k \<Longrightarrow> in_use e" using "2.prems"(2) by (simp add: entry_ok_def)
  from "2.IH" [OF r] "2.prems" r e show ?case
    by (auto simp: deleted_bag_def in_use_def split: if_splits)
qed (simp add: deleted_bag_def)

lemma close_entries_ok:
  assumes c: "close_entries k m = (m', live, closed)" and ok: "arr_ok m"
  shows "arr_ok m'"
proof -
  have m': "m' = map (mark_deleted k) m" using close_entries_map [of k m] c by simp
  have b: "bag m' = filter_mset (\<lambda>e. entry_handler e \<noteq> Handler k) (bag m)"
    using close_entries_counts [OF c] ok by (simp add: arr_ok_def)
  have "\<forall>x \<in> set m'. entry_ok x" using ok unfolding m' by (auto simp: arr_ok_def mark_deleted_ok)
  moreover have "ports_distinct m'"
    unfolding ports_distinct_def
  proof
    fix p
    have "image_mset entry_port (bag m') \<subseteq># image_mset entry_port (bag m)" unfolding b by (rule image_mset_subseteq_mono) simp
    then have "count (image_mset entry_port (bag m')) p \<le> count (image_mset entry_port (bag m)) p" by (rule mset_subset_eq_count)
    also have "\<dots> \<le> 1" using ok by (simp add: arr_ok_def ports_distinct_def)
    finally show "count (image_mset entry_port (bag m')) p \<le> 1" .
  qed
  moreover have "chained m'"
    unfolding chained_def m' length_map
  proof (intro allI impI)
    fix i j
    assume i: "i < length m" "in_use (map (mark_deleted k) m ! i)"
      and j: "j < probes (length m) (nat (entry_port (map (mark_deleted k) m ! i))) i"
    have same: "map (mark_deleted k) m ! i = m ! i" using i mark_deleted_in_use by simp
    then have "in_use (m ! i)" "j < probes (length m) (nat (entry_port (m ! i))) i" using i j by simp_all
    then have "entry_handler (m ! ((nat (entry_port (m ! i)) + j) mod length m)) \<noteq> HNull"
      using ok i(1) unfolding arr_ok_def chained_def by blast
    moreover have "(nat (entry_port (m ! i)) + j) mod length m < length m" using i by (intro mod_less_divisor) auto
    ultimately show "entry_handler (map (mark_deleted k) m ! ((nat (entry_port (map (mark_deleted k) m ! i)) + j) mod length m)) \<noteq> HNull"
      unfolding same by (simp add: mark_deleted_null)
  qed
  ultimately show ?thesis by (simp add: arr_ok_def)
qed

subsection \<open>Posting\<close>

lemma PortMap_PostMessage_closed:
  assumes inv: "pm_inv (ports vm)" and m: "messages vm a = Some m" "0 \<le> dest_port m" "delivery_failure_port m = kIllegalPort"
    and l: "lookup (ports vm) (dest_port m) = None"
  shows "PortMap_PostMessage env vm a = Some (vm\<lparr>messages := (messages vm)(a := None)\<rparr>, False)"
  using FindPort_spec [OF inv m(2)] l m by (auto simp: PortMap_PostMessage_def delete_message_def)

lemma PortMap_PostMessage_open:
  assumes inv: "pm_inv (ports vm)" and m: "messages vm a = Some m" "0 \<le> dest_port m"
    and l: "lookup (ports vm) (dest_port m) = Some (k, st)" and mh: "handlers vm k = Some mh"
  shows "PortMap_PostMessage env vm a = map_option
    (\<lambda>s. (vm\<lparr>messages := fst s, handlers := (handlers vm)(k \<mapsto> snd s)\<rparr>, True))
    (PostMessage (methods env k) (messages vm, mh) a False)"
proof -
  obtain i where i: "i < length (map_entries (ports vm))" "FindPort (ports vm) (dest_port m) = Some (int i)"
    "in_use (map_entries (ports vm) ! i)" "entry_handler (map_entries (ports vm) ! i) = Handler k"
    "capacity (ports vm) = int (length (map_entries (ports vm)))" using lookup_found [OF inv m(2) l] by blast
  then show ?thesis
    using m(1) mh by (cases "PostMessage (methods env k) (messages vm, mh) a False")
      (auto simp: PortMap_PostMessage_def in_use_def)
qed

subsection \<open>Clearing a queue\<close>

definition remove_all :: "addr list \<Rightarrow> heap \<Rightarrow> heap" where
  "remove_all xs h = (\<lambda>a. if a \<in> set xs then None else h a)"

text \<open>A message that nobody waits for: it has no delivery failure port, or that port is closed.\<close>

definition undeliverable :: "vm \<Rightarrow> addr \<Rightarrow> bool" where
  "undeliverable vm a \<longleftrightarrow> (\<exists>m. messages vm a = Some m \<and> 0 \<le> delivery_failure_port m \<and>
     lookup (ports vm) (delivery_failure_port m) = None)"

lemma clear_step:
  assumes inv: "pm_inv (ports vm)" and a: "undeliverable vm a" and m: "messages vm a = Some m"
  shows "clear_loop env vm (Some a) = clear_loop env (vm\<lparr>messages := (messages vm)(a := None)\<rparr>) (next_ptr m)"
proof (cases "delivery_failure_port m = kIllegalPort")
  case True
  then show ?thesis
    using m by (subst clear_loop.simps) (simp add: RedirectToDeliveryFailurePort_def delete_message_def)
next
  case False
  let ?m = "m\<lparr>dest_port := delivery_failure_port m, delivery_failure_port := kIllegalPort\<rparr>"
  have p: "PortMap_PostMessage env (vm\<lparr>messages := (messages vm)(a \<mapsto> ?m)\<rparr>) a =
      Some (vm\<lparr>messages := (messages vm)(a := None)\<rparr>, False)"
    using PortMap_PostMessage_closed [of "vm\<lparr>messages := (messages vm)(a \<mapsto> ?m)\<rparr>" a ?m] inv a m
    by (auto simp: undeliverable_def)
  have r: "RedirectToDeliveryFailurePort (messages vm) a = Some ((messages vm)(a \<mapsto> ?m), True)"
    using m False by (simp add: RedirectToDeliveryFailurePort_def)
  show ?thesis using m p r by (subst clear_loop.simps) simp
qed

lemma clear_loop_deletes:
  assumes "lseg (messages vm) cur xs None" "distinct xs" "pm_inv (ports vm)" "\<forall>a \<in> set xs. undeliverable vm a"
  shows "clear_loop env vm cur = Some (vm\<lparr>messages := remove_all xs (messages vm)\<rparr>)"
  using assms
proof (induction xs arbitrary: vm cur)
  case Nil
  then show ?case by (subst clear_loop.simps) (simp add: remove_all_def)
next
  case (Cons a xs)
  then obtain m where m: "cur = Some a" "messages vm a = Some m" "lseg (messages vm) (next_ptr m) xs None" by auto
  let ?vm = "vm\<lparr>messages := (messages vm)(a := None)\<rparr>"
  have "clear_loop env vm cur = clear_loop env ?vm (next_ptr m)" using clear_step [OF Cons.prems(3) _ m(2)] Cons.prems(4) m(1) by simp
  also have "\<dots> = Some (?vm\<lparr>messages := remove_all xs (messages ?vm)\<rparr>)"
  proof (rule Cons.IH)
    show "lseg (messages ?vm) (next_ptr m) xs None" using m(3) Cons.prems(2) lseg_upd [of a xs "messages vm" None] by simp
    show "\<forall>b \<in> set xs. undeliverable ?vm b"
    proof
      fix b
      assume b: "b \<in> set xs"
      then have "b \<noteq> a" "undeliverable vm b" using Cons.prems(2,4) by auto
      then show "undeliverable ?vm b" by (simp add: undeliverable_def)
    qed
  qed (use Cons.prems m in auto)
  also have "remove_all xs (messages ?vm) = remove_all (a # xs) (messages vm)" by (auto simp: remove_all_def)
  finally show ?case by simp
qed

lemma queue_rep_lseg: "queue_rep h q xs \<Longrightarrow> lseg h (head_ptr q) xs None \<and> distinct xs"
  by (simp add: queue_rep_def)

lemma CloseAllPorts_deletes:
  assumes inv: "pm_inv (ports vm)" and mh: "handlers vm k = Some mh" and q: "queues (messages vm, mh) ns os"
    and u: "\<forall>a \<in> set ns \<union> set os. undeliverable vm a"
  shows "CloseAllPorts env vm k = Some (vm\<lparr>messages := remove_all (ns @ os) (messages vm),
    handlers := (handlers vm)(k \<mapsto> mh\<lparr>normal_queue := EmptyQueue, oob_queue := EmptyQueue\<rparr>)\<rparr>)"
proof -
  have qn: "lseg (messages vm) (head_ptr (normal_queue mh)) ns None" "distinct ns" and
    qo: "lseg (messages vm) (head_ptr (oob_queue mh)) os None" "distinct os" and disj: "set ns \<inter> set os = {}"
    using q by (simp_all add: queues_def queue_rep_def)
  let ?vm1 = "vm\<lparr>messages := remove_all ns (messages vm), handlers := (handlers vm)(k \<mapsto> mh\<lparr>normal_queue := EmptyQueue\<rparr>)\<rparr>"
  have "clear_normal env vm k = Some ?vm1"
    using clear_loop_deletes [of "vm\<lparr>handlers := (handlers vm)(k \<mapsto> mh\<lparr>normal_queue := EmptyQueue\<rparr>)\<rparr>" _ ns env] mh qn inv u
    by (simp add: clear_normal_def undeliverable_def)
  moreover have "clear_oob env ?vm1 k = Some (?vm1\<lparr>messages := remove_all os (messages ?vm1),
      handlers := (handlers ?vm1)(k \<mapsto> mh\<lparr>normal_queue := EmptyQueue, oob_queue := EmptyQueue\<rparr>)\<rparr>)"
  proof -
    let ?vm2 = "?vm1\<lparr>handlers := (handlers ?vm1)(k \<mapsto> mh\<lparr>normal_queue := EmptyQueue, oob_queue := EmptyQueue\<rparr>)\<rparr>"
    have keep: "messages ?vm2 b = messages vm b" if "b \<in> set os" for b using disj that by (auto simp: remove_all_def)
    have "lseg (messages ?vm2) (head_ptr (oob_queue mh)) os None" using qo(1) lseg_cong [of os "messages ?vm2" "messages vm"] keep by simp
    moreover have "\<forall>a \<in> set os. undeliverable ?vm2 a" using u keep by (auto simp: undeliverable_def)
    ultimately show ?thesis
      using clear_loop_deletes [of ?vm2 _ os env] inv qo(2) by (simp add: clear_oob_def)
  qed
  moreover have "remove_all os (remove_all ns (messages vm)) = remove_all (ns @ os) (messages vm)" by (auto simp: remove_all_def)
  ultimately show ?thesis by (simp add: CloseAllPorts_def)
qed

subsection \<open>The count of live ports\<close>

definition is_live :: "nat \<Rightarrow> entry \<Rightarrow> bool" where
  "is_live k e \<longleftrightarrow> entry_handler e = Handler k \<and> entry_state e = kLivePort"

lemma is_live_eq: "is_live k = (\<lambda>e. entry_handler e = Handler k \<and> entry_state e = kLivePort)"
  by (simp add: fun_eq_iff is_live_def)

definition live_count :: "port_map \<Rightarrow> nat \<Rightarrow> int" where
  "live_count pm k = int (size (filter_mset (is_live k) (bag (map_entries pm))))"

text \<open>Every handler in the table is alive, and its count of live ports is that of the table.\<close>

definition vm_inv :: "vm \<Rightarrow> bool" where
  "vm_inv vm \<longleftrightarrow> pm_inv (ports vm) \<and>
     (\<forall>e \<in># bag (map_entries (ports vm)). \<forall>k. entry_handler e = Handler k \<longrightarrow> handlers vm k \<noteq> None) \<and>
     (\<forall>k mh. handlers vm k = Some mh \<longrightarrow> live_ports mh = live_count (ports vm) k)"

lemma vm_inv_handler:
  assumes "vm_inv vm" "lookup (ports vm) port = Some (k, st)"
  obtains mh where "handlers vm k = Some mh"
proof -
  have "\<exists>e \<in># bag (map_entries (ports vm)). entry_handler e = Handler k"
    using assms lookup_port_iff [of "map_entries (ports vm)" port "(k, st)"] by (auto simp: vm_inv_def)
  then show ?thesis using assms(1) that unfolding vm_inv_def by (metis not_None_eq)
qed

lemma open_port_inv:
  assumes inv: "vm_inv vm" and k: "handlers vm k \<noteq> None" and o: "open_port vm k = Some (vm', port)"
  shows "vm_inv vm'" "lookup (ports vm') = (lookup (ports vm))(port \<mapsto> (k, kNewPort))"
proof -
  let ?e = "\<lparr>entry_port = port, entry_handler = Handler k, entry_state = kNewPort\<rparr>"
  obtain pm' where c: "CreatePort (ports vm) k = Some (pm', port)" "vm' = vm\<lparr>ports := pm'\<rparr>" using o by (auto simp: open_port_def)
  then obtain pm1 where a: "AllocatePort (ports vm) = Some (pm1, port)" by (auto simp: CreatePort_def)
  have pinv: "pm_inv (ports vm)" using inv by (simp add: vm_inv_def)
  from CreatePort_alloc [OF pinv a, of k] c(1) have p: "pm_inv pm'" "lookup pm' = (lookup (ports vm))(port \<mapsto> (k, kNewPort))"
    and b: "bag (map_entries pm') = add_mset ?e (bag (map_entries (ports vm)))" by auto
  have "live_count pm' j = live_count (ports vm) j" for j by (simp add: live_count_def b is_live_def)
  then show "vm_inv vm'" using inv k p b c(2) by (auto simp: vm_inv_def)
  show "lookup (ports vm') = (lookup (ports vm))(port \<mapsto> (k, kNewPort))" using p c(2) by simp
qed




lemma close_entries_lookup:
  assumes c: "close_entries k m = (m', live, closed)" and ok: "arr_ok m"
  shows "lookup_port m' p = (case lookup_port m p of Some (j, st) \<Rightarrow> if j = k then None else Some (j, st) | None \<Rightarrow> None)"
proof -
  have ok': "arr_ok m'" by (rule close_entries_ok [OF c ok])
  have b: "bag m' = filter_mset (\<lambda>e. entry_handler e \<noteq> Handler k) (bag m)"
    using close_entries_counts [OF c] ok by (simp add: arr_ok_def)
  have "lookup_port m' p = Some v \<longleftrightarrow> lookup_port m p = Some v \<and> fst v \<noteq> k" for v
    by (auto simp: lookup_port_iff [OF ok] lookup_port_iff [OF ok'] b)
  then show ?thesis by (cases "lookup_port m' p"; cases "lookup_port m p") force+
qed

lemma size_partition: "size (filter_mset P M) + size (filter_mset (\<lambda>x. \<not> P x) M) = size M"
  by (metis multiset_partition size_union)

lemma ClosePorts_ok:
  assumes inv: "vm_inv vm" and mh: "handlers vm k = Some mh" and q: "queues (messages vm, mh) ns os"
    and u: "\<forall>a \<in> set ns \<union> set os. undeliverable vm a"
  shows "\<exists>vm'. ClosePorts env vm k = Some vm' \<and> vm_inv vm' \<and> messages vm' = remove_all (ns @ os) (messages vm) \<and>
    handlers vm' = (handlers vm)(k \<mapsto> mh\<lparr>live_ports := 0, normal_queue := EmptyQueue, oob_queue := EmptyQueue\<rparr>) \<and>
    (\<forall>p. lookup (ports vm') p =
      (case lookup (ports vm) p of Some (j, st) \<Rightarrow> if j = k then None else Some (j, st) | None \<Rightarrow> None))"
proof -
  let ?pm = "ports vm" and ?m = "map_entries (ports vm)"
  obtain m live closed where c: "close_entries k ?m = (m, live, closed)" by (metis prod_cases3)
  have pinv: "pm_inv ?pm" "counts_ok ?pm" and ok: "arr_ok ?m" using inv by (auto simp: vm_inv_def pm_inv_def counts_ok_def)
  note n = close_entries_counts [OF c]
  have b: "bag m = filter_mset (\<lambda>e. entry_handler e \<noteq> Handler k) (bag ?m)" and live: "live = live_count ?pm k"
    and closed: "closed = int (size (filter_mset (\<lambda>e. entry_handler e = Handler k) (bag ?m)))"
    "int (size (deleted_bag m)) = int (size (deleted_bag ?m)) + closed"
    using n ok by (auto simp: arr_ok_def live_count_def is_live_eq)
  let ?pm1 = "?pm\<lparr>map_entries := m, used_count := used_count ?pm - closed, deleted_count := deleted_count ?pm + closed\<rparr>"
  have "size (bag m) + size (filter_mset (\<lambda>e. entry_handler e = Handler k) (bag ?m)) = size (bag ?m)"
    unfolding b using size_partition [of "\<lambda>e. entry_handler e = Handler k" "bag ?m"] by simp
  moreover have "length m = length ?m" using close_entries_map [of k ?m] c by (metis fst_conv length_map)
  ultimately have "counts_ok ?pm1"
    using pinv(2) closed close_entries_ok [OF c ok] by (auto simp: counts_ok_def)
  from MaintainInvariants_ok [OF this] obtain pm' where m: "MaintainInvariants ?pm1 = Some pm'" "pm_inv pm'"
    "bag (map_entries pm') = bag m" by auto
  have look: "lookup pm' p = (case lookup ?pm p of Some (j, st) \<Rightarrow> if j = k then None else Some (j, st) | None \<Rightarrow> None)" for p
    using lookup_port_cong [OF close_entries_ok [OF c ok] pm_inv_arr [OF m(2)] m(3)] close_entries_lookup [OF c ok] by simp
  have lp: "live_ports mh = live" using inv mh live by (auto simp: vm_inv_def)
  let ?mh = "mh\<lparr>live_ports := 0\<rparr>"
  let ?vm = "vm\<lparr>ports := pm', handlers := (handlers vm)(k \<mapsto> ?mh)\<rparr>"
  have q': "queues (messages ?vm, ?mh) ns os" using queues_cong [of "(messages ?vm, ?mh)" "(messages vm, mh)"] q by simp
  have u': "\<forall>a \<in> set ns \<union> set os. undeliverable ?vm a"
  proof
    fix a
    assume "a \<in> set ns \<union> set os"
    then obtain m where "messages vm a = Some m" "0 \<le> delivery_failure_port m" "lookup ?pm (delivery_failure_port m) = None"
      using u by (auto simp: undeliverable_def)
    then show "undeliverable ?vm a" using look [of "delivery_failure_port m"] by (simp add: undeliverable_def)
  qed
  let ?mh2 = "?mh\<lparr>normal_queue := EmptyQueue, oob_queue := EmptyQueue\<rparr>"
  let ?vm2 = "?vm\<lparr>messages := remove_all (ns @ os) (messages vm), handlers := (handlers vm)(k \<mapsto> ?mh2)\<rparr>"
  have "CloseAllPorts env ?vm k = Some ?vm2" using CloseAllPorts_deletes [OF _ _ q' u'] m(2) by simp
  then have "ClosePorts env vm k = Some ?vm2" using mh c m(1) lp by (simp add: ClosePorts_def)
  moreover have "vm_inv ?vm2"
  proof -
    have "live_count pm' j = (if j = k then 0 else live_count ?pm j)" for j
      unfolding live_count_def m(3) b by (auto simp: is_live_def filter_filter_mset intro!: arg_cong [of _ _ size] filter_mset_cong)
    then show ?thesis using inv m(2,3) b by (auto simp: vm_inv_def)
  qed
  ultimately show ?thesis using look by auto
qed

section \<open>Properties\<close>


text \<open>A program with one handler, no port, and a message to the port that will be opened.\<close>

definition example_vm :: vm where
  "example_vm = \<lparr>ports = example_map, handlers = [0 \<mapsto> NewHandler],
     messages = [1 \<mapsto> example_message 207665294 kNormalPriority None]\<rparr>"

definition example_env :: vm_env where
  "example_env = \<lparr>methods = (\<lambda>k. idle_env True), owned_by_port_map = (\<lambda>k. False),
     is_current_isolate = (\<lambda>k. True), handler_isolate = (\<lambda>k. None)\<rparr>"

lemma example_vm_inv: "vm_inv example_vm"
proof -
  have "bag (map_entries example_map) = {#}" using bag_zero [of 8] by (simp add: example_map_def)
  then show ?thesis
    using InitOnce_ok(1) [OF example_map_init]
    by (auto simp: vm_inv_def example_vm_def live_count_def NewHandler_def split: if_splits)
qed

lemma example_open: "\<exists>vm. open_port example_vm 0 = Some (vm, 207665294)"
proof -
  have "map_option snd (CreatePort example_map 0) = Some 207665294" by code_simp
  then show ?thesis by (auto simp: open_port_def example_vm_def)
qed


text \<open>
  C16: \<open>PortMap::PostMessage\<close> puts a message in the queue of the handler of its port, behind the
  messages already there, and schedules a task for a handler on a pool; a message to a port that is
  not open is deleted.
\<close>

theorem PostMessage_delivers:
  assumes "vm_inv vm" "messages vm a = Some m" "0 \<le> dest_port m"
  shows "(lookup_port (map_entries (ports vm)) (dest_port m) = None \<and> delivery_failure_port m = kIllegalPort \<longrightarrow>
      PortMap_PostMessage env vm a = Some (vm\<lparr>messages := (messages vm)(a := None)\<rparr>, False)) \<and>
    (\<forall>k st mh ns os. lookup_port (map_entries (ports vm)) (dest_port m) = Some (k, st) \<longrightarrow> handlers vm k = Some mh \<longrightarrow>
      queues (messages vm, mh) ns os \<longrightarrow> next_ptr m = None \<longrightarrow> a \<notin> set ns \<union> set os \<longrightarrow>
      (pool_set mh \<and> \<not> task_set mh \<longrightarrow> pool_run (methods env k)) \<longrightarrow>
      (\<exists>s. PortMap_PostMessage env vm a = Some (vm\<lparr>
            messages := fst (message_notify (methods env k) (msg_priority m) s),
            handlers := (handlers vm)(k \<mapsto> snd (message_notify (methods env k) (msg_priority m) s))\<rparr>, True) \<and>
        (pool_set mh \<longrightarrow> task_set (snd s)) \<and>
        (if IsOOB m then queues s ns (os @ [a]) else queues s (ns @ [a]) os)))"
proof (intro conjI impI allI)
  have inv: "pm_inv (ports vm)" using assms(1) by (simp add: vm_inv_def)
  show "PortMap_PostMessage env vm a = Some (vm\<lparr>messages := (messages vm)(a := None)\<rparr>, False)"
    if "lookup_port (map_entries (ports vm)) (dest_port m) = None \<and> delivery_failure_port m = kIllegalPort"
    using PortMap_PostMessage_closed [OF inv assms(2,3)] that by simp
  fix k st mh ns os
  assume l: "lookup_port (map_entries (ports vm)) (dest_port m) = Some (k, st)" and mh: "handlers vm k = Some mh"
    and q: "queues (messages vm, mh) ns os" and f: "next_ptr m = None" "a \<notin> set ns \<union> set os"
    and pool: "pool_set mh \<and> \<not> task_set mh \<longrightarrow> pool_run (methods env k)"
  have "a \<notin> set ns" "a \<notin> set os" "False \<Longrightarrow> dest_port m = kIllegalPort" using f(2) by auto
  from PostMessage_post [OF q assms(2) f(1) this pool [rule_format]] obtain s where
    s: "PostMessage (methods env k) (messages vm, mh) a False = Some (message_notify (methods env k) (msg_priority m) s)"
      "pool_set mh \<longrightarrow> task_set (snd s)"
      "queues s (fst (posted (messages vm) ns os a m False)) (snd (posted (messages vm) ns os a m False))" by blast
  then show "\<exists>s. PortMap_PostMessage env vm a = Some (vm\<lparr>
            messages := fst (message_notify (methods env k) (msg_priority m) s),
            handlers := (handlers vm)(k \<mapsto> snd (message_notify (methods env k) (msg_priority m) s))\<rparr>, True) \<and>
        (pool_set mh \<longrightarrow> task_set (snd s)) \<and>
        (if IsOOB m then queues s ns (os @ [a]) else queues s (ns @ [a]) os)"
    using PortMap_PostMessage_open [OF inv assms(2,3) l mh, of env]
    by (intro exI [of _ s]) (auto simp: posted_def insert_message_def)
qed

theorem PostMessage_delivers_witness:
  "\<exists>vm1 vm2. open_port example_vm 0 = Some (vm1, 207665294) \<and> PortMap_PostMessage example_env vm1 1 = Some (vm2, True) \<and>
     PortMap_PostMessage example_env example_vm 1 = Some (example_vm\<lparr>messages := (messages example_vm)(1 := None)\<rparr>, False)"
proof -
  let ?m = "example_message 207665294 kNormalPriority None"
  obtain vm1 where v1: "open_port example_vm 0 = Some (vm1, 207665294)" using example_open by blast
  have m1: "messages vm1 = messages example_vm" "handlers vm1 = handlers example_vm" using v1 by (auto simp: open_port_def)
  have l1: "vm_inv vm1" "lookup_port (map_entries (ports vm1)) 207665294 = Some (0, kNewPort)"
    using open_port_inv [OF example_vm_inv _ v1] by (auto simp: example_vm_def)
  have m: "messages vm1 1 = Some ?m" "handlers vm1 0 = Some NewHandler" "messages example_vm 1 = Some ?m"
    by (simp_all add: m1 example_vm_def)
  have q: "queues (messages vm1, NewHandler) [] []" by (simp add: queues_def NewHandler_def)
  have "\<exists>vm2. PortMap_PostMessage example_env vm1 1 = Some (vm2, True)"
    using PostMessage_delivers [OF l1(1) m(1), of example_env] l1(2) m(2) q
    by (fastforce simp: example_message_def NewHandler_def)
  moreover have "PortMap_PostMessage example_env example_vm 1 = Some (example_vm\<lparr>messages := (messages example_vm)(1 := None)\<rparr>, False)"
    using PostMessage_delivers [OF example_vm_inv m(3), of example_env] InitOnce_ok(2) [OF example_map_init]
    by (simp add: example_message_def example_vm_def)
  ultimately show ?thesis using v1 by blast
qed

text \<open>
  C24: \<open>ClosePorts\<close> closes exactly the ports of the handler, sets its count of live ports to zero,
  empties both its queues and frees every pending message, when nobody is waiting for these
  messages at an open delivery failure port.
\<close>

theorem ClosePorts_closes:
  assumes "vm_inv vm" "handlers vm k = Some mh" "queues (messages vm, mh) ns os"
    "\<forall>a \<in> set ns \<union> set os. undeliverable vm a"
  shows "\<exists>vm'. ClosePorts env vm k = Some vm' \<and> vm_inv vm' \<and> messages vm' = remove_all (ns @ os) (messages vm) \<and>
    handlers vm' = (handlers vm)(k \<mapsto> mh\<lparr>live_ports := 0, normal_queue := EmptyQueue, oob_queue := EmptyQueue\<rparr>) \<and>
    (\<forall>p. lookup_port (map_entries (ports vm')) p =
      (case lookup_port (map_entries (ports vm)) p of Some (j, st) \<Rightarrow> if j = k then None else Some (j, st) | None \<Rightarrow> None))"
  using assms by (rule ClosePorts_ok)

theorem ClosePorts_closes_witness:
  "\<exists>vm vm'. open_port example_vm 0 = Some (vm, 207665294) \<and> ClosePorts example_env vm 0 = Some vm' \<and>
     lookup_port (map_entries (ports vm')) 207665294 = None"
proof -
  obtain vm1 where v1: "open_port example_vm 0 = Some (vm1, 207665294)" using example_open by blast
  have h: "handlers vm1 0 = Some NewHandler" using v1 by (auto simp: open_port_def example_vm_def)
  have l1: "vm_inv vm1" "lookup_port (map_entries (ports vm1)) 207665294 = Some (0, kNewPort)"
    using open_port_inv [OF example_vm_inv _ v1] by (auto simp: example_vm_def)
  have q: "queues (messages vm1, NewHandler) [] []" by (simp add: queues_def NewHandler_def)
  from ClosePorts_closes [OF l1(1) h q, of example_env] show ?thesis using v1 l1(2) by fastforce
qed

text \<open>
  C25: \<open>MessageQueue::Clear\<close> sends a message whose delivery failure port is open to that port
  without unlinking it from the queue it was in: unless it is the last message of the queue, the
  assertion of \<open>Enqueue\<close> that the message is not linked fails.
\<close>

theorem Clear_redirect_fails:
  assumes "vm_inv vm" "messages vm a = Some m" "next_ptr m = Some b" "delivery_failure_port m \<noteq> kIllegalPort"
    "0 \<le> delivery_failure_port m" "lookup_port (map_entries (ports vm)) (delivery_failure_port m) = Some (k, st)"
  shows "clear_loop env vm (Some a) = None"
proof -
  let ?m = "m\<lparr>dest_port := delivery_failure_port m, delivery_failure_port := kIllegalPort\<rparr>"
  let ?vm = "vm\<lparr>messages := (messages vm)(a \<mapsto> ?m)\<rparr>"
  have r: "RedirectToDeliveryFailurePort (messages vm) a = Some ((messages vm)(a \<mapsto> ?m), True)"
    using assms by (simp add: RedirectToDeliveryFailurePort_def)
  obtain mh where mh: "handlers vm k = Some mh" using vm_inv_handler [OF assms(1,6)] by blast
  have "Enqueue (messages ?vm) q a False = None" for q using assms(3) by (simp add: Enqueue_def)
  then have "PostMessage (methods env k) (messages ?vm, mh) a False = None" by (simp add: PostMessage_def enqueue_message_def)
  then have "PortMap_PostMessage env ?vm a = None"
    using PortMap_PostMessage_open [of ?vm a ?m k st mh env] assms mh by (simp add: vm_inv_def)
  then show ?thesis using assms(2) r by (subst clear_loop.simps) simp
qed

theorem Clear_redirect_fails_witness:
  "\<exists>vm. open_port example_vm 0 = Some (vm, 207665294) \<and>
     clear_loop example_env (vm\<lparr>messages := [2 \<mapsto> (example_message 9 kNormalPriority (Some 3))\<lparr>delivery_failure_port := 207665294\<rparr>,
       3 \<mapsto> example_message 9 kNormalPriority None]\<rparr>) (Some 2) = None"
proof -
  let ?h = "[2 \<mapsto> (example_message 9 kNormalPriority (Some 3))\<lparr>delivery_failure_port := 207665294\<rparr>,
    3 \<mapsto> example_message 9 kNormalPriority None]"
  obtain vm1 where v1: "open_port example_vm 0 = Some (vm1, 207665294)" using example_open by blast
  have l1: "vm_inv vm1" "lookup_port (map_entries (ports vm1)) 207665294 = Some (0, kNewPort)"
    using open_port_inv [OF example_vm_inv _ v1] by (auto simp: example_vm_def)
  then have "vm_inv (vm1\<lparr>messages := ?h\<rparr>)" by (simp add: vm_inv_def)
  from Clear_redirect_fails [OF this, of 2 _ 3 0 kNewPort example_env] show ?thesis
    using v1 l1(2) by (simp add: example_message_def kIllegalPort_def)
qed

end
