(* ===== verification/Data_Stream.thy ===== *)
theory Data_Stream
  imports Dart_Utils
begin

text \<open>
  The byte streams of \<open>vm/datastream.h\<close>, with which snapshots and messages are written and read.
  A number is written in groups of seven bits, least significant first; the last byte is above 127.
  \<open>ReadStream\<close> is a buffer with a current and an end position. \<open>WriteStream\<close> is the memory it
  has allocated with its current position; the reallocation function is a parameter. \<open>None\<close> also
  stands for the exception that is thrown when no memory can be allocated.
\<close>

unbundle bit_operations_syntax

definition kDataBitsPerByte :: nat where "kDataBitsPerByte = 7"
definition kByteMask :: int where "kByteMask = 2 ^ kDataBitsPerByte - 1"
definition kMaxUnsignedDataPerByte :: int where "kMaxUnsignedDataPerByte = kByteMask"
definition kMinDataPerByte :: int where "kMinDataPerByte = - (2 ^ (kDataBitsPerByte - 1))"
definition kMaxDataPerByte :: int where "kMaxDataPerByte = (NOT kMinDataPerByte) AND kByteMask"
definition kEndByteMarker :: int where "kEndByteMarker = 255 - kMaxDataPerByte"
definition kEndUnsignedByteMarker :: int where "kEndUnsignedByteMarker = 255 - kMaxUnsignedDataPerByte"

subsection \<open>ReadStream\<close>

record read_stream =
  rs_buffer :: "byte list"
  rs_current :: int
  rs_end :: int

definition ReadStream :: "byte list \<Rightarrow> int \<Rightarrow> read_stream" where
  "ReadStream buffer sz = \<lparr>rs_buffer = buffer, rs_current = 0, rs_end = sz\<rparr>"

definition next_byte :: "read_stream \<Rightarrow> int \<Rightarrow> (int \<times> int) option" where
  "next_byte st c = do { ASSERT (c < rs_end st); b \<leftarrow> read_at (rs_buffer st) c; Some (uint b, c + 1) }"

definition ReadByte :: "read_stream \<Rightarrow> (read_stream \<times> byte) option" where
  "ReadByte st = do {
     ASSERT (rs_current st < rs_end st);
     b \<leftarrow> read_at (rs_buffer st) (rs_current st);
     Some (st\<lparr>rs_current := rs_current st + 1\<rparr>, b)
   }"

definition ReadBytes :: "read_stream \<Rightarrow> int \<Rightarrow> (read_stream \<times> byte list) option" where
  "ReadBytes st len = do {
     ASSERT (rs_end st - rs_current st \<ge> len);
     ASSERT (0 \<le> len \<and> 0 \<le> rs_current st \<and> rs_current st + len \<le> int (length (rs_buffer st)));
     Some (st\<lparr>rs_current := rs_current st + len\<rparr>, take (nat len) (drop (nat (rs_current st)) (rs_buffer st)))
   }"

definition Position :: "read_stream \<Rightarrow> int" where
  "Position st = rs_current st"

definition SetPosition :: "read_stream \<Rightarrow> int \<Rightarrow> read_stream option" where
  "SetPosition st v = do { ASSERT (rs_end st > v); Some (st\<lparr>rs_current := v\<rparr>) }"

definition Advance :: "read_stream \<Rightarrow> int \<Rightarrow> read_stream option" where
  "Advance st v = do { ASSERT (rs_end st - rs_current st > v); Some (st\<lparr>rs_current := rs_current st + v\<rparr>) }"

definition PendingBytes :: "read_stream \<Rightarrow> int option" where
  "PendingBytes st = do { ASSERT (rs_end st \<ge> rs_current st); Some (rs_end st - rs_current st) }"

text \<open>
  The shift of a \<open>w\<close>-bit signed value, undefined when the count or the result is out of range.
\<close>

definition fits :: "nat \<Rightarrow> int \<Rightarrow> bool" where
  "fits w x \<longleftrightarrow> - (2 ^ (w - 1)) \<le> x \<and> x < 2 ^ (w - 1)"

definition shl_at :: "nat \<Rightarrow> int \<Rightarrow> nat \<Rightarrow> int option" where
  "shl_at w x s = (if s < w \<and> fits w (push_bit s x) then Some (push_bit s x) else None)"

text \<open>The loop of \<open>Read<T>\<close> for \<open>T = intptr_t\<close>; \<open>b\<close> is the byte read last, \<open>s\<close> the shift.\<close>

partial_function (option) read_loop :: "read_stream \<Rightarrow> int \<Rightarrow> int \<Rightarrow> int \<Rightarrow> int \<Rightarrow> nat \<Rightarrow> (read_stream \<times> int) option" where
  "read_loop st marker b c r s = do {
     x \<leftarrow> shl_at 64 b s;
     (b, c) \<leftarrow> next_byte st c;
     if b \<le> kMaxUnsignedDataPerByte then read_loop st marker b c (r OR x) (s + kDataBitsPerByte)
     else do {
       y \<leftarrow> shl_at 64 (b - marker) (s + kDataBitsPerByte);
       Some (st\<lparr>rs_current := c\<rparr>, (r OR x) OR y)
     }
   }"

definition Read :: "read_stream \<Rightarrow> int \<Rightarrow> (read_stream \<times> int) option" where
  "Read st marker = do {
     (b, c) \<leftarrow> next_byte st (rs_current st);
     if b > kMaxUnsignedDataPerByte then Some (st\<lparr>rs_current := c\<rparr>, b - marker)
     else read_loop st marker b c 0 0
   }"

definition ReadUnsigned :: "read_stream \<Rightarrow> (read_stream \<times> int) option" where
  "ReadUnsigned st = Read st kEndUnsignedByteMarker"

text \<open>
  \<open>Read16\<close>, \<open>Read32\<close> and \<open>Read64\<close> are the same loop unrolled: one step for each shift of the
  list, the last of which must be the end byte. Shifts are computed at \<open>w\<close> bits and the result is
  stored in a variable of \<open>n\<close> bits.
\<close>

fun read_unrolled :: "nat \<Rightarrow> nat \<Rightarrow> read_stream \<Rightarrow> int \<Rightarrow> nat list \<Rightarrow> int \<Rightarrow> int \<Rightarrow> (read_stream \<times> int) option" where
  "read_unrolled w n st marker [] c r = None"
| "read_unrolled w n st marker (s # ss) c r = do {
     (b, c) \<leftarrow> next_byte st c;
     if b > kMaxUnsignedDataPerByte then do {
       y \<leftarrow> shl_at w (b - marker) s;
       Some (st\<lparr>rs_current := c\<rparr>, signed_take_bit (n - 1) (r OR y))
     }
     else do {
       x \<leftarrow> shl_at w b s;
       read_unrolled w n st marker ss c (signed_take_bit (n - 1) (r OR x))
     }
   }"

definition Read16 :: "read_stream \<Rightarrow> (read_stream \<times> int) option" where
  "Read16 st = read_unrolled 32 16 st kEndByteMarker [0, 7, 14] (rs_current st) 0"

definition Read32 :: "read_stream \<Rightarrow> (read_stream \<times> int) option" where
  "Read32 st = read_unrolled 32 32 st kEndByteMarker [0, 7, 14, 21, 28] (rs_current st) 0"

definition Read64 :: "read_stream \<Rightarrow> (read_stream \<times> int) option" where
  "Read64 st = read_unrolled 64 64 st kEndByteMarker [0, 7, 14, 21, 28, 35, 42, 49, 56, 63] (rs_current st) 0"

subsection \<open>WriteStream\<close>

record write_stream =
  ws_buffer :: "byte list"
  ws_current :: int
  ws_current_size :: int
  ws_initial_size :: int

type_synonym realloc = "byte list \<Rightarrow> int \<Rightarrow> int \<Rightarrow> byte list option"

definition ws_end :: "write_stream \<Rightarrow> int" where
  "ws_end st = ws_current_size st"

definition bytes_written :: "write_stream \<Rightarrow> int" where
  "bytes_written st = ws_current st"

definition WriteStream :: "realloc \<Rightarrow> int \<Rightarrow> write_stream option" where
  "WriteStream alloc initial_size = do {
     buffer \<leftarrow> alloc [] 0 initial_size;
     Some \<lparr>ws_buffer = buffer, ws_current = 0, ws_current_size = initial_size, ws_initial_size = initial_size\<rparr>
   }"

definition Resize :: "realloc \<Rightarrow> write_stream \<Rightarrow> int \<Rightarrow> write_stream option" where
  "Resize alloc st size_needed = do {
     increment_size \<leftarrow> (if size_needed > ws_current_size st
       then map_option sint (RoundUp (word_of_int size_needed) (word_of_int (ws_initial_size st)))
       else Some (ws_current_size st));
     new_size \<leftarrow> add64 (ws_current_size st) increment_size;
     ASSERT (new_size > ws_current_size st);
     buffer \<leftarrow> alloc (ws_buffer st) (ws_current_size st) new_size;
     ASSERT (new_size > 0);
     Some (st\<lparr>ws_buffer := buffer, ws_current_size := new_size\<rparr>)
   }"

definition WriteByte :: "realloc \<Rightarrow> write_stream \<Rightarrow> byte \<Rightarrow> write_stream option" where
  "WriteByte alloc st v = do {
     st \<leftarrow> (if ws_current st \<ge> ws_end st then Resize alloc st 1 else Some st);
     ASSERT (ws_current st < ws_end st);
     buffer \<leftarrow> write_at (ws_buffer st) (ws_current st) v;
     Some (st\<lparr>ws_buffer := buffer, ws_current := ws_current st + 1\<rparr>)
   }"

definition WriteBytes :: "realloc \<Rightarrow> write_stream \<Rightarrow> byte list \<Rightarrow> write_stream option" where
  "WriteBytes alloc st bs = do {
     let len = int (length bs);
     st \<leftarrow> (if ws_end st - ws_current st < len then Resize alloc st len else Some st);
     ASSERT (ws_end st - ws_current st \<ge> len);
     ASSERT (0 \<le> ws_current st \<and> ws_current st + len \<le> int (length (ws_buffer st)));
     Some (st\<lparr>ws_buffer := take (nat (ws_current st)) (ws_buffer st) @ bs @ drop (nat (ws_current st) + length bs) (ws_buffer st),
              ws_current := ws_current st + len\<rparr>)
   }"

text \<open>The loops of \<open>Write<T>\<close> and \<open>WriteUnsigned\<close>; the value shrinks with each shift.\<close>

function Write :: "realloc \<Rightarrow> write_stream \<Rightarrow> int \<Rightarrow> write_stream option" where
  "Write alloc st v =
     (if v < kMinDataPerByte \<or> v > kMaxDataPerByte then do {
        st \<leftarrow> WriteByte alloc st (word_of_int (v AND kByteMask));
        Write alloc st (drop_bit kDataBitsPerByte v)
      }
      else WriteByte alloc st (word_of_int (v + kEndByteMarker)))"
  by pat_completeness auto
termination
proof (relation "measure (\<lambda>(alloc, st, v). nat \<bar>v\<bar>)")
  fix alloc :: realloc and st st' :: write_stream and v :: int
  assume "v < kMinDataPerByte \<or> v > kMaxDataPerByte"
  moreover have "kMaxDataPerByte = 63" by (simp add: kMaxDataPerByte_def kMinDataPerByte_def kDataBitsPerByte_def kByteMask_def)
  ultimately have "v < -64 \<or> v > 63" by (simp add: kMinDataPerByte_def kDataBitsPerByte_def)
  then have "\<bar>drop_bit kDataBitsPerByte v\<bar> < \<bar>v\<bar>" by (auto simp: drop_bit_eq_div kDataBitsPerByte_def)
  then show "((alloc, st', drop_bit kDataBitsPerByte v), (alloc, st, v)) \<in> measure (\<lambda>(alloc, st, v). nat \<bar>v\<bar>)" by simp
qed simp

function write_unsigned_loop :: "realloc \<Rightarrow> write_stream \<Rightarrow> int \<Rightarrow> write_stream option" where
  "write_unsigned_loop alloc st v =
     (if v > kMaxUnsignedDataPerByte then do {
        st \<leftarrow> WriteByte alloc st (word_of_int (v AND kByteMask));
        write_unsigned_loop alloc st (drop_bit kDataBitsPerByte v)
      }
      else WriteByte alloc st (word_of_int (v + kEndUnsignedByteMarker)))"
  by pat_completeness auto
termination
  by (relation "measure (\<lambda>(alloc, st, v). nat v)")
    (auto simp: kMaxUnsignedDataPerByte_def kByteMask_def kDataBitsPerByte_def drop_bit_eq_div)

definition WriteUnsigned :: "realloc \<Rightarrow> write_stream \<Rightarrow> int \<Rightarrow> write_stream option" where
  "WriteUnsigned alloc st v = do { ASSERT (v \<ge> 0 \<and> v \<le> kMaxInt64); write_unsigned_loop alloc st v }"

declare Write.simps [simp del] write_unsigned_loop.simps [simp del] read_loop.simps [code]

subsection \<open>The encoding\<close>

lemmas stream_konst = kDataBitsPerByte_def kByteMask_def kMaxUnsignedDataPerByte_def kMinDataPerByte_def
  kMaxDataPerByte_def kEndByteMarker_def kEndUnsignedByteMarker_def

text \<open>The bytes that encode a number, for the end byte marker \<open>m\<close>.\<close>

inductive encoding :: "int \<Rightarrow> int \<Rightarrow> byte list \<Rightarrow> bool" for m where
  last_byte: "128 \<le> v + m \<Longrightarrow> v + m \<le> 255 \<Longrightarrow> encoding m v [word_of_int (v + m)]"
| more_bytes: "encoding m (v div 128) bs \<Longrightarrow> encoding m v (word_of_int (v mod 128) # bs)"

text \<open>What \<open>Write\<close> and \<open>WriteUnsigned\<close> produce.\<close>

function enc :: "int \<Rightarrow> byte list" where
  "enc v = (if v < -64 \<or> v > 63 then word_of_int (v mod 128) # enc (v div 128) else [word_of_int (v + 192)])"
  by pat_completeness auto
termination by (relation "measure (\<lambda>v. nat \<bar>v\<bar>)") auto

function enc_unsigned :: "int \<Rightarrow> byte list" where
  "enc_unsigned v = (if v > 127 then word_of_int (v mod 128) # enc_unsigned (v div 128) else [word_of_int (v + 128)])"
  by pat_completeness auto
termination by (relation "measure nat") auto

declare enc.simps [simp del] enc_unsigned.simps [simp del]

lemma encoding_enc: "encoding kEndByteMarker v (enc v)"
proof (induction v rule: enc.induct)
  case (1 v)
  then show ?case
    using last_byte [of v 192] by (subst enc.simps) (auto simp: stream_konst intro: more_bytes)
qed

lemma encoding_enc_unsigned: "0 \<le> v \<Longrightarrow> encoding kEndUnsignedByteMarker v (enc_unsigned v)"
proof (induction v rule: enc_unsigned.induct)
  case (1 v)
  then show ?case
    using last_byte [of v 128] by (subst enc_unsigned.simps) (auto simp: stream_konst intro: more_bytes)
qed

lemma length_enc: "0 < k \<Longrightarrow> - (2 ^ (7 * k - 1)) \<le> v \<Longrightarrow> v < 2 ^ (7 * k - 1) \<Longrightarrow> length (enc v) \<le> k"
proof (induction k arbitrary: v)
  case (Suc k)
  show ?case
  proof (cases "v < -64 \<or> v > 63")
    case True
    have "0 < k"
    proof (rule ccontr)
      assume "\<not> 0 < k"
      then show False using Suc.prems True by simp
    qed
    then have p: "(2::int) ^ (7 * Suc k - 1) = 128 * 2 ^ (7 * k - 1)"
      using power_add [of "2::int" 7 "7 * k - 1"] by simp
    have "- (2 ^ (7 * k - 1)) \<le> v div 128" "v div 128 < 2 ^ (7 * k - 1)" using Suc.prems(2,3) unfolding p by linarith+
    then have "length (enc (v div 128)) \<le> k" using Suc.IH \<open>0 < k\<close> by blast
    then show ?thesis using True by (subst enc.simps) simp
  next
    case False
    then show ?thesis by (subst enc.simps) simp
  qed
qed simp

lemma length_enc_unsigned: "0 < k \<Longrightarrow> 0 \<le> v \<Longrightarrow> v < 2 ^ (7 * k) \<Longrightarrow> length (enc_unsigned v) \<le> k"
proof (induction k arbitrary: v)
  case (Suc k)
  show ?case
  proof (cases "v > 127")
    case True
    then have "0 < k" using Suc.prems by (cases k) auto
    have p: "(2::int) ^ (7 * Suc k) = 128 * 2 ^ (7 * k)" using power_add [of "2::int" 7 "7 * k"] by simp
    have "v div 128 < 2 ^ (7 * k)" using Suc.prems(3) unfolding p by linarith
    then have "length (enc_unsigned (v div 128)) \<le> k" using Suc.IH [OF \<open>0 < k\<close>] Suc.prems(2) by simp
    then show ?thesis using True by (subst enc_unsigned.simps) simp
  next
    case False
    then show ?thesis by (subst enc_unsigned.simps) simp
  qed
qed simp

subsection \<open>Reading an encoding\<close>

lemma or_push_bit:
  fixes r x :: int
  assumes "0 \<le> r" "r < 2 ^ s"
  shows "r OR push_bit s x = r + x * 2 ^ s"
proof -
  have "take_bit s r AND push_bit s x = 0" by (rule bit_eqI) (auto simp: bit_simps)
  then have "r AND push_bit s x = 0" using assms by (simp add: take_bit_int_eq_self)
  then show ?thesis by (simp add: disjunctive_add_eq_or [symmetric] push_bit_eq_mult)
qed

text \<open>The bytes of a stream from a position on.\<close>

fun bytes_at :: "read_stream \<Rightarrow> int \<Rightarrow> byte list \<Rightarrow> bool" where
  "bytes_at st c [] = True"
| "bytes_at st c (b # bs) = (next_byte st c = Some (uint b, c + 1) \<and> bytes_at st (c + 1) bs)"

lemma fits_mono:
  assumes "fits n x" "n \<le> w"
  shows "fits w x"
proof -
  have "(2::int) ^ (n - 1) \<le> 2 ^ (w - 1)" using assms(2) by (intro power_increasing diff_le_mono) auto
  then show ?thesis using assms(1) unfolding fits_def by linarith
qed

lemma signed_take_bit_fits: "fits n x \<Longrightarrow> signed_take_bit (n - 1) x = x"
  by (simp add: fits_def signed_take_bit_int_eq_self)

lemma fits_high:
  assumes V: "fits n (r + v * 2 ^ s)" and r: "0 \<le> r" "r < 2 ^ s" and s: "s < n"
  shows "fits n (v * 2 ^ s)"
proof -
  have p: "(2::int) ^ (n - 1) = 2 ^ (n - 1 - s) * 2 ^ s" using s by (simp add: power_add [symmetric])
  have "- (2 ^ (n - 1)) \<le> v * 2 ^ s"
  proof (rule ccontr)
    assume "\<not> ?thesis"
    then have "v * 2 ^ s < (- (2 ^ (n - 1 - s))) * 2 ^ s" unfolding p by simp
    then have "v < - (2 ^ (n - 1 - s))" by (rule mult_right_less_imp_less) simp
    then have "v + 1 \<le> - (2 ^ (n - 1 - s))" by simp
    then have "(v + 1) * 2 ^ s \<le> (- (2 ^ (n - 1 - s))) * 2 ^ s" by (rule mult_right_mono) simp
    then have "v * 2 ^ s + 2 ^ s \<le> - (2 ^ (n - 1))" unfolding p by (simp add: algebra_simps)
    then show False using V r by (simp add: fits_def)
  qed
  then show ?thesis using V r(1) by (simp add: fits_def)
qed

fun shifts :: "nat \<Rightarrow> nat \<Rightarrow> nat list \<Rightarrow> bool" where
  "shifts n s [] = True"
| "shifts n s (x # xs) = (x = s \<and> s < n \<and> shifts n (s + 7) xs)"

lemma uint_byte: "0 \<le> x \<Longrightarrow> x < 256 \<Longrightarrow> uint (word_of_int x :: byte) = x"
  by (simp add: uint_word_of_int)

lemma more_value: "(v mod 128) * 2 ^ s + v div 128 * 2 ^ (s + 7) = v * (2 ^ s :: int)"
proof -
  have "v mod 128 + 128 * (v div 128) = v" by (rule mod_mult_div_eq)
  then have "(v mod 128 + 128 * (v div 128)) * 2 ^ s = v * 2 ^ s" by (rule arg_cong)
  then show ?thesis by (simp only: power_add distrib_right) (simp add: ac_simps)
qed

lemma read_unrolled_encoding:
  assumes "encoding m v bs" "bytes_at st c bs" "0 \<le> r" "r < 2 ^ s" "fits n (r + v * 2 ^ s)" "n \<le> w"
    "shifts n s ss" "length bs \<le> length ss"
  shows "read_unrolled w n st m ss c r = Some (st\<lparr>rs_current := c + int (length bs)\<rparr>, r + v * 2 ^ s)"
  using assms
proof (induction v bs arbitrary: c r s ss rule: encoding.induct)
  case (last_byte v)
  then obtain ss' where ss: "ss = s # ss'" "s < n" by (cases ss) auto
  have b: "uint (word_of_int (v + m) :: byte) = v + m" using last_byte.hyps by (intro uint_byte) auto
  have "fits w (v * 2 ^ s)"
    using fits_mono [OF fits_high [OF last_byte.prems(4,2,3) ss(2)] last_byte.prems(5)] .
  then have y: "shl_at w v s = Some (push_bit s v)" using ss(2) last_byte.prems(5) by (simp add: shl_at_def push_bit_eq_mult)
  have "signed_take_bit (n - 1) (r OR push_bit s v) = r + v * 2 ^ s"
    using or_push_bit [OF last_byte.prems(2,3)] signed_take_bit_fits [OF last_byte.prems(4)] by simp
  then show ?case using last_byte.prems(1) last_byte.hyps y b ss(1) by (simp add: stream_konst)
next
  case (more_bytes v bs)
  obtain ss' where ss: "ss = s # ss'" "s < n" "shifts n (s + 7) ss'" "length bs \<le> length ss'" using more_bytes.prems by (cases ss) auto
  have "bs \<noteq> []" using more_bytes.hyps by (auto elim: encoding.cases)
  then have s7: "s + 7 < n" using ss by (cases ss') auto
  have b: "uint (word_of_int (v mod 128) :: byte) = v mod 128" by (intro uint_byte) (auto intro: less_trans [of _ 128])
  have lt: "(v mod 128) * 2 ^ s < 2 ^ (s + 7)" "0 \<le> (v mod 128) * 2 ^ s" by (simp_all add: power_add)
  have r': "r OR push_bit s (v mod 128) = r + (v mod 128) * 2 ^ s" using or_push_bit [OF more_bytes.prems(2,3)] .
  have r7: "0 \<le> r + (v mod 128) * 2 ^ s" "r + (v mod 128) * 2 ^ s < 2 ^ (s + 7)"
  proof -
    have "v mod 128 \<le> 127" using pos_mod_bound [of 128 v] by simp
    then have "(v mod 128) * 2 ^ s \<le> 127 * 2 ^ s" by (rule mult_right_mono) simp
    moreover have "(2::int) ^ (s + 7) = 128 * 2 ^ s" by (simp add: power_add)
    ultimately show "r + (v mod 128) * 2 ^ s < 2 ^ (s + 7)" using more_bytes.prems(3) by linarith
    show "0 \<le> r + (v mod 128) * 2 ^ s" using more_bytes.prems(2) lt by simp
  qed
  have p: "(2::int) ^ (s + 7) \<le> 2 ^ (n - 1)" using s7 by (intro power_increasing) auto
  have q: "(0::int) < 2 ^ (n - 1)" by simp
  have x: "shl_at w (v mod 128) s = Some (push_bit s (v mod 128))"
  proof -
    have "fits n ((v mod 128) * 2 ^ s)" using lt p q unfolding fits_def by linarith
    then show ?thesis using fits_mono [of n _ w] more_bytes.prems(5) ss(2) by (simp add: shl_at_def push_bit_eq_mult)
  qed
  have "fits n (r + (v mod 128) * 2 ^ s)" using r7 p q unfolding fits_def by linarith
  then have t: "signed_take_bit (n - 1) (r + (v mod 128) * 2 ^ s) = r + (v mod 128) * 2 ^ s" by (rule signed_take_bit_fits)
  have V: "r + (v mod 128) * 2 ^ s + v div 128 * 2 ^ (s + 7) = r + v * 2 ^ s" using more_value [of v s] by simp
  have F: "fits n (r + (v mod 128) * 2 ^ s + v div 128 * 2 ^ (s + 7))" unfolding V using more_bytes.prems(4) .
  have "read_unrolled w n st m ss' (c + 1) (r + (v mod 128) * 2 ^ s) =
      Some (st\<lparr>rs_current := c + 1 + int (length bs)\<rparr>, r + (v mod 128) * 2 ^ s + v div 128 * 2 ^ (s + 7))"
    by (rule more_bytes.IH [OF _ r7 F]) (use more_bytes.prems ss in auto)
  moreover have "\<not> uint (word_of_int (v mod 128) :: byte) > kMaxUnsignedDataPerByte"
    using b pos_mod_bound [of 128 v] by (simp add: stream_konst)
  ultimately show ?case using more_bytes.prems(1) x r' b ss(1) t V by (simp add: ac_simps)
qed

text \<open>One step of the accumulation: the low bits and the next seven.\<close>

lemma accumulate:
  fixes r b :: int
  assumes "0 \<le> r" "r < 2 ^ s" "0 \<le> b" "b \<le> 127" "s + 7 < 64"
  shows "0 \<le> r + b * 2 ^ s" "r + b * 2 ^ s < 2 ^ (s + 7)" "shl_at 64 b s = Some (push_bit s b)"
    "r OR push_bit s b = r + b * 2 ^ s"
proof -
  have l: "0 \<le> b * 2 ^ s" "b * 2 ^ s \<le> 127 * 2 ^ s" using assms(3,4) by (simp_all add: mult_right_mono)
  have p: "(2::int) ^ (s + 7) = 128 * 2 ^ s" by (simp add: power_add)
  have q: "(2::int) ^ (s + 7) \<le> 2 ^ 63" using assms(5) by (intro power_increasing) auto
  show "0 \<le> r + b * 2 ^ s" using assms(1) l by simp
  show "r + b * 2 ^ s < 2 ^ (s + 7)" using assms(2) l p by linarith
  have "(0::int) < 2 ^ s" by simp
  then have "b * 2 ^ s < 2 ^ 63" using l p q by linarith
  then have "fits 64 (b * 2 ^ s)" using l(1) by (simp add: fits_def)
  then show "shl_at 64 b s = Some (push_bit s b)" using assms(5) by (simp add: shl_at_def push_bit_eq_mult)
  show "r OR push_bit s b = r + b * 2 ^ s" using or_push_bit [OF assms(1,2)] .
qed

lemma read_loop_encoding:
  assumes "encoding m v bs" "bytes_at st c bs" "0 \<le> r" "r < 2 ^ s" "0 \<le> b" "b \<le> 127"
    "fits 64 (r + b * 2 ^ s + v * 2 ^ (s + 7))" "s + 7 * length bs < 64"
  shows "read_loop st m b c r s = Some (st\<lparr>rs_current := c + int (length bs)\<rparr>, r + b * 2 ^ s + v * 2 ^ (s + 7))"
  using assms
proof (induction v bs arbitrary: b c r s rule: encoding.induct)
  case (last_byte v)
  have s7: "s + 7 < 64" using last_byte.prems(7) by simp
  have u: "uint (word_of_int (v + m) :: byte) = v + m" using last_byte.hyps by (intro uint_byte) auto
  note a = accumulate [OF last_byte.prems(2-5) s7]
  have "fits 64 (v * 2 ^ (s + 7))" using fits_high [OF last_byte.prems(6) a(1,2) s7] .
  then have y: "shl_at 64 v (s + 7) = Some (push_bit (s + 7) v)" using s7 by (simp add: shl_at_def push_bit_eq_mult)
  show ?case
    using last_byte.prems(1) last_byte.hyps a y u or_push_bit [OF a(1,2), of v]
    by (subst read_loop.simps) (simp add: stream_konst)
next
  case (more_bytes v bs)
  have "bs \<noteq> []" using more_bytes.hyps by (auto elim: encoding.cases)
  then have s7: "s + 7 < 64" "s + 7 + 7 * length bs < 64" using more_bytes.prems(7) by auto
  have u: "uint (word_of_int (v mod 128) :: byte) = v mod 128" by (intro uint_byte) (auto intro: less_trans [of _ 128])
  have m: "0 \<le> v mod 128" "v mod 128 \<le> 127" using pos_mod_bound [of 128 v] by simp_all
  note a = accumulate [OF more_bytes.prems(2-5) s7(1)]
  have V: "(r + b * 2 ^ s) + (v mod 128) * 2 ^ (s + 7) + v div 128 * 2 ^ (s + 7 + 7) = r + b * 2 ^ s + v * 2 ^ (s + 7)"
    using more_value [of v "s + 7"] by simp
  have F: "fits 64 ((r + b * 2 ^ s) + (v mod 128) * 2 ^ (s + 7) + v div 128 * 2 ^ (s + 7 + 7))"
    unfolding V using more_bytes.prems(6) .
  have "read_loop st m (v mod 128) (c + 1) (r + b * 2 ^ s) (s + 7) =
      Some (st\<lparr>rs_current := c + 1 + int (length bs)\<rparr>, (r + b * 2 ^ s) + (v mod 128) * 2 ^ (s + 7) + v div 128 * 2 ^ (s + 7 + 7))"
    by (rule more_bytes.IH [OF _ a(1,2) m F s7(2)]) (use more_bytes.prems(1) in simp)
  then show ?case
    using more_bytes.prems(1) a u m V by (subst read_loop.simps) (simp add: stream_konst ac_simps)
qed

text \<open>A stream with \<open>pre\<close> already read and \<open>suf\<close> to come.\<close>

definition stream_at :: "byte list \<Rightarrow> byte list \<Rightarrow> read_stream" where
  "stream_at pre suf = \<lparr>rs_buffer = pre @ suf, rs_current = int (length pre), rs_end = int (length (pre @ suf))\<rparr>"

lemma bytes_at_stream: "bytes_at (stream_at pre (as @ bs @ suf)) (int (length pre + length as)) bs"
proof (induction bs arbitrary: as)
  case (Cons b bs)
  have "bytes_at (stream_at pre ((as @ [b]) @ bs @ suf)) (int (length pre + length (as @ [b]))) bs" by (rule Cons.IH)
  moreover have "read_at (pre @ as @ b # bs @ suf) (int (length pre + length as)) = Some b"
    by (subst read_at_int) (simp_all add: nth_append)
  ultimately show ?case by (simp add: next_byte_def stream_at_def ac_simps)
qed simp

lemma stream_at_advance: "(stream_at pre (bs @ suf))\<lparr>rs_current := int (length pre) + int (length bs)\<rparr> = stream_at (pre @ bs) suf"
  by (simp add: stream_at_def)

lemma read_unrolled_stream:
  assumes "encoding m v bs" "fits n v" "n \<le> w" "shifts n 0 ss" "length bs \<le> length ss"
  shows "read_unrolled w n (stream_at pre (bs @ suf)) m ss (rs_current (stream_at pre (bs @ suf))) 0 =
    Some (stream_at (pre @ bs) suf, v)"
proof -
  have "bytes_at (stream_at pre (bs @ suf)) (int (length pre)) bs" using bytes_at_stream [of pre "[]" bs suf] by simp
  from read_unrolled_encoding [OF assms(1) this, of 0 0 n w ss] show ?thesis
    using assms stream_at_advance [of pre bs suf] by (simp add: stream_at_def)
qed

lemma Read16_enc: "fits 16 v \<Longrightarrow> Read16 (stream_at pre (enc v @ suf)) = Some (stream_at (pre @ enc v) suf, v)"
  using read_unrolled_stream [OF encoding_enc [of v], of 16 32 "[0, 7, 14]"] length_enc [of 3 v]
  unfolding Read16_def by (simp add: fits_def)

lemma Read32_enc: "fits 32 v \<Longrightarrow> Read32 (stream_at pre (enc v @ suf)) = Some (stream_at (pre @ enc v) suf, v)"
  using read_unrolled_stream [OF encoding_enc [of v], of 32 32 "[0, 7, 14, 21, 28]"] length_enc [of 5 v]
  unfolding Read32_def by (simp add: fits_def)

lemma Read64_enc: "fits 64 v \<Longrightarrow> Read64 (stream_at pre (enc v @ suf)) = Some (stream_at (pre @ enc v) suf, v)"
  using read_unrolled_stream [OF encoding_enc [of v], of 64 64 "[0, 7, 14, 21, 28, 35, 42, 49, 56, 63]"] length_enc [of 10 v]
  unfolding Read64_def by (simp add: fits_def)

lemma ReadUnsigned_enc:
  assumes "0 \<le> v" "v \<le> kMaxInt64"
  shows "ReadUnsigned (stream_at pre (enc_unsigned v @ suf)) = Some (stream_at (pre @ enc_unsigned v) suf, v)"
proof -
  have len: "length (enc_unsigned v) \<le> 9" using assms by (intro length_enc_unsigned) (auto simp: konst)
  have at: "bytes_at (stream_at pre (enc_unsigned v @ suf)) (int (length pre)) (enc_unsigned v)"
    using bytes_at_stream [of pre "[]" "enc_unsigned v" suf] by simp
  have cur: "rs_current (stream_at pre (enc_unsigned v @ suf)) = int (length pre)" by (simp add: stream_at_def)
  show ?thesis
  proof (cases "v > 127")
    case True
    then have e: "enc_unsigned v = word_of_int (v mod 128) # enc_unsigned (v div 128)" by (subst enc_unsigned.simps) simp
    have u: "uint (word_of_int (v mod 128) :: byte) = v mod 128" by (intro uint_byte) (auto intro: less_trans [of _ 128])
    have m: "0 \<le> v mod 128" "v mod 128 \<le> 127" using pos_mod_bound [of 128 v] by simp_all
    have f: "fits 64 (0 + (v mod 128) * 2 ^ 0 + v div 128 * 2 ^ (0 + 7))" using assms by (simp add: fits_def konst)
    have "read_loop (stream_at pre (enc_unsigned v @ suf)) kEndUnsignedByteMarker (v mod 128) (int (length pre) + 1) 0 0 =
        Some ((stream_at pre (enc_unsigned v @ suf))\<lparr>rs_current := int (length pre) + 1 + int (length (enc_unsigned (v div 128)))\<rparr>,
          0 + (v mod 128) * 2 ^ 0 + v div 128 * 2 ^ (0 + 7))"
      by (rule read_loop_encoding [OF encoding_enc_unsigned _ _ _ m f]) (use assms at len in \<open>auto simp: e\<close>)
    moreover have "(stream_at pre (enc_unsigned v @ suf))\<lparr>rs_current := int (length pre) + 1 + int (length (enc_unsigned (v div 128)))\<rparr> =
        stream_at (pre @ enc_unsigned v) suf" by (simp add: stream_at_def e)
    ultimately show ?thesis using at u m cur by (simp add: ReadUnsigned_def Read_def e stream_konst)
  next
    case False
    then have e: "enc_unsigned v = [word_of_int (v + 128)]" by (subst enc_unsigned.simps) simp
    have u: "uint (word_of_int (v + 128) :: byte) = v + 128" using assms False by (intro uint_byte) auto
    then show ?thesis
      using at assms cur by (simp add: ReadUnsigned_def Read_def e stream_konst del: of_int_add) (simp add: stream_at_def)
  qed
qed

subsection \<open>Writing\<close>

text \<open>What the code relies on of reallocation: it yields memory of the requested size that starts with the old contents.\<close>

definition realloc_ok :: "realloc \<Rightarrow> bool" where
  "realloc_ok alloc \<longleftrightarrow> (\<forall>buf old new. int (length buf) = old \<and> old < new \<longrightarrow>
     (\<exists>b. alloc buf old new = Some b \<and> int (length b) = new \<and> take (length buf) b = buf))"

definition ws_ok :: "write_stream \<Rightarrow> bool" where
  "ws_ok st \<longleftrightarrow> 0 \<le> ws_current st \<and> ws_current st \<le> ws_current_size st \<and> ws_current_size st = int (length (ws_buffer st)) \<and>
     0 < ws_current_size st \<and> (\<exists>k < 60. ws_initial_size st = 2 ^ k) \<and>
     ws_current_size st \<le> ws_initial_size st + 2 * ws_current st"

definition written :: "write_stream \<Rightarrow> byte list" where
  "written st = take (nat (ws_current st)) (ws_buffer st)"

lemma length_written: "ws_ok st \<Longrightarrow> int (length (written st)) = ws_current st"
  by (auto simp: ws_ok_def written_def)

lemma round_up_size:
  assumes "0 < n" "n \<le> 2 ^ 60" "k < 60"
  obtains y where "map_option sint (RoundUp (word_of_int n) (word_of_int (2 ^ k))) = Some y" "n \<le> y" "y < n + 2 ^ k"
proof -
  have p: "(2::int) ^ k \<le> 2 ^ 60" using assms(3) by (intro power_increasing) auto
  have u: "uint (word_of_int n :: 64 word) = n" using assms by (simp add: uint_word_of_int)
  obtain y :: "64 word" where y: "RoundUp (word_of_int n) (2 ^ k) = Some y" "n \<le> uint y" "uint y < n + 2 ^ k"
    using uint_RoundUp [of k "word_of_int n"] assms p unfolding u by auto
  have "uint y < 2 ^ 63" using y(3) assms(2) p by simp
  moreover have "- (2 ^ 63) \<le> uint y" by (rule order_trans [OF _ uint_ge_0]) simp
  ultimately have "sint y = uint y" by (simp add: sint_uint signed_take_bit_int_eq_self)
  then show ?thesis using that [of "uint y"] y by simp
qed

lemma Resize_ok:
  assumes st: "ws_ok st" and alloc: "realloc_ok alloc" and n: "0 < n" "ws_current st + n \<le> 2 ^ 60"
    and need: "ws_current_size st - ws_current st < n"
  shows "\<exists>st'. Resize alloc st n = Some st' \<and> ws_current st' = ws_current st \<and> ws_initial_size st' = ws_initial_size st \<and>
    written st' = written st \<and> n \<le> ws_current_size st' - ws_current st' \<and> ws_current_size st' = int (length (ws_buffer st')) \<and>
    0 < ws_current_size st' \<and> ws_current_size st' \<le> ws_initial_size st + 2 * (ws_current st + n)"
proof -
  have s: "0 \<le> ws_current st" "ws_current st \<le> ws_current_size st" "ws_current_size st = int (length (ws_buffer st))"
    "0 < ws_current_size st" "ws_current_size st \<le> ws_initial_size st + 2 * ws_current st" using st unfolding ws_ok_def by blast+
  obtain k where k: "k < 60" "ws_initial_size st = 2 ^ k" using st by (auto simp: ws_ok_def)
  have p: "(2::int) ^ k \<le> 2 ^ 60" using k(1) by (intro power_increasing) auto
  have z: "0 \<le> ws_initial_size st" using k(2) by simp
  define inc where "inc = (if n > ws_current_size st
    then map_option sint (RoundUp (word_of_int n) (word_of_int (ws_initial_size st))) else Some (ws_current_size st))"
  obtain d where d: "inc = Some d" "n \<le> d + (ws_current_size st - ws_current st)" "0 < d"
    "ws_current_size st + d \<le> ws_initial_size st + 2 * (ws_current st + n)" "ws_current_size st + d \<le> 2 ^ 62"
  proof (cases "n > ws_current_size st")
    case True
    obtain y where y: "map_option sint (RoundUp (word_of_int n) (word_of_int (2 ^ k))) = Some y" "n \<le> y" "y < n + 2 ^ k"
      by (rule round_up_size [of n k]) (use n s k in auto)
    show ?thesis by (rule that [of y]) (use True y k s n p in \<open>auto simp: inc_def\<close>)
  next
    case False
    have g: "ws_current_size st + ws_current_size st \<le> ws_initial_size st + 2 * (ws_current st + n)"
      using need z by simp
    show ?thesis by (rule that [OF _ _ s(4) g]) (use False s n need g p k in \<open>auto simp: inc_def\<close>)
  qed
  let ?new = "ws_current_size st + d"
  have "in64 ?new" using d s by (simp add: in64_def konst)
  moreover obtain b where b: "alloc (ws_buffer st) (ws_current_size st) ?new = Some b" "int (length b) = ?new"
    "take (length (ws_buffer st)) b = ws_buffer st"
    using alloc s d(3) unfolding realloc_ok_def by (metis less_add_same_cancel1)
  ultimately have r: "Resize alloc st n = Some (st\<lparr>ws_buffer := b, ws_current_size := ?new\<rparr>)"
    using d s unfolding Resize_def inc_def by simp
  have "take (nat (ws_current st)) b = take (nat (ws_current st)) (take (length (ws_buffer st)) b)" using s by simp
  then have "written (st\<lparr>ws_buffer := b, ws_current_size := ?new\<rparr>) = written st" unfolding written_def b(3) by simp
  then show ?thesis using r d s b(2) by auto
qed

lemma write_at_current:
  assumes "0 \<le> c" "c < int (length buf)"
  shows "write_at buf c v = Some (buf[nat c := v])" "take (nat (c + 1)) (buf[nat c := v]) = take (nat c) buf @ [v]"
  using assms by (simp_all add: write_at_def nat_add_distrib take_Suc_conv_app_nth)

lemma WriteByte_ok:
  assumes st: "ws_ok st" and alloc: "realloc_ok alloc" and room: "ws_current st + 1 \<le> 2 ^ 60"
  shows "\<exists>st'. WriteByte alloc st v = Some st' \<and> ws_ok st' \<and> written st' = written st @ [v]"
proof -
  have "\<exists>st1. (if ws_current st \<ge> ws_end st then Resize alloc st 1 else Some st) = Some st1 \<and> ws_current st1 = ws_current st \<and>
      ws_initial_size st1 = ws_initial_size st \<and> written st1 = written st \<and> ws_current st1 < ws_current_size st1 \<and>
      ws_current_size st1 = int (length (ws_buffer st1)) \<and> ws_current_size st1 \<le> ws_initial_size st + 2 * (ws_current st + 1)"
    using Resize_ok [OF st alloc, of 1] room st by (cases "ws_current st \<ge> ws_end st") (auto simp: ws_end_def ws_ok_def)
  then obtain st1 where s1: "(if ws_current st \<ge> ws_end st then Resize alloc st 1 else Some st) = Some st1"
    "ws_current st1 = ws_current st" "ws_initial_size st1 = ws_initial_size st" "written st1 = written st"
    "ws_current st1 < ws_current_size st1" "ws_current_size st1 = int (length (ws_buffer st1))"
    "ws_current_size st1 \<le> ws_initial_size st + 2 * (ws_current st + 1)" by blast
  have c: "0 \<le> ws_current st1" using st s1(2) by (simp add: ws_ok_def)
  let ?st = "st1\<lparr>ws_buffer := (ws_buffer st1)[nat (ws_current st1) := v], ws_current := ws_current st1 + 1\<rparr>"
  note w = write_at_current [OF c, of "ws_buffer st1" v]
  have "WriteByte alloc st v = Some ?st" using s1 w by (simp add: WriteByte_def ws_end_def)
  moreover have "written ?st = written st @ [v]" using w s1(4-6) by (simp add: written_def)
  moreover have "ws_ok ?st" using st s1 c by (auto simp: ws_ok_def)
  ultimately show ?thesis by blast
qed

lemma WriteBytes_ok:
  assumes st: "ws_ok st" and alloc: "realloc_ok alloc" and room: "ws_current st + int (length bs) \<le> 2 ^ 60"
  shows "\<exists>st'. WriteBytes alloc st bs = Some st' \<and> ws_ok st' \<and> written st' = written st @ bs"
proof -
  let ?n = "int (length bs)"
  have "\<exists>st1. (if ws_end st - ws_current st < ?n then Resize alloc st ?n else Some st) = Some st1 \<and> ws_current st1 = ws_current st \<and>
      ws_initial_size st1 = ws_initial_size st \<and> written st1 = written st \<and> ?n \<le> ws_current_size st1 - ws_current st1 \<and>
      ws_current_size st1 = int (length (ws_buffer st1)) \<and> 0 < ws_current_size st1 \<and>
      ws_current_size st1 \<le> ws_initial_size st + 2 * (ws_current st + ?n)"
    using Resize_ok [OF st alloc _ room] st
    by (cases "bs = []"; cases "ws_end st - ws_current st < ?n") (auto simp: ws_end_def ws_ok_def)
  then obtain st1 where s1: "(if ws_end st - ws_current st < ?n then Resize alloc st ?n else Some st) = Some st1"
    "ws_current st1 = ws_current st" "ws_initial_size st1 = ws_initial_size st" "written st1 = written st"
    "?n \<le> ws_current_size st1 - ws_current st1" "ws_current_size st1 = int (length (ws_buffer st1))" "0 < ws_current_size st1"
    "ws_current_size st1 \<le> ws_initial_size st + 2 * (ws_current st + ?n)" by blast
  have c: "0 \<le> ws_current st1" using st s1(2) by (simp add: ws_ok_def)
  let ?b = "take (nat (ws_current st1)) (ws_buffer st1) @ bs @ drop (nat (ws_current st1) + length bs) (ws_buffer st1)"
  let ?st = "st1\<lparr>ws_buffer := ?b, ws_current := ws_current st1 + ?n\<rparr>"
  have "WriteBytes alloc st bs = Some ?st" using s1 c by (simp add: WriteBytes_def ws_end_def Let_def)
  moreover have l: "nat (ws_current st1) + length bs \<le> length (ws_buffer st1)" using s1(5,6) c by linarith
  then have "written ?st = written st1 @ bs" using c by (simp add: written_def nat_add_distrib)
  then have "written ?st = written st @ bs" using s1(4) by simp
  moreover have "int (length ?b) = ws_current_size st1" using l s1(6) by simp
  then have "ws_ok ?st" using st s1 c by (simp add: ws_ok_def)
  ultimately show ?thesis by blast
qed

lemma and_127: "(v::int) AND 127 = v mod 128"
  using take_bit_eq_mask [of 7 v] by (simp add: mask_eq_exp_minus_1 take_bit_eq_mod)

lemma Write_ok:
  assumes "realloc_ok alloc"
  shows "ws_ok st \<Longrightarrow> ws_current st + int (length (enc v)) \<le> 2 ^ 60 \<Longrightarrow>
    \<exists>st'. Write alloc st v = Some st' \<and> ws_ok st' \<and> written st' = written st @ enc v"
proof (induction v arbitrary: st rule: enc.induct)
  case (1 v)
  show ?case
  proof (cases "v < -64 \<or> v > 63")
    case True
    then have e: "enc v = word_of_int (v mod 128) # enc (v div 128)" by (subst enc.simps) simp
    from WriteByte_ok [OF "1.prems"(1) assms] "1.prems"(2) obtain st1 where
      s1: "WriteByte alloc st (word_of_int (v mod 128)) = Some st1" "ws_ok st1" "written st1 = written st @ [word_of_int (v mod 128)]"
      by (fastforce simp: e)
    have "ws_current st1 = ws_current st + 1" using length_written [OF s1(2)] length_written [OF "1.prems"(1)] s1(3) by simp
    then obtain st' where "Write alloc st1 (v div 128) = Some st'" "ws_ok st'" "written st' = written st1 @ enc (v div 128)"
      using "1.IH" [OF True s1(2)] "1.prems"(2) e by auto
    then show ?thesis
      using s1 True e by (subst Write.simps) (simp add: stream_konst and_127 drop_bit_eq_div)
  next
    case False
    then have "enc v = [word_of_int (v + 192)]" by (subst enc.simps) simp
    then show ?thesis
      using WriteByte_ok [OF "1.prems"(1) assms, of "word_of_int (v + 192)"] "1.prems"(2) False
      by (subst Write.simps) (auto simp: stream_konst)
  qed
qed

lemma write_unsigned_ok:
  assumes "realloc_ok alloc"
  shows "ws_ok st \<Longrightarrow> ws_current st + int (length (enc_unsigned v)) \<le> 2 ^ 60 \<Longrightarrow>
    \<exists>st'. write_unsigned_loop alloc st v = Some st' \<and> ws_ok st' \<and> written st' = written st @ enc_unsigned v"
proof (induction v arbitrary: st rule: enc_unsigned.induct)
  case (1 v)
  show ?case
  proof (cases "v > 127")
    case True
    then have e: "enc_unsigned v = word_of_int (v mod 128) # enc_unsigned (v div 128)" by (subst enc_unsigned.simps) simp
    from WriteByte_ok [OF "1.prems"(1) assms] "1.prems"(2) obtain st1 where
      s1: "WriteByte alloc st (word_of_int (v mod 128)) = Some st1" "ws_ok st1" "written st1 = written st @ [word_of_int (v mod 128)]"
      by (fastforce simp: e)
    have "ws_current st1 = ws_current st + 1" using length_written [OF s1(2)] length_written [OF "1.prems"(1)] s1(3) by simp
    then obtain st' where "write_unsigned_loop alloc st1 (v div 128) = Some st'" "ws_ok st'"
      "written st' = written st1 @ enc_unsigned (v div 128)"
      using "1.IH" [OF True s1(2)] "1.prems"(2) e by auto
    then show ?thesis
      using s1 True e by (subst write_unsigned_loop.simps) (simp add: stream_konst and_127 drop_bit_eq_div)
  next
    case False
    then have "enc_unsigned v = [word_of_int (v + 128)]" by (subst enc_unsigned.simps) simp
    then show ?thesis
      using WriteByte_ok [OF "1.prems"(1) assms, of "word_of_int (v + 128)"] "1.prems"(2) False
      by (subst write_unsigned_loop.simps) (auto simp: stream_konst)
  qed
qed

subsection \<open>Codecs\<close>

fun read_list :: "(read_stream \<Rightarrow> (read_stream \<times> 'a) option) \<Rightarrow> nat \<Rightarrow> read_stream \<Rightarrow> (read_stream \<times> 'a list) option" where
  "read_list decode 0 st = Some (st, [])"
| "read_list decode (Suc n) st = do { (st, x) \<leftarrow> decode st; (st, xs) \<leftarrow> read_list decode n st; Some (st, x # xs) }"

fun write_list :: "(realloc \<Rightarrow> write_stream \<Rightarrow> 'a \<Rightarrow> write_stream option) \<Rightarrow> realloc \<Rightarrow> write_stream \<Rightarrow> 'a list \<Rightarrow> write_stream option" where
  "write_list put alloc st [] = Some st"
| "write_list put alloc st (x # xs) = do { st \<leftarrow> put alloc st x; write_list put alloc st xs }"

text \<open>What can be decoded from any stream in which an encoding comes next.\<close>

locale codec =
  fixes valid :: "'a \<Rightarrow> bool" and encode :: "'a \<Rightarrow> byte list"
    and decode :: "read_stream \<Rightarrow> (read_stream \<times> 'a) option"
  assumes decode_encode: "valid x \<Longrightarrow> decode (stream_at pre (encode x @ suf)) = Some (stream_at (pre @ encode x) suf, x)"
begin

lemma decode_list:
  "list_all valid xs \<Longrightarrow> read_list decode (length xs) (stream_at pre (concat (map encode xs) @ suf)) =
     Some (stream_at (pre @ concat (map encode xs)) suf, xs)"
proof (induction xs arbitrary: pre)
  case (Cons x xs)
  then show ?case using decode_encode [of x pre "concat (map encode xs) @ suf"] by simp
qed simp

lemma prefix_free:
  assumes "valid x" "valid y" "encode x @ s = encode y @ t"
  shows "x = y \<and> s = t"
proof -
  have "Some (stream_at ([] @ encode x) s, x) = Some (stream_at ([] @ encode y) t, y)"
    using decode_encode [OF assms(1), of "[]" s] decode_encode [OF assms(2), of "[]" t] assms(3) by simp
  then show ?thesis using assms(3) by simp
qed

end

text \<open>With a writer that appends the encoding.\<close>

locale stream_codec = codec +
  fixes put :: "realloc \<Rightarrow> write_stream \<Rightarrow> 'a \<Rightarrow> write_stream option"
  assumes write_encode: "valid x \<Longrightarrow> realloc_ok alloc \<Longrightarrow> ws_ok st \<Longrightarrow> ws_current st + int (length (encode x)) \<le> 2 ^ 60 \<Longrightarrow>
    \<exists>st'. put alloc st x = Some st' \<and> ws_ok st' \<and> written st' = written st @ encode x"
begin

lemma write_list_encode:
  "list_all valid xs \<Longrightarrow> realloc_ok alloc \<Longrightarrow> ws_ok st \<Longrightarrow> ws_current st + int (length (concat (map encode xs))) \<le> 2 ^ 60 \<Longrightarrow>
     \<exists>st'. write_list put alloc st xs = Some st' \<and> ws_ok st' \<and> written st' = written st @ concat (map encode xs)"
proof (induction xs arbitrary: st)
  case (Cons x xs)
  then obtain st1 where s1: "put alloc st x = Some st1" "ws_ok st1" "written st1 = written st @ encode x"
    using write_encode [of x alloc st] by auto
  have "ws_current st1 = ws_current st + int (length (encode x))"
    using length_written [OF s1(2)] length_written [OF Cons.prems(3)] s1(3) by simp
  then have "\<exists>st'. write_list put alloc st1 xs = Some st' \<and> ws_ok st' \<and> written st' = written st1 @ concat (map encode xs)"
    using Cons.prems by (intro Cons.IH) (auto simp: s1(2))
  then show ?case using s1 by auto
qed simp

lemma write_read:
  assumes "list_all valid xs" "realloc_ok alloc" "ws_ok st" "ws_current st + int (length (concat (map encode xs))) \<le> 2 ^ 60"
  shows "\<exists>st'. write_list put alloc st xs = Some st' \<and> ws_ok st' \<and>
    read_list decode (length xs) ((ReadStream (written st') (bytes_written st'))\<lparr>rs_current := bytes_written st\<rparr>) =
      Some (stream_at (written st') [], xs)"
proof -
  from write_list_encode [OF assms] obtain st' where
    st': "write_list put alloc st xs = Some st'" "ws_ok st'" "written st' = written st @ concat (map encode xs)" by blast
  have "bytes_written st = int (length (written st))" "bytes_written st' = int (length (written st'))"
    using length_written assms(3) st'(2) by (simp_all add: bytes_written_def)
  then have "(ReadStream (written st') (bytes_written st'))\<lparr>rs_current := bytes_written st\<rparr> =
      stream_at (written st) (concat (map encode xs) @ [])" unfolding st'(3) by (simp add: ReadStream_def stream_at_def)
  then show ?thesis using decode_list [OF assms(1), of "written st" "[]"] st' by simp
qed

end

interpretation int16: stream_codec "fits 16" enc Read16 Write
  by unfold_locales (simp_all add: Read16_enc Write_ok)

interpretation int32: stream_codec "fits 32" enc Read32 Write
  by unfold_locales (simp_all add: Read32_enc Write_ok)

interpretation int64: stream_codec "fits 64" enc Read64 Write
  by unfold_locales (simp_all add: Read64_enc Write_ok)

interpretation unsigned_int: stream_codec "\<lambda>v. 0 \<le> v \<and> v \<le> kMaxInt64" enc_unsigned ReadUnsigned WriteUnsigned
  by unfold_locales (simp_all add: ReadUnsigned_enc WriteUnsigned_def write_unsigned_ok)

interpretation raw_byte: stream_codec "\<lambda>b. True" "\<lambda>b. [b]" ReadByte WriteByte
proof
  show "ReadByte (stream_at pre ([x] @ suf)) = Some (stream_at (pre @ [x]) suf, x)" for pre suf x
    by (simp add: ReadByte_def stream_at_def read_at_def nth_append)
qed (simp add: WriteByte_ok)

section \<open>Properties\<close>

definition plain_realloc :: realloc where
  "plain_realloc buf old new = Some (take (nat new) (buf @ replicate (nat (new - old)) 0))"

lemma plain_realloc_ok: "realloc_ok plain_realloc"
  by (auto simp: realloc_ok_def plain_realloc_def)

lemma example_stream: "\<exists>st. WriteStream plain_realloc 16 = Some st \<and> ws_ok st \<and> ws_current st = 0"
proof -
  have "\<exists>k < 60. (16::int) = 2 ^ k" by (intro exI [of _ 4]) simp
  then show ?thesis by (simp add: WriteStream_def plain_realloc_def ws_ok_def)
qed

lemma length_concat_enc: "list_all (\<lambda>x. length (f x) \<le> k) xs \<Longrightarrow> length (concat (map f xs)) \<le> k * length xs"
  by (induction xs) auto

lemma enc_lengths:
  "fits 64 v \<Longrightarrow> length (enc v) \<le> 10" "fits 32 v \<Longrightarrow> length (enc v) \<le> 5" "fits 16 v \<Longrightarrow> length (enc v) \<le> 3"
  by (rule length_enc; simp add: fits_def)+

text \<open>
  C29: numbers written with \<open>Write\<close> are read back unchanged by the unrolled readers, in any
  number, wherever the stream stands and however often its buffer is reallocated: 64-bit numbers by
  \<open>Read64\<close>, 32-bit numbers by \<open>Read32\<close>, 16-bit numbers by \<open>Read16\<close>. No assertion fails and no
  shift overflows, and the reader ends exactly where the writer ended.
\<close>

theorem write_read_signed:
  assumes "realloc_ok alloc" "ws_ok st" "ws_current st + 10 * int (length xs) \<le> 2 ^ 60"
    "w = 64 \<and> decode = Read64 \<or> w = 32 \<and> decode = Read32 \<or> w = 16 \<and> decode = Read16" "list_all (fits w) xs"
  shows "\<exists>st'. write_list Write alloc st xs = Some st' \<and> ws_ok st' \<and>
    read_list decode (length xs) ((ReadStream (written st') (bytes_written st'))\<lparr>rs_current := bytes_written st\<rparr>) =
      Some (stream_at (written st') [], xs)"
proof -
  have "fits 64 x" if "fits w x" for x using that assms(4) fits_mono [of w x 64] by auto
  then have "list_all (\<lambda>x. length (enc x) \<le> 10) xs" using assms(5) enc_lengths(1) by (auto simp: list_all_iff)
  from length_concat_enc [OF this] have len: "ws_current st + int (length (concat (map enc xs))) \<le> 2 ^ 60"
    using assms(3) by linarith
  consider "w = 64" "decode = Read64" | "w = 32" "decode = Read32" | "w = 16" "decode = Read16" using assms(4) by blast
  then show ?thesis
  proof cases
    case 1
    then show ?thesis using int64.write_read [OF _ assms(1,2) len] assms(5) by simp
  next
    case 2
    then show ?thesis using int32.write_read [OF _ assms(1,2) len] assms(5) by simp
  next
    case 3
    then show ?thesis using int16.write_read [OF _ assms(1,2) len] assms(5) by simp
  qed
qed

theorem write_read_signed_witness:
  "\<exists>st st'. WriteStream plain_realloc 16 = Some st \<and>
     write_list Write plain_realloc st [-9223372036854775808, 9223372036854775807, 0, -65] = Some st' \<and>
     read_list Read64 4 ((ReadStream (written st') (bytes_written st'))\<lparr>rs_current := bytes_written st\<rparr>) =
       Some (stream_at (written st') [], [-9223372036854775808, 9223372036854775807, 0, -65])"
proof -
  obtain st where st: "WriteStream plain_realloc 16 = Some st" "ws_ok st" "ws_current st = 0" using example_stream by blast
  let ?xs = "[-9223372036854775808, 9223372036854775807, 0, -65] :: int list"
  have n: "4 = length ?xs" by simp
  have "\<exists>st'. write_list Write plain_realloc st ?xs = Some st' \<and> ws_ok st' \<and>
      read_list Read64 (length ?xs) ((ReadStream (written st') (bytes_written st'))\<lparr>rs_current := bytes_written st\<rparr>) =
        Some (stream_at (written st') [], ?xs)"
    by (rule write_read_signed [OF plain_realloc_ok st(2), where w = 64]) (simp_all add: st(3) fits_def)
  then show ?thesis unfolding n using st(1) by blast
qed

text \<open>C30: the same for \<open>WriteUnsigned\<close> and \<open>ReadUnsigned\<close>, for every non-negative 64-bit number.\<close>

theorem write_read_unsigned:
  assumes "realloc_ok alloc" "ws_ok st" "ws_current st + 9 * int (length xs) \<le> 2 ^ 60"
    "list_all (\<lambda>v. 0 \<le> v \<and> v \<le> kMaxInt64) xs"
  shows "\<exists>st'. write_list WriteUnsigned alloc st xs = Some st' \<and> ws_ok st' \<and>
    read_list ReadUnsigned (length xs) ((ReadStream (written st') (bytes_written st'))\<lparr>rs_current := bytes_written st\<rparr>) =
      Some (stream_at (written st') [], xs)"
proof -
  have "length (enc_unsigned x) \<le> 9" if "0 \<le> x" "x \<le> kMaxInt64" for x
    using that by (intro length_enc_unsigned) (auto simp: konst)
  then have "list_all (\<lambda>x. length (enc_unsigned x) \<le> 9) xs" using assms(4) by (auto simp: list_all_iff)
  from length_concat_enc [OF this] have "ws_current st + int (length (concat (map enc_unsigned xs))) \<le> 2 ^ 60"
    using assms(3) by linarith
  then show ?thesis using unsigned_int.write_read [OF assms(4,1,2)] by simp
qed

theorem write_read_unsigned_witness:
  "\<exists>st st'. WriteStream plain_realloc 16 = Some st \<and>
     write_list WriteUnsigned plain_realloc st [9223372036854775807, 128, 0] = Some st' \<and>
     read_list ReadUnsigned 3 ((ReadStream (written st') (bytes_written st'))\<lparr>rs_current := bytes_written st\<rparr>) =
       Some (stream_at (written st') [], [9223372036854775807, 128, 0])"
proof -
  obtain st where st: "WriteStream plain_realloc 16 = Some st" "ws_ok st" "ws_current st = 0" using example_stream by blast
  let ?xs = "[9223372036854775807, 128, 0] :: int list"
  have n: "3 = length ?xs" by simp
  have "\<exists>st'. write_list WriteUnsigned plain_realloc st ?xs = Some st' \<and> ws_ok st' \<and>
      read_list ReadUnsigned (length ?xs) ((ReadStream (written st') (bytes_written st'))\<lparr>rs_current := bytes_written st\<rparr>) =
        Some (stream_at (written st') [], ?xs)"
    by (rule write_read_unsigned [OF plain_realloc_ok st(2)]) (simp_all add: st(3) konst)
  then show ?thesis unfolding n using st(1) by blast
qed

text \<open>
  \<open>WriteBytes\<close> appends exactly the given bytes to what was written, growing the buffer by a
  sufficient amount when they do not fit; the invariant of the stream is kept.
\<close>

theorem WriteBytes_appends:
  assumes "realloc_ok alloc" "ws_ok st" "ws_current st + int (length bs) \<le> 2 ^ 60"
  shows "\<exists>st'. WriteBytes alloc st bs = Some st' \<and> ws_ok st' \<and> written st' = written st @ bs \<and>
    bytes_written st' = bytes_written st + int (length bs)"
proof -
  from WriteBytes_ok [OF assms(2,1,3)] obtain st' where
    s: "WriteBytes alloc st bs = Some st'" "ws_ok st'" "written st' = written st @ bs" by blast
  then show ?thesis using length_written [OF s(2)] length_written [OF assms(2)] by (simp add: bytes_written_def)
qed

theorem WriteBytes_appends_witness:
  "\<exists>st st'. WriteStream plain_realloc 16 = Some st \<and> WriteBytes plain_realloc st (replicate 40 7) = Some st' \<and>
     written st' = replicate 40 7"
proof -
  obtain st where st: "WriteStream plain_realloc 16 = Some st" "ws_ok st" "ws_current st = 0" using example_stream by blast
  have "written st = []" using st(3) by (simp add: written_def)
  then show ?thesis using WriteBytes_appends [OF plain_realloc_ok st(2), of "replicate 40 7"] st(1,3) by auto
qed

end
