(* ===== verification/Dart_Unicode.thy ===== *)
theory Dart_Unicode
  imports Prelude
begin

text \<open>
  Unicode encodings: \<open>runtime/vm/unicode.h\<close> and \<open>unicode.cc\<close>.

  An array that the source passes as a pointer and a length is the list of its elements, and
  \<open>&utf8_array[i]\<close> with length \<open>array_len - i\<close> is a suffix of that list. A \<open>uint32_t\<close> accumulator is
  a 32-bit word, so that the shifts of the decoder wrap as they do in the source; a code point is an
  \<open>int\<close>. A destination array is a list, written with \<open>write_at\<close>, which fails outside of it.

  The lemmas show that \<open>Utf8::Decode\<close> accepts exactly the shortest-form encodings, that \<open>IsValid\<close>
  accepts exactly their concatenations, and that the three decoding loops write the code points of the
  longest valid prefix in the respective form, whatever follows it.
\<close>

unbundle bit_operations_syntax

subsection \<open>Utf\<close>

definition kMaxCodePoint :: int where [konst]: "kMaxCodePoint = 0x10FFFF"

definition IsLatin1 :: "int \<Rightarrow> bool" where
  "IsLatin1 code_point \<longleftrightarrow> code_point \<ge> 0 \<and> code_point \<le> 0xFF"

definition IsBmp :: "int \<Rightarrow> bool" where
  "IsBmp code_point \<longleftrightarrow> code_point \<ge> 0 \<and> code_point \<le> 0xFFFF"

definition IsSupplementary :: "int \<Rightarrow> bool" where
  "IsSupplementary code_point \<longleftrightarrow> code_point > 0xFFFF \<and> code_point \<le> kMaxCodePoint"

definition IsOutOfRange :: "int \<Rightarrow> bool" where
  "IsOutOfRange code_point \<longleftrightarrow> code_point < 0 \<or> code_point > kMaxCodePoint"

subsection \<open>Utf16\<close>

definition kMaxCodeUnit :: int where [konst]: "kMaxCodeUnit = 0xFFFF"
definition kLeadSurrogateOffset :: int where "kLeadSurrogateOffset = 0xD800 - drop_bit 10 0x10000"

definition Utf16_Length :: "int \<Rightarrow> int" where
  "Utf16_Length ch = (if ch \<le> kMaxCodeUnit then 1 else 2)"

definition IsSurrogate :: "int \<Rightarrow> bool" where
  "IsSurrogate ch \<longleftrightarrow> (word_of_int ch :: 32 word) AND 0xFFFFF800 = 0xD800"

definition IsLeadSurrogate :: "int \<Rightarrow> bool" where
  "IsLeadSurrogate ch \<longleftrightarrow> (word_of_int ch :: 32 word) AND 0xFFFFFC00 = 0xD800"

definition IsTrailSurrogate :: "int \<Rightarrow> bool" where
  "IsTrailSurrogate ch \<longleftrightarrow> (word_of_int ch :: 32 word) AND 0xFFFFFC00 = 0xDC00"

definition Utf16_Decode :: "int \<Rightarrow> int \<Rightarrow> int" where
  "Utf16_Decode lead trail = 0x10000 + push_bit 10 (lead AND 0x3FF) + (trail AND 0x3FF)"

text \<open>\<open>Next\<close> reads the code point at \<open>i\<close> and returns it with the index behind it.\<close>

definition Utf16_Next :: "16 word list \<Rightarrow> int \<Rightarrow> int \<Rightarrow> (int \<times> int) option" where
  "Utf16_Next characters i len = do {
     c \<leftarrow> read_at characters i;
     if IsLeadSurrogate (uint c) \<and> i < len - 1 then do {
       c2 \<leftarrow> read_at characters (i + 1);
       if IsTrailSurrogate (uint c2) then Some (Utf16_Decode (uint c) (uint c2), i + 2) else Some (uint c, i + 1)
     } else Some (uint c, i + 1)
   }"

definition Utf16_Encode :: "int \<Rightarrow> 16 word list \<Rightarrow> int \<Rightarrow> 16 word list option" where
  "Utf16_Encode codepoint dst j = do {
     ASSERT (codepoint > kMaxCodeUnit);
     dst \<leftarrow> write_at dst j (word_of_int (kLeadSurrogateOffset + drop_bit 10 codepoint));
     write_at dst (j + 1) (word_of_int (0xDC00 + (codepoint AND 0x3FF)))
   }"

subsection \<open>Utf8\<close>

datatype utf8_type = kLatin1 | kBMP | kSupplementary

definition kMaxOneByteChar :: int where [konst]: "kMaxOneByteChar = 0x7F"
definition kMaxTwoByteChar :: int where [konst]: "kMaxTwoByteChar = 0x7FF"
definition kMaxThreeByteChar :: int where [konst]: "kMaxThreeByteChar = 0xFFFF"
definition kMaxFourByteChar :: int where [konst]: "kMaxFourByteChar = kMaxCodePoint"

definition kTrailBytes :: "nat list" where
  "kTrailBytes = replicate 128 1 @ replicate 64 0 @ replicate 32 2 @ replicate 16 3 @ replicate 8 4 @ replicate 4 5 @
     replicate 2 6 @ replicate 2 0"

definition kMagicBits :: "32 word list" where
  "kMagicBits = [0, 0, 0x3080, 0xE2080, 0x3C82080, 0xFA082080, 0x82082080]"

definition kOverlongMinimum :: "32 word list" where
  "kOverlongMinimum = [0, 0, 0x80, 0x800, 0x10000, 0xFFFFFFFF, 0xFFFFFFFF]"

definition IsTrailByte :: "byte \<Rightarrow> bool" where
  "IsTrailByte code_unit \<longleftrightarrow> code_unit AND 0xC0 = 0x80"

definition IsNonShortestForm :: "32 word \<Rightarrow> nat \<Rightarrow> bool" where
  "IsNonShortestForm code_point num_code_units \<longleftrightarrow> code_point < kOverlongMinimum ! num_code_units"

definition IsLatin1SequenceStart :: "byte \<Rightarrow> bool" where
  "IsLatin1SequenceStart code_unit \<longleftrightarrow> code_unit \<le> 0xC3"

definition IsSupplementarySequenceStart :: "byte \<Rightarrow> bool" where
  "IsSupplementarySequenceStart code_unit \<longleftrightarrow> code_unit \<ge> 0xF0"

fun count_loop :: "byte list \<Rightarrow> int \<Rightarrow> utf8_type \<Rightarrow> int \<times> utf8_type" where
  "count_loop [] len char_type = (len, char_type)"
| "count_loop (code_unit # rest) len char_type =
    (if \<not> IsTrailByte code_unit then
       if \<not> IsLatin1SequenceStart code_unit then
         if IsSupplementarySequenceStart code_unit then count_loop rest (len + 2) kSupplementary
         else if char_type = kLatin1 then count_loop rest (len + 1) kBMP
         else count_loop rest (len + 1) char_type
       else count_loop rest (len + 1) char_type
     else count_loop rest len char_type)"

definition CodeUnitCount :: "byte list \<Rightarrow> int \<times> utf8_type" where
  "CodeUnitCount utf8_array = count_loop utf8_array 0 kLatin1"

text \<open>
  The loop over the trail bytes, which \<open>Decode\<close> and \<open>IsValid\<close> share: the bytes still to read, the rest
  of the array, the accumulator and the flag \<open>is_malformed\<close>. \<open>None\<close> is the end of the array.
\<close>

fun trail_loop :: "nat \<Rightarrow> byte list \<Rightarrow> 32 word \<Rightarrow> bool \<Rightarrow> (32 word \<times> bool) option" where
  "trail_loop 0 rest ch is_malformed = Some (ch, is_malformed)"
| "trail_loop (Suc n) [] ch is_malformed = None"
| "trail_loop (Suc n) (code_unit # rest) ch is_malformed =
    trail_loop n rest (push_bit 6 ch + ucast code_unit) (is_malformed \<or> \<not> IsTrailByte code_unit)"

text \<open>One sequence at the start of a non-empty array: its length and its code point, or \<open>None\<close> if it is malformed.\<close>

definition decode_sequence :: "byte \<Rightarrow> byte list \<Rightarrow> (nat \<times> 32 word) option" where
  "decode_sequence c rest =
    (let ch = ucast c :: 32 word in
     if ch \<ge> 0x80 then
       let num_trail_bytes = kTrailBytes ! unat c; i = max 1 num_trail_bytes in
       case trail_loop (num_trail_bytes - 1) rest ch False of
         None \<Rightarrow> None
       | Some (ch, is_malformed) \<Rightarrow>
           let ch = ch - kMagicBits ! num_trail_bytes in
           if \<not> is_malformed \<and> i = num_trail_bytes \<and> \<not> IsOutOfRange (uint ch) \<and> \<not> IsNonShortestForm ch i
           then Some (i, ch) else None
     else Some (1, ch))"

definition Utf8_Decode :: "byte list \<Rightarrow> (int \<times> int) option" where
  "Utf8_Decode utf8_array =
    (case utf8_array of
       [] \<Rightarrow> None
     | c # rest \<Rightarrow> (case decode_sequence c rest of None \<Rightarrow> Some (0, -1) | Some (i, ch) \<Rightarrow> Some (int i, sint ch)))"

lemma decode_sequence_pos: "decode_sequence c rest = Some (i, ch) \<Longrightarrow> 0 < i"
  by (auto simp: decode_sequence_def Let_def split: if_splits option.splits)

lemma Utf8_Decode_pos: "Utf8_Decode arr = Some (n, ch) \<Longrightarrow> ch \<noteq> -1 \<Longrightarrow> 0 < n"
  by (auto simp: Utf8_Decode_def split: list.splits option.splits dest: decode_sequence_pos)

function IsValid :: "byte list \<Rightarrow> bool" where
  "IsValid [] \<longleftrightarrow> True"
| "IsValid (c # rest) \<longleftrightarrow>
    (case decode_sequence c rest of None \<Rightarrow> False | Some (j, ch) \<Rightarrow> IsValid (drop j (c # rest)))"
  by pat_completeness auto
termination
  by (relation "measure length") (auto dest: decode_sequence_pos)

declare IsValid.simps(2) [simp del]

definition Utf8_Length :: "int \<Rightarrow> int option" where
  "Utf8_Length ch =
    (if ch \<le> kMaxOneByteChar then Some 1
     else if ch \<le> kMaxTwoByteChar then Some 2
     else if ch \<le> kMaxThreeByteChar then Some 3
     else do { ASSERT (ch \<le> kMaxFourByteChar); Some 4 })"

text \<open>\<open>Encode\<close> returns the bytes it stores; a byte is the low end of an \<open>int\<close>.\<close>

definition kMask :: int where "kMask = NOT (push_bit 6 1)"

definition Utf8_Encode :: "int \<Rightarrow> byte list option" where
  "Utf8_Encode ch =
    (if ch \<le> kMaxOneByteChar then Some [word_of_int ch]
     else if ch \<le> kMaxTwoByteChar then
       Some [word_of_int (0xC0 OR drop_bit 6 ch), word_of_int (0x80 OR (ch AND kMask))]
     else if ch \<le> kMaxThreeByteChar then
       Some [word_of_int (0xE0 OR drop_bit 12 ch), word_of_int (0x80 OR (drop_bit 6 ch AND kMask)),
         word_of_int (0x80 OR (ch AND kMask))]
     else do {
       ASSERT (ch \<le> kMaxFourByteChar);
       Some [word_of_int (0xF0 OR drop_bit 18 ch), word_of_int (0x80 OR (drop_bit 12 ch AND kMask)),
         word_of_int (0x80 OR (drop_bit 6 ch AND kMask)), word_of_int (0x80 OR (ch AND kMask))]
     })"

text \<open>
  The loop that \<open>DecodeToLatin1\<close>, \<open>DecodeToUTF16\<close> and \<open>DecodeToUTF32\<close> share: \<open>guard\<close> is the assertion on
  the first byte of a sequence, \<open>put\<close> stores a code point at \<open>dst[j]\<close> and returns the last index written.
\<close>

function decode_loop :: "(byte \<Rightarrow> bool) \<Rightarrow> (byte \<Rightarrow> int \<Rightarrow> 'a list \<Rightarrow> int \<Rightarrow> ('a list \<times> int) option) \<Rightarrow>
    byte list \<Rightarrow> 'a list \<Rightarrow> int \<Rightarrow> int \<Rightarrow> (bool \<times> 'a list) option" where
  "decode_loop guard put utf8_array dst len j =
    (if utf8_array \<noteq> [] \<and> j < len then do {
       ASSERT (guard (hd utf8_array));
       (case Utf8_Decode utf8_array of
          None \<Rightarrow> None
        | Some (num_bytes, ch) \<Rightarrow>
            if ch = -1 then Some (False, dst)
            else (case put (hd utf8_array) ch dst j of
                None \<Rightarrow> None
              | Some (dst, j) \<Rightarrow> decode_loop guard put (drop (nat num_bytes) utf8_array) dst len (j + 1)))
     } else Some (\<not> (utf8_array \<noteq> [] \<and> j = len), dst))"
  by pat_completeness auto
termination
  by (relation "measure (\<lambda>(guard, put, arr, dst, len, j). length arr)") (auto dest: Utf8_Decode_pos)

declare decode_loop.simps [simp del]

definition put_latin1 :: "byte \<Rightarrow> int \<Rightarrow> byte list \<Rightarrow> int \<Rightarrow> (byte list \<times> int) option" where
  "put_latin1 c ch dst j = do { ASSERT (IsLatin1 ch); dst \<leftarrow> write_at dst j (word_of_int ch); Some (dst, j) }"

definition DecodeToLatin1 :: "byte list \<Rightarrow> byte list \<Rightarrow> int \<Rightarrow> (bool \<times> byte list) option" where
  "DecodeToLatin1 utf8_array dst len = decode_loop IsLatin1SequenceStart put_latin1 utf8_array dst len 0"

definition put_utf16 :: "byte \<Rightarrow> int \<Rightarrow> 16 word list \<Rightarrow> int \<Rightarrow> (16 word list \<times> int) option" where
  "put_utf16 c ch dst j =
    (if IsSupplementarySequenceStart c then do { dst \<leftarrow> Utf16_Encode ch dst j; Some (dst, j + 1) }
     else do { dst \<leftarrow> write_at dst j (word_of_int ch); Some (dst, j) })"

definition DecodeToUTF16 :: "byte list \<Rightarrow> 16 word list \<Rightarrow> int \<Rightarrow> (bool \<times> 16 word list) option" where
  "DecodeToUTF16 utf8_array dst len = decode_loop (\<lambda>_. True) put_utf16 utf8_array dst len 0"

definition put_utf32 :: "byte \<Rightarrow> int \<Rightarrow> int list \<Rightarrow> int \<Rightarrow> (int list \<times> int) option" where
  "put_utf32 c ch dst j = do { dst \<leftarrow> write_at dst j ch; Some (dst, j) }"

definition DecodeToUTF32 :: "byte list \<Rightarrow> int list \<Rightarrow> int \<Rightarrow> (bool \<times> int list) option" where
  "DecodeToUTF32 utf8_array dst len = decode_loop (\<lambda>_. True) put_utf32 utf8_array dst len 0"

definition DecodeCStringToUTF32 :: "byte list \<Rightarrow> int list \<Rightarrow> int \<Rightarrow> (bool \<times> int list) option" where
  "DecodeCStringToUTF32 str dst len =
    (if 0 \<in> set str then DecodeToUTF32 (takeWhile (\<lambda>c. c \<noteq> 0) str) dst len else None)"

subsection \<open>Encoding\<close>

text \<open>The encoding of a code point as numbers, and the bytes of its shortest form.\<close>

definition code_point :: "int \<Rightarrow> bool" where
  "code_point ch \<longleftrightarrow> 0 \<le> ch \<and> ch \<le> 0x10FFFF"

definition utf8 :: "int \<Rightarrow> int list" where
  "utf8 ch =
    (if ch < 0x80 then [ch]
     else if ch < 0x800 then [0xC0 + ch div 64, 0x80 + ch mod 64]
     else if ch < 0x10000 then [0xE0 + ch div 4096, 0x80 + ch div 64 mod 64, 0x80 + ch mod 64]
     else [0xF0 + ch div 262144, 0x80 + ch div 4096 mod 64, 0x80 + ch div 64 mod 64, 0x80 + ch mod 64])"

definition utf8_bytes :: "int \<Rightarrow> byte list" where
  "utf8_bytes ch = map word_of_int (utf8 ch)"

lemma push_bit_or: "0 \<le> r \<Longrightarrow> r < 2 ^ k \<Longrightarrow> push_bit k m OR r = push_bit k m + (r::int)"
proof -
  assume "0 \<le> r" "r < 2 ^ k"
  then have r: "take_bit k r = r" by (simp add: take_bit_int_eq_self_iff)
  have "push_bit k m AND take_bit k r = 0" by (rule bit_eqI) (auto simp: bit_simps)
  then show ?thesis using r disjunctive_add_eq_or [of "push_bit k m" r] by simp
qed

lemma lead_or:
  "0 \<le> r \<Longrightarrow> r < 32 \<Longrightarrow> 0xC0 OR r = 0xC0 + (r::int)"
  "0 \<le> r \<Longrightarrow> r < 16 \<Longrightarrow> 0xE0 OR r = 0xE0 + r"
  "0 \<le> r \<Longrightarrow> r < 8 \<Longrightarrow> 0xF0 OR r = 0xF0 + r"
  using push_bit_or [of r 6 3] push_bit_or [of r 5 7] push_bit_or [of r 4 15] by (simp_all add: push_bit_eq_mult)

lemma bit_kMask: "bit kMask n \<longleftrightarrow> n \<noteq> 6"
  unfolding kMask_def by (simp only: bit_not_int_iff bit_push_bit_iff_int bit_1_iff) auto

lemma trail_or: "(word_of_int (0x80 OR (ch AND kMask)) :: byte) = word_of_int (0x80 + ch mod 64)"
proof -
  obtain h :: int where h: "h = push_bit 7 1" by simp
  then have c: "0x80 = h" and bits: "bit h n \<longleftrightarrow> n = 7" for n
    by (simp add: push_bit_eq_mult, simp only: bit_push_bit_iff_int bit_1_iff, auto)
  have m: "h + ch mod 64 = h OR take_bit 6 ch"
    using push_bit_or [of "ch mod 64" 7 1] by (simp add: take_bit_eq_mod h)
  have "take_bit 8 (h OR (ch AND kMask)) = take_bit 8 (h OR take_bit 6 ch)"
    by (rule bit_eqI) (auto simp: bit_simps bit_kMask bits)
  then show ?thesis unfolding c m by (simp add: word_of_int_eq_iff)
qed

lemma Utf8_Encode_eq: "code_point ch \<Longrightarrow> Utf8_Encode ch = Some (utf8_bytes ch)"
  using lead_or(3) [of "ch div 262144"]
  by (auto simp: Utf8_Encode_def utf8_bytes_def utf8_def code_point_def konst trail_or drop_bit_eq_div lead_or)

lemma Utf8_Length_eq: "code_point ch \<Longrightarrow> Utf8_Length ch = Some (int (length (utf8_bytes ch)))"
  by (simp add: Utf8_Length_def utf8_bytes_def utf8_def code_point_def konst)

subsection \<open>Decoding one sequence\<close>

lemma byte_range: "0 \<le> uint (c::byte)" "uint (c::byte) < 256"
  using uint_lt2p [of c] by simp_all

lemma and_push_mask: "x AND push_bit k (mask m) = push_bit k (take_bit m (drop_bit k (x::int)))"
  by (rule bit_eqI) (auto simp: bit_simps)

lemma IsTrailByte_iff: "IsTrailByte c \<longleftrightarrow> 128 \<le> uint c \<and> uint c < 192"
proof -
  have "uint (c AND 0xC0) = uint c AND 0xC0" by (subst unsigned_and_eq) simp
  also have "\<dots> = 64 * (uint c div 64 mod 4)"
    using and_push_mask [of "uint c" 6 2]
    by (simp add: push_bit_eq_mult take_bit_eq_mod drop_bit_eq_div mask_eq_exp_minus_1)
  finally have "uint (c AND 0xC0) = 64 * (uint c div 64 mod 4)" .
  moreover have "IsTrailByte c \<longleftrightarrow> uint (c AND 0xC0) = uint (0x80 :: byte)"
    unfolding IsTrailByte_def by (rule word_uint_eq_iff)
  moreover have "uint (0x80 :: byte) = 128" by simp
  moreover have "uint c div 64 mod 4 = uint c div 64" using byte_range [of c] by (intro mod_pos_pos_trivial) linarith+
  moreover have "64 * (uint c div 64) = 128 \<longleftrightarrow> 128 \<le> uint c \<and> uint c < 192" by presburger
  ultimately show ?thesis by simp
qed

lemma nth_replicate_append: "(replicate k x @ ys) ! n = (if n < k then x else ys ! (n - k))"
  by (simp add: nth_append)

lemma kTrailBytes_nth:
  "n < 128 \<Longrightarrow> kTrailBytes ! n = 1" "128 \<le> n \<Longrightarrow> n < 192 \<Longrightarrow> kTrailBytes ! n = 0"
  "192 \<le> n \<Longrightarrow> n < 224 \<Longrightarrow> kTrailBytes ! n = 2" "224 \<le> n \<Longrightarrow> n < 240 \<Longrightarrow> kTrailBytes ! n = 3"
  "240 \<le> n \<Longrightarrow> n < 248 \<Longrightarrow> kTrailBytes ! n = 4" "248 \<le> n \<Longrightarrow> n < 252 \<Longrightarrow> kTrailBytes ! n = 5"
  "252 \<le> n \<Longrightarrow> n < 254 \<Longrightarrow> kTrailBytes ! n = 6" "254 \<le> n \<Longrightarrow> n < 256 \<Longrightarrow> kTrailBytes ! n = 0"
  unfolding kTrailBytes_def by (simp_all only: nth_replicate_append, simp_all, presburger+)

lemma trail_loop_eq:
  "trail_loop n rest (word_of_int a) m =
    (if length rest < n then None
     else Some (word_of_int (fold (\<lambda>c a. a * 64 + uint c) (take n rest) a), m \<or> \<not> list_all IsTrailByte (take n rest)))"
proof (induction n arbitrary: rest a m)
  case (Suc n)
  show ?case
  proof (cases rest)
    case (Cons c cs)
    have "push_bit 6 (word_of_int a) + ucast c = (word_of_int (a * 64 + uint c) :: 32 word)"
      by (simp add: push_bit_eq_mult)
    then have "trail_loop (Suc n) rest (word_of_int a) m = trail_loop n cs (word_of_int (a * 64 + uint c)) (m \<or> \<not> IsTrailByte c)"
      unfolding Cons trail_loop.simps by (rule arg_cong)
    then show ?thesis unfolding Suc.IH by (simp add: Cons)
  qed simp
qed simp

definition trail_value :: "int \<Rightarrow> byte list \<Rightarrow> int" where
  "trail_value a cs = fold (\<lambda>c a. a * 64 + uint c) cs a"

lemma uint_ucast_byte: "uint (ucast (c::byte) :: 32 word) = uint c"
  using byte_range [of c] by (simp add: unsigned_ucast_eq take_bit_int_eq_self)

lemma decode_sequence_low: "uint c < 128 \<Longrightarrow> decode_sequence c rest = Some (1, ucast c)"
  by (simp add: decode_sequence_def Let_def word_le_def uint_ucast_byte)

lemma decode_sequence_high:
  assumes "128 \<le> uint c" "n = kTrailBytes ! unat c" "w = word_of_int (trail_value (uint c) (take (n - 1) rest)) - kMagicBits ! n"
  shows "decode_sequence c rest =
    (if n = 0 \<or> length rest < n - 1 \<or> \<not> list_all IsTrailByte (take (n - 1) rest) \<or> IsOutOfRange (uint w) \<or> IsNonShortestForm w n
     then None else Some (n, w))"
proof -
  have 1: "(0x80 :: 32 word) \<le> ucast c" using assms(1) by (simp add: word_le_def uint_ucast_byte)
  have 2: "(ucast c :: 32 word) = word_of_int (uint c)" by simp
  have 3: "max 1 n = n \<longleftrightarrow> n \<noteq> 0" by auto
  show ?thesis
    using 1 unfolding decode_sequence_def Let_def assms(2) [symmetric]
    unfolding 2 trail_loop_eq trail_value_def [symmetric]
    by (auto simp: assms(3) 3)
qed

lemma uint_word32: "0 \<le> v \<Longrightarrow> v < 4294967296 \<Longrightarrow> uint (word_of_int v :: 32 word) = v"
  by (simp add: take_bit_int_eq_self uint_word_of_int_eq)

definition least_of :: "nat \<Rightarrow> int" where
  "least_of n = (if n = 2 then 0x80 else if n = 3 then 0x800 else 0x10000)"

definition magic_of :: "nat \<Rightarrow> int" where
  "magic_of n = (if n = 2 then 0x3080 else if n = 3 then 0xE2080 else 0x3C82080)"

lemma magic_nth: "n = 2 \<or> n = 3 \<or> n = 4 \<Longrightarrow> kMagicBits ! n = word_of_int (magic_of n)"
  by (auto simp: kMagicBits_def magic_of_def)

lemma shortest_iff:
  assumes "0 \<le> v" "v < 4294967296"
  shows "n = 2 \<or> n = 3 \<or> n = 4 \<Longrightarrow> IsNonShortestForm (word_of_int v) n \<longleftrightarrow> v < least_of n"
  unfolding IsNonShortestForm_def word_less_def uint_word32 [OF assms] by (auto simp: kOverlongMinimum_def least_of_def)

lemma out_of_range_iff:
  "0 \<le> v \<Longrightarrow> v < 4294967296 \<Longrightarrow> IsOutOfRange (uint (word_of_int v :: 32 word)) \<longleftrightarrow> 0x10FFFF < v"
  unfolding IsOutOfRange_def kMaxCodePoint_def by (subst uint_word32; simp add: uint_word32 del: uint_word_of_int_eq)+

lemma rejects_long: "IsOutOfRange (uint w) \<or> IsNonShortestForm w 5" "IsOutOfRange (uint w) \<or> IsNonShortestForm w 6"
  by (auto simp: IsOutOfRange_def konst IsNonShortestForm_def kOverlongMinimum_def word_less_def)

text \<open>What a lead byte of each class leads to.\<close>

lemma int_unat: "int (unat (c::byte)) = uint c"
  by simp

lemma kTrailBytes_bad:
  assumes "128 \<le> uint (c::byte)" "uint c < 192 \<or> 248 \<le> uint c"
  shows "kTrailBytes ! unat c = 0 \<or> kTrailBytes ! unat c = 5 \<or> kTrailBytes ! unat c = 6"
proof -
  have "128 \<le> unat c \<and> unat c < 192 \<or> 248 \<le> unat c \<and> unat c < 252 \<or> 252 \<le> unat c \<and> unat c < 254 \<or> 254 \<le> unat c \<and> unat c < 256"
    using assms byte_range [of c] int_unat [of c] by linarith
  then show ?thesis using kTrailBytes_nth(2,6,7,8) [of "unat c"] by blast
qed

lemma decode_bad:
  assumes "128 \<le> uint c" "uint c < 192 \<or> 248 \<le> uint c"
  shows "decode_sequence c rest = None"
proof -
  obtain n where n: "n = kTrailBytes ! unat c" by simp
  obtain w :: "32 word" where w: "w = word_of_int (trail_value (uint c) (take (n - 1) rest)) - kMagicBits ! n" by simp
  have "n = 0 \<or> n = 5 \<or> n = 6" using kTrailBytes_bad [OF assms] n by simp
  then have "n = 0 \<or> IsOutOfRange (uint w) \<or> IsNonShortestForm w n" using rejects_long [of w] by blast
  then show ?thesis unfolding decode_sequence_high [OF assms(1) n w] by auto
qed

text \<open>The three classes of lead bytes of multi-byte sequences.\<close>

lemma decode_multi:
  assumes "128 \<le> uint c" "n = kTrailBytes ! unat c" "n = 2 \<or> n = 3 \<or> n = 4"
    and v: "v = trail_value (uint c) (take (n - 1) rest) - magic_of n" "0 \<le> v" "v < 4294967296"
  shows "decode_sequence c rest =
    (if n - 1 \<le> length rest \<and> list_all IsTrailByte (take (n - 1) rest) \<and> v \<le> 0x10FFFF \<and> least_of n \<le> v
     then Some (n, word_of_int v) else None)"
proof -
  have w: "word_of_int v = word_of_int (trail_value (uint c) (take (n - 1) rest)) - kMagicBits ! n"
    by (simp add: v(1) magic_nth [OF assms(3)])
  show ?thesis
    unfolding decode_sequence_high [OF assms(1,2) w] shortest_iff [OF v(2,3) assms(3)] out_of_range_iff [OF v(2,3)]
    using assms(3) by auto
qed

lemma decode_short:
  assumes "128 \<le> uint c" "n = kTrailBytes ! unat c" "length rest < n - 1 \<or> \<not> list_all IsTrailByte (take (n - 1) rest)"
  shows "decode_sequence c rest = None"
  unfolding decode_sequence_high [OF assms(1,2) refl] using assms(3) by auto

lemma split_64: "v = q * 64 + r \<Longrightarrow> 0 \<le> r \<Longrightarrow> r < 64 \<Longrightarrow> v div 64 = q \<and> v mod 64 = (r::int)"
  by (simp add: div_add1_eq)

lemma div_4096: "v div 4096 = v div 64 div (64::int)" "v div 262144 = v div 64 div 64 div (64::int)"
  using zdiv_zmult2_eq [of 64 v 64] zdiv_zmult2_eq [of 4096 v 64] zdiv_zmult2_eq [of 64 "v div 64" 64] by simp_all

lemma utf8_inverse_2:
  assumes "192 \<le> a" "a < 224" "128 \<le> b" "b < 192" "v = a * 64 + b - 0x3080" "0x80 \<le> v"
  shows "utf8 v = [a, b]"
  using assms split_64 [of v "a - 192" "b - 128"] by (simp add: utf8_def)

lemma utf8_inverse_3:
  assumes "224 \<le> a" "a < 240" "128 \<le> b" "b < 192" "128 \<le> d" "d < 192" "v = (a * 64 + b) * 64 + d - 0xE2080" "0x800 \<le> v"
  shows "utf8 v = [a, b, d]"
  using assms split_64 [of v "(a - 224) * 64 + (b - 128)" "d - 128"]
    split_64 [of "(a - 224) * 64 + (b - 128)" "a - 224" "b - 128"]
  by (simp add: utf8_def div_4096)

lemma utf8_inverse_4:
  assumes "240 \<le> a" "a < 248" "128 \<le> b" "b < 192" "128 \<le> d" "d < 192" "128 \<le> e" "e < 192"
    "v = ((a * 64 + b) * 64 + d) * 64 + e - 0x3C82080" "0x10000 \<le> v"
  shows "utf8 v = [a, b, d, e]"
  using assms split_64 [of v "((a - 240) * 64 + (b - 128)) * 64 + (d - 128)" "e - 128"]
    split_64 [of "((a - 240) * 64 + (b - 128)) * 64 + (d - 128)" "(a - 240) * 64 + (b - 128)" "d - 128"]
    split_64 [of "(a - 240) * 64 + (b - 128)" "a - 240" "b - 128"]
  by (simp add: utf8_def div_4096)

lemma lead_class:
  "192 \<le> uint (c::byte) \<Longrightarrow> uint c < 224 \<Longrightarrow> 2 = kTrailBytes ! unat c"
  "224 \<le> uint c \<Longrightarrow> uint c < 240 \<Longrightarrow> 3 = kTrailBytes ! unat c"
  "240 \<le> uint c \<Longrightarrow> uint c < 248 \<Longrightarrow> 4 = kTrailBytes ! unat c"
  using kTrailBytes_nth(3-5) [of "unat c"] int_unat [of c] by linarith+

text \<open>The soundness of each class: what is accepted is the shortest form of the code point.\<close>

definition is_sequence :: "byte list \<Rightarrow> nat \<Rightarrow> 32 word \<Rightarrow> bool" where
  "is_sequence cs i w \<longleftrightarrow> (\<exists>ch. code_point ch \<and> w = word_of_int ch \<and> i = length (utf8 ch) \<and> take i (map uint cs) = utf8 ch)"

lemma decode_2_sound:
  assumes c: "192 \<le> uint c" "uint c < 224" and d: "decode_sequence c rest = Some (i, w)"
  shows "is_sequence (c # rest) i w"
proof -
  have c': "128 \<le> uint c" using c by simp
  from decode_short [OF c' lead_class(1) [OF c], of rest] d obtain c1 r where r: "rest = c1 # r" and t: "IsTrailByte c1"
    by (cases rest) auto
  obtain v where v: "v = trail_value (uint c) (take (2 - 1) rest) - magic_of 2" by simp
  then have v2: "v = uint c * 64 + uint c1 - 0x3080" by (simp add: r trail_value_def magic_of_def)
  have t': "128 \<le> uint c1" "uint c1 < 192" using t by (simp_all add: IsTrailByte_iff)
  have b: "0 \<le> v" "v < 4294967296" "v < 0x800" using c t' v2 by simp_all
  from decode_multi [OF c' lead_class(1) [OF c] _ v b(1,2)] d have "0x80 \<le> v" "i = 2" "w = word_of_int v"
    by (auto simp: least_of_def split: if_splits)
  moreover from this(1) have "utf8 v = [uint c, uint c1]" by (rule utf8_inverse_2 [OF c t' v2])
  ultimately show ?thesis using b unfolding is_sequence_def by (intro exI [of _ v]) (simp add: code_point_def r)
qed

lemma decode_3_sound:
  assumes c: "224 \<le> uint c" "uint c < 240" and d: "decode_sequence c rest = Some (i, w)"
  shows "is_sequence (c # rest) i w"
proof -
  have c': "128 \<le> uint c" using c by simp
  from decode_short [OF c' lead_class(2) [OF c], of rest] d
  have "\<not> length rest < 2" "list_all IsTrailByte (take 2 rest)" by auto
  then obtain c1 c2 r where r: "rest = c1 # c2 # r" and t: "IsTrailByte c1" "IsTrailByte c2"
    by (cases rest; cases "tl rest") auto
  obtain v where v: "v = trail_value (uint c) (take (3 - 1) rest) - magic_of 3" by simp
  then have v3: "v = (uint c * 64 + uint c1) * 64 + uint c2 - 0xE2080" by (simp add: r trail_value_def magic_of_def)
  have t': "128 \<le> uint c1" "uint c1 < 192" "128 \<le> uint c2" "uint c2 < 192" using t by (simp_all add: IsTrailByte_iff)
  have b: "0 \<le> v" "v < 4294967296" "v < 0x10000" using c t' v3 by simp_all
  from decode_multi [OF c' lead_class(2) [OF c] _ v b(1,2)] d have "0x800 \<le> v" "i = 3" "w = word_of_int v"
    by (auto simp: least_of_def split: if_splits)
  moreover from this(1) have "utf8 v = [uint c, uint c1, uint c2]" by (rule utf8_inverse_3 [OF c t' v3])
  ultimately show ?thesis using b unfolding is_sequence_def by (intro exI [of _ v]) (simp add: code_point_def r)
qed

lemma decode_4_sound:
  assumes c: "240 \<le> uint c" "uint c < 248" and d: "decode_sequence c rest = Some (i, w)"
  shows "is_sequence (c # rest) i w"
proof -
  have c': "128 \<le> uint c" using c by simp
  from decode_short [OF c' lead_class(3) [OF c], of rest] d
  have "\<not> length rest < 3" "list_all IsTrailByte (take 3 rest)" by auto
  then obtain c1 c2 c3 r where r: "rest = c1 # c2 # c3 # r" and t: "IsTrailByte c1" "IsTrailByte c2" "IsTrailByte c3"
    by (cases rest; cases "tl rest"; cases "tl (tl rest)") auto
  obtain v where v: "v = trail_value (uint c) (take (4 - 1) rest) - magic_of 4" by simp
  then have v4: "v = ((uint c * 64 + uint c1) * 64 + uint c2) * 64 + uint c3 - 0x3C82080"
    by (simp add: r trail_value_def magic_of_def)
  have t': "128 \<le> uint c1" "uint c1 < 192" "128 \<le> uint c2" "uint c2 < 192" "128 \<le> uint c3" "uint c3 < 192"
    using t by (simp_all add: IsTrailByte_iff)
  have b: "0 \<le> v" "v < 4294967296" using c t' v4 by simp_all
  from decode_multi [OF c' lead_class(3) [OF c] _ v b] d have "0x10000 \<le> v" "v \<le> 0x10FFFF" "i = 4" "w = word_of_int v"
    by (auto simp: least_of_def split: if_splits)
  moreover from this(1) have "utf8 v = [uint c, uint c1, uint c2, uint c3]" by (rule utf8_inverse_4 [OF c t' v4])
  ultimately show ?thesis using b unfolding is_sequence_def by (intro exI [of _ v]) (simp add: code_point_def r)
qed

lemma decode_sequence_sound:
  assumes "decode_sequence c rest = Some (i, w)"
  shows "is_sequence (c # rest) i w"
proof -
  consider "uint c < 128" | "128 \<le> uint c" "uint c < 192 \<or> 248 \<le> uint c" | "192 \<le> uint c" "uint c < 224" |
    "224 \<le> uint c" "uint c < 240" | "240 \<le> uint c" "uint c < 248" by linarith
  then show ?thesis
  proof cases
    case 1
    with assms decode_sequence_low [OF 1] byte_range [of c] show ?thesis unfolding is_sequence_def
      by (intro exI [of _ "uint c"]) (auto simp: utf8_def code_point_def)
  next
    case 2
    with decode_bad [OF 2, of rest] assms show ?thesis by simp
  qed (use assms decode_2_sound decode_3_sound decode_4_sound in blast)+
qed

text \<open>The completeness: the shortest form of every code point is accepted, whatever follows it.\<close>

lemma uint_utf8_byte: "0 \<le> x \<Longrightarrow> x < 256 \<Longrightarrow> uint (word_of_int x :: byte) = x"
  by (simp add: take_bit_int_eq_self uint_word_of_int_eq)

lemma decode_sequence_complete:
  assumes "utf8 ch = take i (map uint (c # rest))" "code_point ch" "i = length (utf8 ch)"
  shows "decode_sequence c rest = Some (i, word_of_int ch)"
proof -
  have len: "i \<le> Suc (length rest)" using arg_cong [OF assms(1), of length] assms(3) by simp
  consider "ch < 0x80" | "0x80 \<le> ch" "ch < 0x800" | "0x800 \<le> ch" "ch < 0x10000" | "0x10000 \<le> ch" by linarith
  then show ?thesis
  proof cases
    case 1
    then have "uint c = ch" "i = 1" using assms by (simp_all add: utf8_def)
    then show ?thesis using decode_sequence_low [of c rest] 1 by auto
  next
    case 2
    then have i: "i = 2" using assms(3) by (simp add: utf8_def)
    then obtain c1 r where r: "rest = c1 # r" using len by (cases rest) auto
    have "[192 + ch div 64, 128 + ch mod 64] = take 2 (map uint (c # rest))" using assms(1) 2 by (simp only: utf8_def i) simp
    then have u: "uint c = 192 + ch div 64" "uint c1 = 128 + ch mod 64" unfolding r by simp_all
    have c: "192 \<le> uint c" "uint c < 224" "128 \<le> uint c" using u 2 by simp_all
    have v: "ch = trail_value (uint c) (take (2 - 1) rest) - magic_of 2" by (simp add: r u trail_value_def magic_of_def)
    have "IsTrailByte c1" unfolding IsTrailByte_iff u by simp
    then show ?thesis using decode_multi [OF c(3) lead_class(1) [OF c(1,2)] _ v] 2 by (simp add: r i least_of_def)
  next
    case 3
    then have i: "i = 3" using assms(3) by (simp add: utf8_def)
    then obtain c1 c2 r where r: "rest = c1 # c2 # r" using len by (cases rest; cases "tl rest") auto
    have "[224 + ch div 4096, 128 + ch div 64 mod 64, 128 + ch mod 64] = take 3 (map uint (c # rest))"
      using assms(1) 3 by (simp only: utf8_def i) simp
    then have u: "uint c = 224 + ch div 64 div 64" "uint c1 = 128 + ch div 64 mod 64" "uint c2 = 128 + ch mod 64"
      unfolding r div_4096 by simp_all
    have c: "224 \<le> uint c" "uint c < 240" "128 \<le> uint c" using u 3 by simp_all
    have v: "ch = trail_value (uint c) (take (3 - 1) rest) - magic_of 3" by (simp add: r u trail_value_def magic_of_def)
    have "IsTrailByte c1" "IsTrailByte c2" unfolding IsTrailByte_iff u by simp_all
    then show ?thesis using decode_multi [OF c(3) lead_class(2) [OF c(1,2)] _ v] 3 by (simp add: r i least_of_def)
  next
    case 4
    then have i: "i = 4" using assms(3) by (simp add: utf8_def)
    then obtain c1 c2 c3 r where r: "rest = c1 # c2 # c3 # r"
      using len by (cases rest; cases "tl rest"; cases "tl (tl rest)") auto
    have "[240 + ch div 262144, 128 + ch div 4096 mod 64, 128 + ch div 64 mod 64, 128 + ch mod 64] = take 4 (map uint (c # rest))"
      using assms(1) 4 by (simp only: utf8_def i) simp
    then have u: "uint c = 240 + ch div 64 div 64 div 64" "uint c1 = 128 + ch div 64 div 64 mod 64"
        "uint c2 = 128 + ch div 64 mod 64" "uint c3 = 128 + ch mod 64"
      unfolding r div_4096 by simp_all
    have "0 \<le> ch div 262144" "ch div 262144 < 8" using 4 assms(2) by (simp_all add: code_point_def)
    then have c: "240 \<le> uint c" "uint c < 248" "128 \<le> uint c" unfolding u(1) div_4096 by linarith+
    have v: "ch = trail_value (uint c) (take (4 - 1) rest) - magic_of 4" by (simp add: r u trail_value_def magic_of_def)
    have "IsTrailByte c1" "IsTrailByte c2" "IsTrailByte c3" unfolding IsTrailByte_iff u by simp_all
    then show ?thesis using decode_multi [OF c(3) lead_class(3) [OF c(1,2)] _ v] 4 assms(2)
      by (simp add: r i least_of_def code_point_def)
  qed
qed

subsection \<open>Decoding is the inverse of encoding\<close>

lemma utf8_range: "code_point ch \<Longrightarrow> list_all (\<lambda>x. 0 \<le> x \<and> x < 256) (utf8 ch)"
proof -
  assume "code_point ch"
  then have "0 \<le> ch div 262144" "ch div 262144 < 8" "0 \<le> ch" unfolding code_point_def by auto
  moreover have "0 \<le> ch div 64 mod 64" "ch div 64 mod 64 < 64" "0 \<le> ch mod 64" "ch mod 64 < 64"
    "0 \<le> ch div 4096 mod 64" "ch div 4096 mod 64 < 64" by simp_all
  ultimately show ?thesis by (auto simp: utf8_def)
qed

lemma map_uint_utf8_bytes: "code_point ch \<Longrightarrow> map uint (utf8_bytes ch) = utf8 ch"
  using utf8_range [of ch] unfolding utf8_bytes_def list_all_iff by (auto simp: uint_utf8_byte intro!: map_idI simp del: uint_word_of_int_eq)

lemma length_utf8_bytes [simp]: "length (utf8_bytes ch) = length (utf8 ch)"
  by (simp add: utf8_bytes_def)

lemma utf8_nonempty [simp]: "utf8 ch \<noteq> []" "utf8_bytes ch \<noteq> []"
  by (auto simp: utf8_def utf8_bytes_def)

lemma take_utf8_iff:
  assumes "code_point ch"
  shows "take i (map uint cs) = utf8 ch \<longleftrightarrow> take i cs = utf8_bytes ch"
proof
  assume "take i (map uint cs) = utf8 ch"
  then have "map word_of_int (take i (map uint cs)) = utf8_bytes ch" by (simp add: utf8_bytes_def)
  then show "take i cs = utf8_bytes ch" by (simp add: take_map comp_def)
qed (simp add: take_map map_uint_utf8_bytes [OF assms])

lemma decode_sequence_iff:
  "decode_sequence c rest = Some (i, w) \<longleftrightarrow>
    (\<exists>ch. code_point ch \<and> w = word_of_int ch \<and> i = length (utf8_bytes ch) \<and> take i (c # rest) = utf8_bytes ch)"
  (is "?l \<longleftrightarrow> ?r")
proof
  assume ?l
  from decode_sequence_sound [OF this] show ?r unfolding is_sequence_def using take_utf8_iff by fastforce
next
  assume ?r
  then obtain ch where ch: "code_point ch" "w = word_of_int ch" "i = length (utf8_bytes ch)" "take i (c # rest) = utf8_bytes ch" by blast
  then have "utf8 ch = take i (map uint (c # rest))" using take_utf8_iff by metis
  then show ?l using decode_sequence_complete ch by simp
qed

lemma decode_utf8_bytes:
  assumes "code_point ch" "utf8_bytes ch @ r = c # rest"
  shows "decode_sequence c rest = Some (length (utf8 ch), word_of_int ch)"
proof -
  have "take (length (utf8 ch)) (c # rest) = utf8_bytes ch" using assms(2) [symmetric] by simp
  then show ?thesis unfolding decode_sequence_iff using assms(1) by auto
qed

lemma sint_code_point: "code_point ch \<Longrightarrow> sint (word_of_int ch :: 32 word) = ch"
  unfolding code_point_def by (simp add: sint_sbintrunc' signed_take_bit_int_eq_self)

lemma Utf8_Decode_utf8_bytes: "code_point ch \<Longrightarrow> Utf8_Decode (utf8_bytes ch @ r) = Some (int (length (utf8 ch)), ch)"
proof (cases "utf8_bytes ch @ r")
  case (Cons c rest)
  assume "code_point ch"
  with decode_utf8_bytes [OF this Cons] show ?thesis unfolding Cons Utf8_Decode_def by (simp add: sint_code_point)
qed simp

lemma Utf8_Decode_cases:
  obtains "arr = []" | c rest where "arr = c # rest" "decode_sequence c rest = None" "Utf8_Decode arr = Some (0, -1)"
  | ch r where "code_point ch" "arr = utf8_bytes ch @ r" "Utf8_Decode arr = Some (int (length (utf8 ch)), ch)"
proof (cases arr)
  case (Cons c rest)
  show thesis
  proof (cases "decode_sequence c rest")
    case None
    with Cons that(2) show thesis by (simp add: Utf8_Decode_def)
  next
    case (Some p)
    obtain i w where "p = (i, w)" by fastforce
    with Some obtain ch where ch: "code_point ch" "i = length (utf8_bytes ch)" "take i (c # rest) = utf8_bytes ch"
      using decode_sequence_iff [of c rest i w] by auto
    have "arr = utf8_bytes ch @ drop i arr" using ch(3) Cons by (metis append_take_drop_id)
    with ch(1) that(3) Utf8_Decode_utf8_bytes show thesis by metis
  qed
qed (use that(1) in blast)

text \<open>Every array is a concatenation of shortest forms and a rest that is empty or malformed at its start.\<close>

lemma utf8_prefix:
  obtains chs bad where "list_all code_point chs" "arr = concat (map utf8_bytes chs) @ bad"
    "bad = [] \<or> bad \<noteq> [] \<and> Utf8_Decode bad = Some (0, -1)"
proof (induction arr arbitrary: thesis rule: length_induct)
  case (1 arr)
  show ?case
  proof (rule Utf8_Decode_cases [of arr])
    fix ch r assume ch: "code_point ch" "arr = utf8_bytes ch @ r"
    then have "length r < length arr" by simp
    with 1(1) obtain chs bad where "list_all code_point chs" "r = concat (map utf8_bytes chs) @ bad"
      "bad = [] \<or> bad \<noteq> [] \<and> Utf8_Decode bad = Some (0, -1)" by blast
    with ch show ?case by (intro 1(2) [of "ch # chs" bad]) simp_all
  qed (use 1(2) [of "[]" arr] in auto)
qed

lemma IsValid_utf8_bytes: "code_point ch \<Longrightarrow> IsValid (utf8_bytes ch @ r) \<longleftrightarrow> IsValid r"
proof (cases "utf8_bytes ch @ r")
  case (Cons c rest)
  assume ch: "code_point ch"
  have "drop (length (utf8 ch)) (c # rest) = r" using Cons [symmetric] by simp
  with decode_utf8_bytes [OF ch Cons] show ?thesis unfolding Cons IsValid.simps by simp
qed simp

lemma IsValid_concat: "list_all code_point chs \<Longrightarrow> IsValid (concat (map utf8_bytes chs) @ r) \<longleftrightarrow> IsValid r"
  by (induction chs) (simp_all add: IsValid_utf8_bytes)

lemma IsValid_malformed: "bad \<noteq> [] \<Longrightarrow> Utf8_Decode bad = Some (0, -1) \<Longrightarrow> \<not> IsValid bad"
  by (cases bad) (auto simp: Utf8_Decode_def IsValid.simps dest!: decode_sequence_pos split: option.splits)

subsection \<open>The decoding loops\<close>

text \<open>
  The contract of a writer of code units: it stores the units of a code point in consecutive elements.
  Under it, the loop stores the units of every code point of the valid prefix of its input.
\<close>

locale unit_writer =
  fixes guard :: "byte \<Rightarrow> bool"
    and put :: "byte \<Rightarrow> int \<Rightarrow> 'a list \<Rightarrow> int \<Rightarrow> ('a list \<times> int) option"
    and units :: "int \<Rightarrow> 'a list"
    and ok :: "int \<Rightarrow> bool"
  assumes guard_ok: "code_point ch \<Longrightarrow> ok ch \<Longrightarrow> guard (hd (utf8_bytes ch))"
    and units_nonempty: "units ch \<noteq> []"
    and put_units: "code_point ch \<Longrightarrow> ok ch \<Longrightarrow> length (units ch) \<le> length post \<Longrightarrow>
      put (hd (utf8_bytes ch)) ch (pre @ post) (int (length pre)) =
        Some (pre @ units ch @ drop (length (units ch)) post, int (length pre) + int (length (units ch)) - 1)"
begin

lemma decode_loop_append:
  assumes "list_all code_point chs" "list_all ok chs" "length (concat (map units chs)) \<le> length post"
    "int (length pre + length (concat (map units chs))) \<le> len"
  shows "decode_loop guard put (concat (map utf8_bytes chs) @ rest) (pre @ post) len (int (length pre)) =
    decode_loop guard put rest (pre @ concat (map units chs) @ drop (length (concat (map units chs))) post) len
      (int (length pre + length (concat (map units chs))))"
  using assms
proof (induction chs arbitrary: pre post)
  case (Cons ch chs)
  let ?u = "units ch" and ?us = "concat (map units chs)"
  have ch: "code_point ch" "ok ch" using Cons.prems by simp_all
  have len: "length ?u \<le> length post" "length ?us \<le> length (drop (length ?u) post)" using Cons.prems(3) by simp_all
  have "0 < length ?u" using units_nonempty by simp
  then have j: "int (length pre) < len" using Cons.prems(4) by (simp del: length_greater_0_conv)
  have "decode_loop guard put (utf8_bytes ch @ concat (map utf8_bytes chs) @ rest) (pre @ post) len (int (length pre)) =
      decode_loop guard put (concat (map utf8_bytes chs) @ rest) ((pre @ ?u) @ drop (length ?u) post) len (int (length (pre @ ?u)))"
    using ch j put_units [OF ch len(1), of pre] guard_ok [OF ch]
    by (subst decode_loop.simps) (simp add: Utf8_Decode_utf8_bytes code_point_def)
  also have "\<dots> = decode_loop guard put rest ((pre @ ?u) @ ?us @ drop (length ?us) (drop (length ?u) post)) len
      (int (length (pre @ ?u) + length ?us))"
    using Cons.prems len by (intro Cons.IH) simp_all
  finally show ?case by (simp add: ac_simps)
qed simp

lemma decode_loop_prefix:
  assumes "list_all code_point chs" "list_all ok chs"
    "bad = [] \<or> bad \<noteq> [] \<and> Utf8_Decode bad = Some (0, -1) \<and> guard (hd bad)"
    "length (concat (map units chs)) \<le> length dst" "int (length (concat (map units chs))) \<le> len"
  shows "decode_loop guard put (concat (map utf8_bytes chs) @ bad) dst len 0 =
    Some (bad = [], concat (map units chs) @ drop (length (concat (map units chs))) dst)"
  using decode_loop_append [OF assms(1,2,4), of "[]" len bad] assms(3,5)
  by (auto simp: decode_loop.simps [of guard put bad])

end

lemma write_at_append: "write_at (pre @ x # post) (int (length pre)) v = Some (pre @ v # post)"
  by simp

lemma uint_hd_utf8: "code_point ch \<Longrightarrow> uint (hd (utf8_bytes ch)) = hd (utf8 ch)"
  by (simp add: map_uint_utf8_bytes [symmetric] hd_map)

lemma hd_utf8_classes:
  assumes "code_point ch"
  shows "hd (utf8 ch) \<le> 0xC3 \<longleftrightarrow> ch \<le> 0xFF" "0xF0 \<le> hd (utf8 ch) \<longleftrightarrow> 0xFFFF < ch"
    "\<not> (128 \<le> hd (utf8 ch) \<and> hd (utf8 ch) < 192)"
proof -
  have "0 \<le> ch" "0 \<le> ch div 262144" using assms unfolding code_point_def by auto
  then show "hd (utf8 ch) \<le> 0xC3 \<longleftrightarrow> ch \<le> 0xFF" "0xF0 \<le> hd (utf8 ch) \<longleftrightarrow> 0xFFFF < ch"
    "\<not> (128 \<le> hd (utf8 ch) \<and> hd (utf8 ch) < 192)" unfolding utf8_def by auto
qed

lemma lead_byte_classes:
  assumes "code_point ch"
  shows "IsLatin1SequenceStart (hd (utf8_bytes ch)) \<longleftrightarrow> ch \<le> 0xFF"
    "IsSupplementarySequenceStart (hd (utf8_bytes ch)) \<longleftrightarrow> 0xFFFF < ch" "\<not> IsTrailByte (hd (utf8_bytes ch))"
  using hd_utf8_classes [OF assms]
  by (simp_all add: IsLatin1SequenceStart_def IsSupplementarySequenceStart_def IsTrailByte_iff word_le_def uint_hd_utf8 [OF assms])

definition latin1 :: "int \<Rightarrow> byte list" where
  "latin1 ch = [word_of_int ch]"

definition utf16 :: "int \<Rightarrow> 16 word list" where
  "utf16 ch =
    (if ch \<le> 0xFFFF then [word_of_int ch]
     else [word_of_int (0xD7C0 + ch div 1024), word_of_int (0xDC00 + ch mod 1024)])"

interpretation latin1_writer: unit_writer IsLatin1SequenceStart put_latin1 latin1 "\<lambda>ch. ch \<le> 0xFF"
proof unfold_locales
  fix ch and pre post :: "byte list"
  assume "code_point ch" "ch \<le> 0xFF" "length (latin1 ch) \<le> length post"
  then show "put_latin1 (hd (utf8_bytes ch)) ch (pre @ post) (int (length pre)) =
      Some (pre @ latin1 ch @ drop (length (latin1 ch)) post, int (length pre) + int (length (latin1 ch)) - 1)"
    by (cases post) (simp_all add: put_latin1_def latin1_def IsLatin1_def code_point_def)
qed (simp_all add: lead_byte_classes latin1_def)

lemma and_3FF: "(ch::int) AND 0x3FF = ch mod 1024"
  using take_bit_eq_mask [of 10 ch] by (simp add: take_bit_eq_mod mask_eq_exp_minus_1)

lemma Utf16_Encode_append:
  assumes "0xFFFF < ch" "2 \<le> length post"
  shows "Utf16_Encode ch (pre @ post) (int (length pre)) = Some (pre @ utf16 ch @ drop 2 post)"
proof -
  obtain x y ps where post: "post = x # y # ps" using assms(2) by (cases post; cases "tl post") auto
  have "int (length pre) + 1 = int (length (pre @ [word_of_int (0xD7C0 + ch div 1024)]))" by simp
  then show ?thesis
    using assms(1) write_at_append [of "pre @ [word_of_int (0xD7C0 + ch div 1024)]" y ps]
    by (simp add: Utf16_Encode_def konst post utf16_def kLeadSurrogateOffset_def and_3FF drop_bit_eq_div add.commute)
qed

interpretation utf16_writer: unit_writer "\<lambda>_. True" put_utf16 utf16 "\<lambda>_. True"
proof unfold_locales
  fix ch and pre post :: "16 word list"
  assume ch: "code_point ch" and len: "length (utf16 ch) \<le> length post"
  show "put_utf16 (hd (utf8_bytes ch)) ch (pre @ post) (int (length pre)) =
      Some (pre @ utf16 ch @ drop (length (utf16 ch)) post, int (length pre) + int (length (utf16 ch)) - 1)"
  proof (cases "0xFFFF < ch")
    case True
    then have "length (utf16 ch) = 2" by (simp add: utf16_def)
    then show ?thesis using True len Utf16_Encode_append [OF True, of post pre] by (simp add: put_utf16_def lead_byte_classes [OF ch])
  next
    case False
    then show ?thesis using len by (cases post) (simp_all add: put_utf16_def lead_byte_classes [OF ch] utf16_def)
  qed
qed (simp_all add: utf16_def)

interpretation utf32_writer: unit_writer "\<lambda>_. True" put_utf32 "\<lambda>ch. [ch]" "\<lambda>_. True"
proof unfold_locales
  fix ch :: int and pre post :: "int list"
  assume "length [ch] \<le> length post"
  then show "put_utf32 (hd (utf8_bytes ch)) ch (pre @ post) (int (length pre)) =
      Some (pre @ [ch] @ drop (length [ch]) post, int (length pre) + int (length [ch]) - 1)"
    by (cases post) (simp_all add: put_utf32_def)
qed simp_all

subsection \<open>Counting code units\<close>

lemma tl_utf8_trail: "code_point ch \<Longrightarrow> list_all IsTrailByte (tl (utf8_bytes ch))"
  unfolding utf8_bytes_def utf8_def by (simp add: IsTrailByte_iff uint_utf8_byte del: of_int_add uint_word_of_int_eq)

lemma count_loop_trail: "list_all IsTrailByte ts \<Longrightarrow> count_loop (ts @ r) len t = count_loop r len t"
  by (induction ts) simp_all

definition type_with :: "utf8_type \<Rightarrow> int \<Rightarrow> utf8_type" where
  "type_with t ch = (if ch \<le> 0xFF then t else if 0xFFFF < ch then kSupplementary else if t = kLatin1 then kBMP else t)"

lemma count_loop_utf8:
  assumes "code_point ch"
  shows "count_loop (utf8_bytes ch @ r) len t = count_loop r (len + int (length (utf16 ch))) (type_with t ch)"
proof (cases "utf8_bytes ch")
  case (Cons c cs)
  then have "list_all IsTrailByte cs" "c = hd (utf8_bytes ch)" using tl_utf8_trail [OF assms] by simp_all
  then show ?thesis using lead_byte_classes [OF assms] by (auto simp: Cons count_loop_trail utf16_def type_with_def)
qed simp

lemma count_loop_concat:
  "list_all code_point chs \<Longrightarrow> count_loop (concat (map utf8_bytes chs) @ r) len t =
    count_loop r (len + int (length (concat (map utf16 chs)))) (fold (\<lambda>ch t. type_with t ch) chs t)"
  by (induction chs arbitrary: len t) (simp_all add: count_loop_utf8 ac_simps)

lemma fold_type_with: "fold (\<lambda>ch t. type_with t ch) chs t = kLatin1 \<longleftrightarrow> t = kLatin1 \<and> list_all (\<lambda>ch. ch \<le> 0xFF) chs"
  by (induction chs arbitrary: t) (auto simp: type_with_def)

lemma count_loop_mono: "len \<le> fst (count_loop r len t)"
  by (induction r len t rule: count_loop.induct) auto

lemma count_loop_latin1: "snd (count_loop r len t) = kLatin1 \<Longrightarrow> t = kLatin1 \<and> (r \<noteq> [] \<longrightarrow> IsLatin1SequenceStart (hd r))"
proof (induction r len t rule: count_loop.induct)
  case (2 c r len t)
  have "IsTrailByte c \<Longrightarrow> IsLatin1SequenceStart c" by (simp add: IsTrailByte_iff IsLatin1SequenceStart_def word_le_def)
  with 2 show ?case by (auto split: if_splits)
qed simp

subsection \<open>Properties\<close>

text \<open>
  C31: \<open>Utf8::Decode\<close> accepts exactly what \<open>Utf8::Encode\<close> produces. It returns the code point \<open>ch\<close> and the
  length \<open>n\<close> if and only if \<open>ch\<close> is in the Unicode range and the first \<open>n\<close> bytes of the array are its
  encoding; so it reads back every code point, and rejects overlong forms, truncated sequences, stray
  trail bytes and code points above U+10FFFF, in spite of the wrap-around of its 32-bit accumulator.
\<close>

theorem Decode_exact:
  "Utf8_Decode arr = Some (n, ch) \<and> ch \<noteq> -1 \<longleftrightarrow>
    0 \<le> ch \<and> ch \<le> 0x10FFFF \<and> 0 \<le> n \<and> n \<le> int (length arr) \<and> Utf8_Encode ch = Some (take (nat n) arr)"
  (is "?l \<longleftrightarrow> ?r")
proof
  assume ?l
  then obtain r where r: "code_point ch" "arr = utf8_bytes ch @ r" "n = int (length (utf8 ch))"
    by (cases rule: Utf8_Decode_cases [of arr]) (auto simp: Utf8_Decode_def)
  then show ?r using Utf8_Encode_eq [OF r(1)] by (simp add: code_point_def)
next
  assume r: ?r
  then have ch: "code_point ch" by (simp add: code_point_def)
  with r have t: "take (nat n) arr = utf8_bytes ch" by (simp add: Utf8_Encode_eq)
  have "length (take (nat n) arr) = nat n" using r by (auto simp: min_def)
  then have "n = int (length (utf8 ch))" using r by (simp add: t)
  moreover have "arr = utf8_bytes ch @ drop (nat n) arr" using t by (metis append_take_drop_id)
  ultimately show ?l using Utf8_Decode_utf8_bytes [OF ch, of "drop (nat n) arr"] r by simp
qed

text \<open>
  C32: \<open>Utf8::IsValid\<close> accepts an array if and only if it is the concatenation of the encodings of a
  sequence of code points.
\<close>

theorem IsValid_exact:
  "IsValid arr \<longleftrightarrow>
    (\<exists>chs bss. list_all (\<lambda>ch. 0 \<le> ch \<and> ch \<le> 0x10FFFF) chs \<and> map Utf8_Encode chs = map Some bss \<and> arr = concat bss)"
  (is "?l \<longleftrightarrow> ?r")
proof
  assume ?l
  obtain chs bad where *: "list_all code_point chs" "arr = concat (map utf8_bytes chs) @ bad"
    "bad = [] \<or> bad \<noteq> [] \<and> Utf8_Decode bad = Some (0, -1)" by (rule utf8_prefix)
  then have "bad = []" using \<open>?l\<close> IsValid_concat IsValid_malformed by blast
  moreover have "map Utf8_Encode chs = map Some (map utf8_bytes chs)" using *(1) by (simp add: list_all_iff Utf8_Encode_eq)
  ultimately show ?r using * unfolding code_point_def by (intro exI [of _ chs] exI [of _ "map utf8_bytes chs"]) simp
next
  assume ?r
  then obtain chs bss where *: "list_all code_point chs" "map Utf8_Encode chs = map Some bss" "arr = concat bss"
    unfolding code_point_def by blast
  from *(1) have "map Utf8_Encode chs = map Some (map utf8_bytes chs)" by (simp add: list_all_iff Utf8_Encode_eq)
  with *(2) have "map Some bss = map Some (map utf8_bytes chs)" by (simp only:)
  then have "bss = map utf8_bytes chs" by (simp only: inj_map_eq_map inj_Some)
  then show ?l using *(3) IsValid_concat [OF *(1), of "[]"] by simp
qed

text \<open>
  C33: \<open>Utf8::DecodeToUTF16\<close> checks for room once per code point. When one element of the destination is
  left and the next code point is a supplementary one, it writes both code units of the surrogate pair, the
  second one behind the destination, instead of reporting the overflow.
\<close>

theorem DecodeToUTF16_overruns:
  assumes "list_all (\<lambda>ch. 0 \<le> ch \<and> ch \<le> 0x10FFFF) chs" "0xFFFF < ch" "ch \<le> 0x10FFFF"
    "length dst = length (concat (map utf16 chs)) + 1"
  shows "DecodeToUTF16 (concat (map utf8_bytes chs) @ utf8_bytes ch) dst (int (length dst)) = None"
proof -
  let ?us = "concat (map utf16 chs)"
  have ch: "code_point ch" using assms by (simp add: code_point_def)
  have "length (drop (length ?us) dst) = Suc 0" using assms(4) by simp
  then obtain x where x: "drop (length ?us) dst = [x]" unfolding length_Suc_conv by auto
  have o: "write_at (?us @ [a]) (int (length ?us) + 1) b = None" for a b by (simp add: write_at_def)
  have "decode_loop (\<lambda>_. True) put_utf16 (utf8_bytes ch @ []) (?us @ [x]) (int (length dst)) (int (length ?us)) = None"
    using assms(2,4) o Utf8_Decode_utf8_bytes [OF ch, of "[]"]
    by (subst decode_loop.simps) (simp add: put_utf16_def lead_byte_classes [OF ch] Utf16_Encode_def konst)
  then show ?thesis
    using utf16_writer.decode_loop_append [of chs dst "[]" "int (length dst)" "utf8_bytes ch"] assms(1,4) x
    by (simp add: DecodeToUTF16_def code_point_def [abs_def] list_all_iff)
qed

theorem DecodeToUTF16_overruns_witness:
  "DecodeToUTF16 [0x41, 0xF0, 0x90, 0x80, 0x80] [0, 0] 2 = None"
  using DecodeToUTF16_overruns [of "[0x41]" "0x10000" "[0, 0]"]
  by (simp add: utf8_bytes_def utf8_def utf16_def)

end
