(* ===== verification/Dart_Strings.thy ===== *)
theory Dart_Strings
  imports Dart_Unicode
begin

text \<open>
  Strings: the conversions of \<open>runtime/vm/object.cc\<close> between strings and UTF-8, UTF-16 and UTF-32
  arrays, the iterator over the code points of a string, the transformations of strings that the case
  conversions are built on, and the operations of \<open>unicode.cc\<close> and \<open>unicode.h\<close> that work on strings.

  A string is the sequence of its code units, of one or of two bytes each. The contents of newly allocated
  memory are unknown: the functions \<open>new1\<close> and \<open>new2\<close> yield them for a number of elements.
\<close>

unbundle bit_operations_syntax

datatype dart_string = OneByteString "byte list" | TwoByteString "16 word list"

fun String_Length :: "dart_string \<Rightarrow> int" where
  "String_Length (OneByteString xs) = int (length xs)"
| "String_Length (TwoByteString xs) = int (length xs)"

fun CharAt :: "dart_string \<Rightarrow> int \<Rightarrow> int option" where
  "CharAt (OneByteString xs) i = map_option uint (read_at xs i)"
| "CharAt (TwoByteString xs) i = map_option uint (read_at xs i)"

subsection \<open>Iteration\<close>

text \<open>
  A loop whose body returns the new state and whether to go on; \<open>for (i = 0; i < len; ++i)\<close> runs over
  \<open>[0..len - 1]\<close>.
\<close>

fun fold_break :: "('a \<Rightarrow> 's \<Rightarrow> ('s \<times> bool) option) \<Rightarrow> 'a list \<Rightarrow> 's \<Rightarrow> 's option" where
  "fold_break body [] s = Some s"
| "fold_break body (x # xs) s =
    (case body x s of None \<Rightarrow> None | Some (s, go_on) \<Rightarrow> if go_on then fold_break body xs s else Some s)"

record code_point_iterator =
  it_ch :: int
  it_index :: int
  it_end :: int

definition CodePointIterator :: "dart_string \<Rightarrow> code_point_iterator" where
  "CodePointIterator str = \<lparr>it_ch = 0, it_index = -1, it_end = String_Length str\<rparr>"

definition Current :: "code_point_iterator \<Rightarrow> int option" where
  "Current it = do { ASSERT (it_index it \<ge> 0); ASSERT (it_index it < it_end it); Some (it_ch it) }"

definition Next :: "dart_string \<Rightarrow> code_point_iterator \<Rightarrow> (bool \<times> code_point_iterator) option" where
  "Next str it = do {
     ASSERT (it_index it \<ge> -1);
     let len = Utf16_Length (it_ch it);
     if it_index it < it_end it - len then do {
       let index = it_index it + len;
       ch \<leftarrow> CharAt str index;
       ch \<leftarrow> (if IsLeadSurrogate ch \<and> index < it_end it - 1 then do {
                ch2 \<leftarrow> CharAt str (index + 1);
                Some (if IsTrailSurrogate ch2 then Utf16_Decode ch ch2 else ch)
              } else Some ch);
       Some (True, it\<lparr>it_index := index, it_ch := ch\<rparr>)
     } else Some (False, it\<lparr>it_index := it_end it\<rparr>)
   }"

lemma Next_advances: "Next str it = Some (True, it') \<Longrightarrow> nat (it_end it' - it_index it') < nat (it_end it - it_index it)"
  by (auto simp: Next_def Utf16_Length_def konst Let_def split: if_splits)

text \<open>The loop \<open>while (it.Next()) { ... it.Current() ... }\<close>.\<close>

function while_next :: "dart_string \<Rightarrow> (int \<Rightarrow> 's \<Rightarrow> ('s \<times> bool) option) \<Rightarrow> code_point_iterator \<Rightarrow> 's \<Rightarrow> 's option" where
  "while_next str body it s =
    (case Next str it of
       None \<Rightarrow> None
     | Some (found, it) \<Rightarrow>
         if found then
           (case Current it of
              None \<Rightarrow> None
            | Some ch \<Rightarrow>
                (case body ch s of
                   None \<Rightarrow> None
                 | Some (s, go_on) \<Rightarrow> if go_on then while_next str body it s else Some s))
         else Some s)"
  by pat_completeness auto
termination
  by (relation "measure (\<lambda>(str, body, it, s). nat (it_end it - it_index it))") (auto dest: Next_advances)

declare while_next.simps [simp del]

definition for_code_points :: "dart_string \<Rightarrow> (int \<Rightarrow> 's \<Rightarrow> ('s \<times> bool) option) \<Rightarrow> 's \<Rightarrow> 's option" where
  "for_code_points str body s = while_next str body (CodePointIterator str) s"

subsection \<open>Strings to UTF-8\<close>

definition Utf8_Length_string :: "dart_string \<Rightarrow> int option" where
  "Utf8_Length_string str =
    for_code_points str (\<lambda>ch len. do { n \<leftarrow> Utf8_Length ch; Some (len + n, True) }) 0"

fun write_all :: "'a list \<Rightarrow> int \<Rightarrow> 'a list \<Rightarrow> 'a list option" where
  "write_all dst j [] = Some dst"
| "write_all dst j (x # xs) = do { dst \<leftarrow> write_at dst j x; write_all dst (j + 1) xs }"

definition encode_step :: "int \<Rightarrow> int \<Rightarrow> byte list \<times> int \<Rightarrow> ((byte list \<times> int) \<times> bool) option" where
  "encode_step len ch s = do {
     let (dst, pos) = s;
     num_bytes \<leftarrow> Utf8_Length ch;
     if pos + num_bytes > len then Some ((dst, pos), False)
     else do {
       bytes \<leftarrow> Utf8_Encode ch;
       dst \<leftarrow> write_all dst pos bytes;
       Some ((dst, pos + num_bytes), True)
     }
   }"

definition Utf8_Encode_string :: "dart_string \<Rightarrow> byte list \<Rightarrow> int \<Rightarrow> (byte list \<times> int) option" where
  "Utf8_Encode_string src dst len = for_code_points src (encode_step len) (dst, 0)"

definition ToUTF8 :: "dart_string \<Rightarrow> byte list \<Rightarrow> int \<Rightarrow> byte list option" where
  "ToUTF8 str utf8_array array_len = do {
     n \<leftarrow> Utf8_Length_string str;
     ASSERT (array_len \<ge> n);
     (dst, pos) \<leftarrow> Utf8_Encode_string str utf8_array array_len;
     Some dst
   }"

text \<open>
  \<open>ToCString\<close> copies a one-byte string of ASCII characters directly: the loop ends with \<open>len = -1\<close> at the
  first other character. The result is the contents of the allocated array.
\<close>

fun ascii_loop :: "byte list \<Rightarrow> byte list \<Rightarrow> int \<Rightarrow> (byte list \<times> bool) option" where
  "ascii_loop [] result i = Some (result, True)"
| "ascii_loop (c # original) result i =
    (if uint c \<le> kMaxOneByteChar then do { result \<leftarrow> write_at result i c; ascii_loop original result (i + 1) }
     else Some (result, False))"

definition ToCString_utf8 :: "(int \<Rightarrow> byte list) \<Rightarrow> dart_string \<Rightarrow> byte list option" where
  "ToCString_utf8 new1 str = do {
     len \<leftarrow> Utf8_Length_string str;
     result \<leftarrow> ToUTF8 str (new1 (len + 1)) len;
     write_at result len 0
   }"

definition ToCString :: "(int \<Rightarrow> byte list) \<Rightarrow> dart_string \<Rightarrow> byte list option" where
  "ToCString new1 str =
    (case str of
       OneByteString original \<Rightarrow>
         if original = [] then Some [0]
         else do {
           let len = String_Length str;
           (result, ascii) \<leftarrow> ascii_loop original (new1 (len + 1)) 0;
           if ascii then write_at result len 0 else ToCString_utf8 new1 str
         }
     | TwoByteString _ \<Rightarrow> ToCString_utf8 new1 str)"

subsection \<open>Strings from arrays\<close>

definition FromUTF8 :: "(int \<Rightarrow> byte list) \<Rightarrow> (int \<Rightarrow> 16 word list) \<Rightarrow> byte list \<Rightarrow> dart_string option" where
  "FromUTF8 new1 new2 utf8_array =
    (let (len, char_type) = CodeUnitCount utf8_array in
     if char_type = kLatin1 then
       if len > 0 then do { (ok, dst) \<leftarrow> DecodeToLatin1 utf8_array (new1 len) len; Some (OneByteString dst) }
       else Some (OneByteString (new1 len))
     else do { (ok, dst) \<leftarrow> DecodeToUTF16 utf8_array (new2 len) len; Some (TwoByteString dst) })"

definition FromLatin1 :: "byte list \<Rightarrow> dart_string" where
  "FromLatin1 latin1_array = OneByteString latin1_array"

text \<open>\<open>OneByteString::New\<close> of wider characters, which are passed as numbers.\<close>

definition one_byte_step :: "int list \<Rightarrow> int \<Rightarrow> byte list \<Rightarrow> (byte list \<times> bool) option" where
  "one_byte_step characters i result = do {
     c \<leftarrow> read_at characters i;
     ASSERT (IsLatin1 c);
     result \<leftarrow> write_at result i (word_of_int c);
     Some (result, True)
   }"

definition OneByteString_New :: "(int \<Rightarrow> byte list) \<Rightarrow> int list \<Rightarrow> dart_string option" where
  "OneByteString_New new1 characters = do {
     let len = int (length characters);
     result \<leftarrow> fold_break (one_byte_step characters) [0..len - 1] (new1 len);
     Some (OneByteString result)
   }"

definition two_byte_step :: "int \<Rightarrow> int list \<Rightarrow> int \<Rightarrow> 16 word list \<times> int \<Rightarrow> ((16 word list \<times> int) \<times> bool) option" where
  "two_byte_step utf16_len utf32_array i s = do {
     let (result, j) = s;
     c \<leftarrow> read_at utf32_array i;
     if IsSupplementary c then do {
       ASSERT (j < utf16_len - 1);
       result \<leftarrow> Utf16_Encode c result j;
       Some ((result, j + 2), True)
     } else do {
       ASSERT (j < utf16_len);
       result \<leftarrow> write_at result j (word_of_int c);
       Some ((result, j + 1), True)
     }
   }"

definition TwoByteString_New :: "(int \<Rightarrow> 16 word list) \<Rightarrow> int \<Rightarrow> int list \<Rightarrow> dart_string option" where
  "TwoByteString_New new2 utf16_len utf32_array = do {
     let array_len = int (length utf32_array);
     ASSERT (array_len > 0 \<and> utf16_len \<ge> array_len);
     (result, j) \<leftarrow> fold_break (two_byte_step utf16_len utf32_array) [0..array_len - 1] (new2 utf16_len, 0);
     Some (TwoByteString result)
   }"

definition FromUTF16 :: "(int \<Rightarrow> byte list) \<Rightarrow> 16 word list \<Rightarrow> dart_string option" where
  "FromUTF16 new1 utf16_array =
    (if list_all (\<lambda>c. IsLatin1 (uint c)) utf16_array then OneByteString_New new1 (map uint utf16_array)
     else do { ASSERT (length utf16_array > 0); Some (TwoByteString utf16_array) })"

fun utf32_loop :: "int list \<Rightarrow> bool \<Rightarrow> int \<Rightarrow> bool \<times> int" where
  "utf32_loop [] is_one_byte_string utf16_len = (is_one_byte_string, utf16_len)"
| "utf32_loop (c # rest) is_one_byte_string utf16_len =
    (if \<not> IsLatin1 c then utf32_loop rest False (if IsSupplementary c then utf16_len + 1 else utf16_len)
     else utf32_loop rest is_one_byte_string utf16_len)"

definition FromUTF32 :: "(int \<Rightarrow> byte list) \<Rightarrow> (int \<Rightarrow> 16 word list) \<Rightarrow> int list \<Rightarrow> dart_string option" where
  "FromUTF32 new1 new2 utf32_array =
    (let (is_one_byte_string, utf16_len) = utf32_loop utf32_array True (int (length utf32_array)) in
     if is_one_byte_string then OneByteString_New new1 utf32_array
     else TwoByteString_New new2 utf16_len utf32_array)"

subsection \<open>Transformations\<close>

text \<open>A mapping of code points may fail, which is \<open>None\<close>.\<close>

definition OneByteString_Transform :: "(int \<Rightarrow> byte list) \<Rightarrow> (int \<Rightarrow> int option) \<Rightarrow> dart_string \<Rightarrow> dart_string option" where
  "OneByteString_Transform new1 mapping str = do {
     let len = String_Length str;
     result \<leftarrow> fold_break (\<lambda>i result. do {
         c \<leftarrow> CharAt str i;
         ch \<leftarrow> mapping c;
         ASSERT (IsLatin1 ch);
         result \<leftarrow> write_at result i (word_of_int ch);
         Some (result, True)
       }) [0..len - 1] (new1 len);
     Some (OneByteString result)
   }"

definition transform_step :: "(int \<Rightarrow> int option) \<Rightarrow> int \<Rightarrow> 16 word list \<times> int \<Rightarrow> ((16 word list \<times> int) \<times> bool) option" where
  "transform_step mapping src s = do {
     let (result, i) = s;
     dst \<leftarrow> mapping src;
     ASSERT (dst \<ge> 0 \<and> dst \<le> 0x10FFFF);
     let len = Utf16_Length dst;
     result \<leftarrow> (if len = 1 then write_at result i (word_of_int dst)
                else do { ASSERT (len = 2); Utf16_Encode dst result i });
     Some ((result, i + len), True)
   }"

definition TwoByteString_Transform :: "(int \<Rightarrow> 16 word list) \<Rightarrow> (int \<Rightarrow> int option) \<Rightarrow> dart_string \<Rightarrow> dart_string option" where
  "TwoByteString_Transform new2 mapping str = do {
     (result, i) \<leftarrow> for_code_points str (transform_step mapping) (new2 (String_Length str), 0);
     Some (TwoByteString result)
   }"

definition scan_step :: "(int \<Rightarrow> int option) \<Rightarrow> int \<Rightarrow> bool \<times> int \<Rightarrow> ((bool \<times> int) \<times> bool) option" where
  "scan_step mapping src s = do {
     let (has_mapping, dst_max) = s;
     dst \<leftarrow> mapping src;
     Some ((has_mapping \<or> src \<noteq> dst, max dst_max dst), True)
   }"

definition Transform :: "(int \<Rightarrow> byte list) \<Rightarrow> (int \<Rightarrow> 16 word list) \<Rightarrow> (int \<Rightarrow> int option) \<Rightarrow> dart_string \<Rightarrow> dart_string option" where
  "Transform new1 new2 mapping str = do {
     (has_mapping, dst_max) \<leftarrow> for_code_points str (scan_step mapping) (False, 0);
     if \<not> has_mapping then Some str
     else if IsLatin1 dst_max then OneByteString_Transform new1 mapping str
     else do {
       ASSERT (IsBmp dst_max \<or> IsSupplementary dst_max);
       TwoByteString_Transform new2 mapping str
     }
   }"

subsection \<open>Code points of a string\<close>

fun string_units :: "dart_string \<Rightarrow> 16 word list" where
  "string_units (OneByteString xs) = map ucast xs"
| "string_units (TwoByteString xs) = xs"

fun code_points :: "16 word list \<Rightarrow> int list" where
  "code_points [] = []"
| "code_points [a] = [uint a]"
| "code_points (a # b # us) =
    (if IsLeadSurrogate (uint a) \<and> IsTrailSurrogate (uint b) then Utf16_Decode (uint a) (uint b) # code_points us
     else uint a # code_points (b # us))"

lemma unit_range: "0 \<le> uint (u :: 16 word)" "uint (u :: 16 word) < 65536" "uint (u :: 16 word) \<le> 0xFFFF"
  using uint_lt2p [of u] by simp_all

lemma surrogate_value:
  "uint ((word_of_int (uint (u :: 16 word)) :: 32 word) AND 0xFFFFFC00) = 1024 * (uint u div 1024)"
proof -
  have "uint ((word_of_int (uint u) :: 32 word) AND 0xFFFFFC00) = uint (word_of_int (uint u) :: 32 word) AND 0xFFFFFC00"
    by (subst unsigned_and_eq) simp
  also have "\<dots> = uint u AND push_bit 10 (mask 22)"
    using unit_range [of u] by (subst uint_word32) (simp_all add: mask_eq_exp_minus_1 push_bit_eq_mult)
  also have "\<dots> = 1024 * (uint u div 1024)"
  proof -
    have "0 \<le> uint u div 1024" "uint u div 1024 < 64" using unit_range [of u] by (auto simp: pos_imp_zdiv_nonneg_iff)
    then have "take_bit 22 (uint u div 1024) = uint u div 1024" by (intro take_bit_int_eq_self) simp_all
    then show ?thesis unfolding and_push_mask unfolding push_bit_eq_mult drop_bit_eq_div by simp
  qed
  finally show ?thesis .
qed

lemma split_1024: "v = 1024 * q + r \<Longrightarrow> 0 \<le> r \<Longrightarrow> r < 1024 \<Longrightarrow> v div 1024 = q \<and> v mod 1024 = (r::int)"
  by simp

lemma div_1024_iff: "x div 1024 = q \<longleftrightarrow> 1024 * q \<le> x \<and> x < 1024 * q + (1024::int)"
  using div_mult_mod_eq [of x 1024] pos_mod_bound [of 1024 x] pos_mod_sign [of 1024 x] by (auto; linarith)

lemma surrogate_iff:
  "IsLeadSurrogate (uint (u :: 16 word)) \<longleftrightarrow> 0xD800 \<le> uint u \<and> uint u < 0xDC00"
  "IsTrailSurrogate (uint u) \<longleftrightarrow> 0xDC00 \<le> uint u \<and> uint u < 0xE000"
  unfolding IsLeadSurrogate_def IsTrailSurrogate_def word_uint_eq_iff surrogate_value
  using div_1024_iff [of "uint u" 54] div_1024_iff [of "uint u" 55] by simp_all

lemma Utf16_Decode_pair:
  assumes "IsLeadSurrogate (uint (a :: 16 word))" "IsTrailSurrogate (uint b)"
  shows "code_point (Utf16_Decode (uint a) (uint b))" "0xFFFF < Utf16_Decode (uint a) (uint b)"
    "utf16 (Utf16_Decode (uint a) (uint (b :: 16 word))) = [a, b]"
proof -
  have ab: "0xD800 \<le> uint a" "uint a < 0xDC00" "0xDC00 \<le> uint b" "uint b < 0xE000" using assms unfolding surrogate_iff by simp_all
  then have m: "uint a mod 1024 = uint a - 0xD800" "uint b mod 1024 = uint b - 0xDC00"
    using split_1024 [of "uint a" 54 "uint a - 0xD800"] split_1024 [of "uint b" 55 "uint b - 0xDC00"] by simp_all
  have *: "Utf16_Decode (uint a) (uint b) = 1024 * (uint a - 0xD7C0) + (uint b - 0xDC00)"
    unfolding Utf16_Decode_def and_3FF m push_bit_eq_mult by simp
  show r: "code_point (Utf16_Decode (uint a) (uint b))" "0xFFFF < Utf16_Decode (uint a) (uint b)"
    using ab unfolding * code_point_def by auto
  have "Utf16_Decode (uint a) (uint b) div 1024 = uint a - 0xD7C0" "Utf16_Decode (uint a) (uint b) mod 1024 = uint b - 0xDC00"
    using split_1024 [OF *] ab by simp_all
  then show "utf16 (Utf16_Decode (uint a) (uint b)) = [a, b]" using r(2) unfolding utf16_def by simp
qed

lemma code_points_range: "list_all code_point (code_points us)"
proof (induction us rule: code_points.induct)
  case (2 a)
  then show ?case using unit_range [of a] by (simp add: code_point_def)
next
  case (3 a b us)
  then show ?case using unit_range [of a] Utf16_Decode_pair [of a b] by (simp add: code_point_def)
qed simp

lemma utf16_unit: "utf16 (uint u) = [u]"
  using unit_range [of u] by (simp add: utf16_def)

lemma utf16_code_points: "concat (map utf16 (code_points us)) = us"
  by (induction us rule: code_points.induct) (simp_all add: utf16_unit Utf16_Decode_pair)

lemma uint_ucast_unit: "uint (ucast (c::byte) :: 16 word) = uint c"
  using byte_range [of c] by (simp add: unsigned_ucast_eq take_bit_int_eq_self)

lemma CharAt_units: "CharAt str i = map_option uint (read_at (string_units str) i)"
  by (cases str) (auto simp: read_at_def uint_ucast_unit)

lemma Length_units: "String_Length str = int (length (string_units str))"
  by (cases str) simp_all

text \<open>The iterator visits the code points of the string in order.\<close>

definition unit_ch :: "16 word list \<Rightarrow> nat \<Rightarrow> int" where
  "unit_ch us p =
    (if IsLeadSurrogate (uint (us ! p)) \<and> p + 1 < length us \<and> IsTrailSurrogate (uint (us ! (p + 1)))
     then Utf16_Decode (uint (us ! p)) (uint (us ! (p + 1))) else uint (us ! p))"

lemma code_points_step:
  assumes "p < length us"
  obtains q where "code_points (drop p us) = unit_ch us p # code_points (drop q us)" "q \<le> length us" "p < q"
    "int q = int p + Utf16_Length (unit_ch us p)"
proof (cases "p + 1 < length us")
  case True
  then have d: "drop p us = us ! p # us ! (p + 1) # drop (p + 2) us"
    by (metis Cons_nth_drop_Suc Suc_eq_plus1 add_2_eq_Suc' assms)
  show thesis
  proof (cases "IsLeadSurrogate (uint (us ! p)) \<and> IsTrailSurrogate (uint (us ! (p + 1)))")
    case pair: True
    then have "0xFFFF < unit_ch us p" using Utf16_Decode_pair [of "us ! p" "us ! (p + 1)"] True by (simp add: unit_ch_def)
    then show thesis using pair True d by (intro that [of "p + 2"]) (auto simp: unit_ch_def Utf16_Length_def konst)
  next
    case False
    then have u: "unit_ch us p = uint (us ! p)" by (auto simp: unit_ch_def)
    have "drop (p + 1) us = us ! (p + 1) # drop (p + 2) us" using d True by (metis Cons_nth_drop_Suc Suc_eq_plus1 add_2_eq_Suc')
    then show thesis using False u d True unit_range [of "us ! p"]
      by (intro that [of "p + 1"]) (auto simp: Utf16_Length_def konst)
  qed
next
  case False
  then have "drop p us = [us ! p]" "unit_ch us p = uint (us ! p)" using assms
    by (simp_all add: Cons_nth_drop_Suc [symmetric] unit_ch_def)
  then show thesis using unit_range [of "us ! p"] False assms
    by (intro that [of "p + 1"]) (simp_all add: Utf16_Length_def konst)
qed

lemma Next_step:
  assumes "it_index it + Utf16_Length (it_ch it) = int p" "-1 \<le> it_index it" "it_end it = int (length us)" "us = string_units str"
  shows "p < length us \<Longrightarrow> Next str it = Some (True, it\<lparr>it_index := int p, it_ch := unit_ch us p\<rparr>)"
    "p = length us \<Longrightarrow> Next str it = Some (False, it\<lparr>it_index := it_end it\<rparr>)"
proof -
  assume p: "p < length us"
  have *: "it_index it < it_end it - Utf16_Length (it_ch it)" using assms(1,3) p by linarith
  have "p + 1 < length us \<Longrightarrow> read_at us (int p + 1) = Some (us ! (p + 1))"
    using read_at_int [of "p + 1" us] by (simp add: add.commute)
  then show "Next str it = Some (True, it\<lparr>it_index := int p, it_ch := unit_ch us p\<rparr>)"
    using assms(2,3) p * by (auto simp: Next_def CharAt_units assms(1) assms(4) [symmetric] unit_ch_def Let_def)
qed (use assms in \<open>simp add: Next_def\<close>)

lemma while_next_from:
  assumes "it_index it + Utf16_Length (it_ch it) = int p" "-1 \<le> it_index it" "it_end it = int (length us)" "us = string_units str"
    "p \<le> length us"
  shows "while_next str body it s = fold_break body (code_points (drop p us)) s"
  using assms
proof (induction "length us - p" arbitrary: p it s rule: less_induct)
  case less
  show ?case
  proof (cases "p < length us")
    case True
    then obtain q where q: "code_points (drop p us) = unit_ch us p # code_points (drop q us)" "q \<le> length us" "p < q"
      "int q = int p + Utf16_Length (unit_ch us p)" by (rule code_points_step)
    let ?it = "it\<lparr>it_index := int p, it_ch := unit_ch us p\<rparr>"
    have n: "Next str it = Some (True, ?it)" using Next_step(1) [OF less.prems(1-4)] True by blast
    have "while_next str body ?it s = fold_break body (code_points (drop q us)) s" for s
      using True q less.prems by (intro less.hyps) auto
    then show ?thesis unfolding q(1) while_next.simps [of str body it] n
      using True less.prems(3) by (auto simp: Current_def split: option.splits)
  next
    case False
    then have "p = length us" using less.prems(5) by simp
    then show ?thesis using Next_step(2) [OF less.prems(1-4)] by (simp add: while_next.simps [of str body it])
  qed
qed

lemma for_code_points_eq: "for_code_points str body s = fold_break body (code_points (string_units str)) s"
  unfolding for_code_points_def
  by (subst while_next_from [of _ 0 "string_units str"]) (simp_all add: CodePointIterator_def Utf16_Length_def konst Length_units)

subsection \<open>Strings to UTF-8\<close>

abbreviation string_utf8 :: "dart_string \<Rightarrow> byte list" where
  "string_utf8 str \<equiv> concat (map utf8_bytes (code_points (string_units str)))"

lemma length_fold:
  "list_all code_point chs \<Longrightarrow> fold_break (\<lambda>ch len. do { n \<leftarrow> Utf8_Length ch; Some (len + n, True) }) chs len =
    Some (len + int (length (concat (map utf8_bytes chs))))"
  by (induction chs arbitrary: len) (simp_all add: Utf8_Length_eq)

lemma Utf8_Length_string_eq: "Utf8_Length_string str = Some (int (length (string_utf8 str)))"
  by (simp add: Utf8_Length_string_def for_code_points_eq length_fold [OF code_points_range])

lemma write_all_append:
  "length xs \<le> length post \<Longrightarrow> write_all (pre @ post) (int (length pre)) xs = Some (pre @ xs @ drop (length xs) post)"
proof (induction xs arbitrary: pre post)
  case (Cons x xs)
  then obtain y ys where post: "post = y # ys" by (cases post) auto
  have "int (length pre) + 1 = int (length (pre @ [x]))" by simp
  moreover have "write_all ((pre @ [x]) @ ys) (int (length (pre @ [x]))) xs = Some ((pre @ [x]) @ xs @ drop (length xs) ys)"
    using Cons.prems by (intro Cons.IH) (simp add: post)
  ultimately show ?case by (simp add: post add.commute)
qed simp

text \<open>
  A loop whose body appends the units of an element to what has been written, in an array of which the
  first \<open>m\<close> elements may be written.
\<close>

lemma fold_break_units:
  assumes "\<And>x pre post. x \<in> set xs \<Longrightarrow> length (pre @ post) = n \<Longrightarrow> length pre + length (units x) \<le> m \<Longrightarrow>
      body x (pre @ post, int (length pre)) =
        Some ((pre @ units x @ drop (length (units x)) post, int (length pre + length (units x))), True)"
    "length (pre @ post) = n" "length pre + length (concat (map units xs)) \<le> m" "m \<le> n"
  shows "fold_break body xs (pre @ post, int (length pre)) =
    Some (pre @ concat (map units xs) @ drop (length (concat (map units xs))) post,
      int (length pre + length (concat (map units xs))))"
  using assms
proof (induction xs arbitrary: pre post)
  case (Cons x xs)
  let ?u = "units x"
  have "body x (pre @ post, int (length pre)) = Some (((pre @ ?u) @ drop (length ?u) post, int (length (pre @ ?u))), True)"
    using Cons.prems(1) [of x pre post] Cons.prems(2,3) by simp
  moreover have "fold_break body xs ((pre @ ?u) @ drop (length ?u) post, int (length (pre @ ?u))) =
      Some ((pre @ ?u) @ concat (map units xs) @ drop (length (concat (map units xs))) (drop (length ?u) post),
        int (length (pre @ ?u) + length (concat (map units xs))))"
    by (rule Cons.IH) (use Cons.prems in auto)
  ultimately show ?case by (simp add: ac_simps)
qed simp

lemma Utf8_Encode_string_eq:
  assumes "int (length (string_utf8 str)) \<le> len" "len \<le> int (length dst)"
  shows "Utf8_Encode_string str dst len =
    Some (string_utf8 str @ drop (length (string_utf8 str)) dst, int (length (string_utf8 str)))"
proof -
  let ?chs = "code_points (string_units str)"
  have step: "encode_step len ch (pre @ post, int (length pre)) =
      Some ((pre @ utf8_bytes ch @ drop (length (utf8_bytes ch)) post, int (length pre + length (utf8_bytes ch))), True)"
    if "ch \<in> set ?chs" "length (pre @ post) = length dst" "length pre + length (utf8_bytes ch) \<le> nat len" for ch pre post
  proof -
    have ch: "code_point ch" using code_points_range [of "string_units str"] that(1) by (simp add: list_all_iff)
    have "length (utf8_bytes ch) \<le> length post" "int (length pre) + int (length (utf8_bytes ch)) \<le> len"
      using that(2,3) assms unfolding length_append by linarith+
    then show ?thesis using write_all_append [of "utf8_bytes ch" post pre]
      by (simp add: encode_step_def Utf8_Length_eq [OF ch] Utf8_Encode_eq [OF ch])
  qed
  show ?thesis
    using fold_break_units [of ?chs "length dst" utf8_bytes "nat len" "encode_step len" "[]" dst, OF step] assms
    by (simp add: Utf8_Encode_string_def for_code_points_eq)
qed

lemma ToUTF8_eq:
  assumes "int (length (string_utf8 str)) \<le> len" "len \<le> int (length dst)"
  shows "ToUTF8 str dst len = Some (string_utf8 str @ drop (length (string_utf8 str)) dst)"
  using assms by (simp add: ToUTF8_def Utf8_Length_string_eq Utf8_Encode_string_eq)

subsection \<open>UTF-8 to strings\<close>

definition allocates :: "(int \<Rightarrow> 'a list) \<Rightarrow> bool" where
  "allocates new \<longleftrightarrow> (\<forall>n. length (new (int n)) = n)"

lemma length_allocated: "allocates new \<Longrightarrow> 0 \<le> n \<Longrightarrow> length (new n) = nat n"
  using nat_0_le unfolding allocates_def by metis

fun is_one_byte :: "dart_string \<Rightarrow> bool" where
  "is_one_byte (OneByteString xs) = True"
| "is_one_byte (TwoByteString xs) = False"

lemma latin1_units: "list_all code_point chs \<Longrightarrow> list_all (\<lambda>ch. ch \<le> 0xFF) chs \<Longrightarrow>
    map ucast (concat (map latin1 chs)) = concat (map utf16 chs)"
proof (induction chs)
  case (Cons ch chs)
  then have "uint (word_of_int ch :: byte) = ch" by (intro uint_utf8_byte) (simp_all add: code_point_def)
  then have "(ucast (word_of_int ch :: byte) :: 16 word) = word_of_int ch" by (metis of_int_uint)
  with Cons show ?case by (simp add: latin1_def utf16_def)
qed simp

lemma length_latin1: "length (concat (map latin1 chs)) = length chs"
  by (induction chs) (simp_all add: latin1_def)

lemma drop_all_but_one:
  assumes "length xs = n + 1"
  obtains y where "drop n xs = [y]"
proof -
  have "length (drop n xs) = Suc 0" using assms by simp
  then show thesis using that unfolding length_Suc_conv by auto
qed

lemma FromUTF8_prefix:
  assumes "allocates new1" "allocates new2" "list_all code_point chs" "bad = [] \<or> bad \<noteq> [] \<and> Utf8_Decode bad = Some (0, -1)"
  obtains s rest where "FromUTF8 new1 new2 (concat (map utf8_bytes chs) @ bad) = Some s"
    "string_units s = concat (map utf16 chs) @ rest" "bad = [] \<Longrightarrow> rest = []"
    "bad = [] \<Longrightarrow> is_one_byte s \<longleftrightarrow> list_all (\<lambda>ch. ch \<le> 0xFF) chs"
proof -
  let ?arr = "concat (map utf8_bytes chs) @ bad" and ?us = "concat (map utf16 chs)"
  obtain len t where c: "CodeUnitCount ?arr = (len, t)" by fastforce
  then have c': "count_loop bad (int (length ?us)) (fold (\<lambda>ch t. type_with t ch) chs kLatin1) = (len, t)"
    by (simp add: CodeUnitCount_def count_loop_concat [OF assms(3)])
  have len: "int (length ?us) \<le> len" using count_loop_mono [of "int (length ?us)" bad] c' by (metis fst_conv)
  have exact: "len = int (length ?us)" "t = kLatin1 \<longleftrightarrow> list_all (\<lambda>ch. ch \<le> 0xFF) chs" if "bad = []"
    using c' that by (auto simp: fold_type_with)
  show thesis
  proof (cases "t = kLatin1")
    case True
    then have l: "list_all (\<lambda>ch. ch \<le> 0xFF) chs" "bad \<noteq> [] \<Longrightarrow> IsLatin1SequenceStart (hd bad)"
      using count_loop_latin1 [of bad "int (length ?us)" "fold (\<lambda>ch t. type_with t ch) chs kLatin1"] c'
      by (auto simp: fold_type_with)
    have u: "map ucast (concat (map latin1 chs)) = ?us" using latin1_units assms(3) l(1) .
    then have n: "length (concat (map latin1 chs)) = length ?us" by (metis length_map)
    have z: "concat (map latin1 chs) = []" if "\<not> 0 < len"
    proof -
      have "length ?us = 0" using that len by linarith
      then show ?thesis using n by (metis length_0_conv)
    qed
    have "DecodeToLatin1 ?arr (new1 len) len =
        Some (bad = [], concat (map latin1 chs) @ drop (length (concat (map latin1 chs))) (new1 len))"
      unfolding DecodeToLatin1_def
      using assms(3,4) l len length_allocated [OF assms(1), of len] n by (intro latin1_writer.decode_loop_prefix) auto
    then have "FromUTF8 new1 new2 ?arr = Some (OneByteString (concat (map latin1 chs) @ drop (length ?us) (new1 len)))"
      using True len z length_allocated [OF assms(1), of len] unfolding FromUTF8_def c n by (cases "0 < len") auto
    then show thesis using u True exact length_allocated [OF assms(1), of len] len
      by (intro that [of _ "map ucast (drop (length ?us) (new1 len))"]) auto
  next
    case False
    have "DecodeToUTF16 ?arr (new2 len) len = Some (bad = [], ?us @ drop (length ?us) (new2 len))"
      unfolding DecodeToUTF16_def
      using assms(3,4) len length_allocated [OF assms(2), of len]
      by (intro utf16_writer.decode_loop_prefix) (auto simp: list_all_iff)
    then have "FromUTF8 new1 new2 ?arr = Some (TwoByteString (?us @ drop (length ?us) (new2 len)))"
      using False unfolding FromUTF8_def c by auto
    then show thesis using False exact length_allocated [OF assms(2), of len] len
      by (intro that [of _ "drop (length ?us) (new2 len)"]) auto
  qed
qed

subsection \<open>C strings\<close>

lemma code_points_no_lead: "list_all (\<lambda>u. \<not> IsLeadSurrogate (uint u)) us \<Longrightarrow> code_points us = map uint us"
  by (induction us rule: code_points.induct) simp_all

lemma code_points_one_byte: "code_points (string_units (OneByteString xs)) = map uint xs"
proof -
  have "\<not> 0xD800 \<le> uint c" for c :: byte using byte_range(2) [of c] by linarith
  then have "list_all (\<lambda>u. \<not> IsLeadSurrogate (uint u)) (string_units (OneByteString xs))"
    by (simp add: list_all_iff surrogate_iff uint_ucast_unit)
  then show ?thesis by (simp add: code_points_no_lead uint_ucast_unit)
qed

lemma utf8_bytes_ascii: "uint c \<le> 0x7F \<Longrightarrow> utf8_bytes (uint c) = [c]"
  by (simp add: utf8_bytes_def utf8_def)

lemma ascii_loop_eq:
  "length xs \<le> length post \<Longrightarrow> ascii_loop xs (pre @ post) (int (length pre)) =
    Some (pre @ takeWhile (\<lambda>c. uint c \<le> 0x7F) xs @ drop (length (takeWhile (\<lambda>c. uint c \<le> 0x7F) xs)) post,
      list_all (\<lambda>c. uint c \<le> 0x7F) xs)"
proof (induction xs arbitrary: pre post)
  case (Cons x xs)
  then obtain y ys where post: "post = y # ys" by (cases post) auto
  have "int (length pre) + 1 = int (length (pre @ [x]))" by simp
  then show ?case using Cons.IH [of ys "pre @ [x]"] Cons.prems by (simp add: post konst add.commute)
qed simp

lemma ToCString_utf8_eq: "allocates new1 \<Longrightarrow> ToCString_utf8 new1 str = Some (string_utf8 str @ [0])"
proof -
  assume new1: "allocates new1"
  let ?n = "length (string_utf8 str)"
  have l: "length (new1 (int ?n + 1)) = ?n + 1" using length_allocated [OF new1, of "int ?n + 1"] by simp
  then obtain y where y: "drop ?n (new1 (int ?n + 1)) = [y]" by (rule drop_all_but_one)
  have "ToUTF8 str (new1 (int ?n + 1)) (int ?n) = Some (string_utf8 str @ [y])"
    using ToUTF8_eq [of str "int ?n" "new1 (int ?n + 1)"] l y by simp
  then show ?thesis using write_at_append [of "string_utf8 str" y "[]" 0]
    by (simp add: ToCString_utf8_def Utf8_Length_string_eq)
qed

lemma ToCString_eq: "allocates new1 \<Longrightarrow> ToCString new1 str = Some (string_utf8 str @ [0])"
proof (cases str)
  case (OneByteString xs)
  assume new1: "allocates new1"
  show ?thesis
  proof (cases "xs = [] \<or> \<not> list_all (\<lambda>c. uint c \<le> 0x7F) xs")
    case True
    have l: "length (new1 (int (length xs) + 1)) = length xs + 1" using length_allocated [OF new1, of "int (length xs) + 1"] by simp
    then show ?thesis using True ascii_loop_eq [of xs "new1 (int (length xs) + 1)" "[]"] ToCString_utf8_eq [OF new1, of str]
      by (auto simp: ToCString_def OneByteString)
  next
    case False
    then have ascii: "list_all (\<lambda>c. uint c \<le> 0x7F) xs" "xs \<noteq> []" by auto
    then have tw: "takeWhile (\<lambda>c. uint c \<le> 0x7F) xs = xs" by (simp add: list_all_iff takeWhile_eq_all_conv)
    have u: "string_utf8 str = xs" using ascii(1) unfolding OneByteString code_points_one_byte
      by (induction xs) (simp_all add: utf8_bytes_ascii)
    have l: "length (new1 (int (length xs) + 1)) = length xs + 1" using length_allocated [OF new1, of "int (length xs) + 1"] by simp
    then obtain y where y: "drop (length xs) (new1 (int (length xs) + 1)) = [y]" by (rule drop_all_but_one)
    have "ascii_loop xs (new1 (int (length xs) + 1)) 0 = Some (xs @ [y], True)"
      using ascii_loop_eq [of xs "new1 (int (length xs) + 1)" "[]"] l y ascii tw by simp
    then show ?thesis using ascii(2) write_at_append [of xs y "[]" 0] u by (simp add: ToCString_def OneByteString)
  qed
qed (simp add: ToCString_def ToCString_utf8_eq)

subsection \<open>Strings from UTF-16 and UTF-32\<close>

text \<open>A loop that fills an array from left to right.\<close>

lemma fold_break_fill:
  assumes "\<And>i pre y post. 0 \<le> i \<Longrightarrow> i < len \<Longrightarrow> int (length pre) = i \<Longrightarrow> int (length (pre @ y # post)) = len \<Longrightarrow>
      body i (pre @ y # post) = Some (pre @ f i # post, True)"
    "int (length pre) = i" "int (length (pre @ post)) = len"
  shows "fold_break body [i..len - 1] (pre @ post) = Some (pre @ map f [i..len - 1])"
  using assms(2,3)
proof (induction post arbitrary: pre i)
  case (Cons y post)
  then have "[i..len - 1] = i # [i + 1..len - 1]" by (simp add: upto_rec1)
  moreover have "body i (pre @ y # post) = Some ((pre @ [f i]) @ post, True)" using Cons.prems assms(1) [of i pre y post] by simp
  moreover have "fold_break body [i + 1..len - 1] ((pre @ [f i]) @ post) = Some ((pre @ [f i]) @ map f [i + 1..len - 1])"
    using Cons.prems by (intro Cons.IH) simp_all
  ultimately show ?case by simp
qed simp

lemma fold_break_fill_new:
  assumes "\<And>i pre y post. 0 \<le> i \<Longrightarrow> i < int n \<Longrightarrow> int (length pre) = i \<Longrightarrow> int (length (pre @ y # post)) = int n \<Longrightarrow>
      body i (pre @ y # post) = Some (pre @ f i # post, True)" "allocates new"
  shows "fold_break body [0..int n - 1] (new (int n)) = Some (map f [0..int n - 1])"
  using fold_break_fill [of "int n" body f "[]" 0 "new (int n)", OF assms(1)] length_allocated [OF assms(2), of "int n"] by simp

lemma map_nth_upto: "map (\<lambda>i. g (xs ! nat i)) [0..int (length xs) - 1] = map g xs"
  by (rule nth_equalityI) (simp_all add: nth_upto)

lemma OneByteString_New_eq:
  assumes "allocates new1" "list_all IsLatin1 cs"
  shows "OneByteString_New new1 cs = Some (OneByteString (map word_of_int cs))"
proof -
  have "fold_break (one_byte_step cs) [0..int (length cs) - 1] (new1 (int (length cs))) =
      Some (map (\<lambda>i. word_of_int (cs ! nat i)) [0..int (length cs) - 1])"
  proof (rule fold_break_fill_new)
    fix i and pre :: "byte list" and y post
    assume "0 \<le> i" "i < int (length cs)" and i: "int (length pre) = i"
    then have "length pre < length cs" "IsLatin1 (cs ! length pre)" using assms(2) by (simp_all add: list_all_iff)
    then show "one_byte_step cs i (pre @ y # post) = Some (pre @ word_of_int (cs ! nat i) # post, True)"
      by (simp add: one_byte_step_def i [symmetric])
  qed (rule assms(1))
  then show ?thesis unfolding OneByteString_New_def map_nth_upto by simp
qed

lemma latin1_string_units: "list_all IsLatin1 cs \<Longrightarrow> string_units (OneByteString (map word_of_int cs)) = concat (map utf16 cs)"
proof -
  assume "list_all IsLatin1 cs"
  then have "list_all code_point cs" "list_all (\<lambda>ch. ch \<le> 0xFF) cs" by (auto simp: list_all_iff IsLatin1_def code_point_def)
  from latin1_units [OF this] show ?thesis by (simp add: latin1_def [abs_def])
qed

lemma utf32_loop_eq:
  "utf32_loop cs b n = (b \<and> list_all IsLatin1 cs, n + int (length (filter IsSupplementary cs)))"
  by (induction cs b n rule: utf32_loop.induct) (auto simp: IsLatin1_def IsSupplementary_def)

lemma utf16_length_count: "list_all code_point cs \<Longrightarrow> length (concat (map utf16 cs)) = length cs + length (filter IsSupplementary cs)"
  by (induction cs) (auto simp: utf16_def IsSupplementary_def code_point_def konst)

lemma fold_break_nth:
  "fold_break (\<lambda>i s. case read_at cs i of None \<Rightarrow> None | Some c \<Rightarrow> body c s) [int p..int (length cs) - 1] s =
    fold_break body (drop p cs) s"
proof (induction "length cs - p" arbitrary: p s)
  case (Suc n)
  then have p: "p < length cs" by simp
  then have "[int p..int (length cs) - 1] = int p # [int (Suc p)..int (length cs) - 1]" by (simp add: upto_rec1 add.commute)
  moreover have "drop p cs = cs ! p # drop (Suc p) cs" using p by (simp add: Cons_nth_drop_Suc)
  ultimately show ?case using Suc.hyps(1) [of "Suc p"] Suc.hyps(2) p by (auto split: option.splits)
qed simp

lemma TwoByteString_New_eq:
  assumes "allocates new2" "list_all code_point cs" "cs \<noteq> []"
  shows "TwoByteString_New new2 (int (length (concat (map utf16 cs)))) cs = Some (TwoByteString (concat (map utf16 cs)))"
proof -
  let ?n = "length (concat (map utf16 cs))"
  let ?body = "\<lambda>c s. let (result, j) = s in
      if IsSupplementary c then do { ASSERT (j < int ?n - 1); result \<leftarrow> Utf16_Encode c result j; Some ((result, j + 2), True) }
      else do { ASSERT (j < int ?n); result \<leftarrow> write_at result j (word_of_int c); Some ((result, j + 1), True) }"
  have b: "two_byte_step (int ?n) cs = (\<lambda>i s. case read_at cs i of None \<Rightarrow> None | Some c \<Rightarrow> ?body c s)"
    by (intro ext) (auto simp: two_byte_step_def Let_def split: option.splits)
  have step: "?body c (pre @ post, int (length pre)) =
      Some ((pre @ utf16 c @ drop (length (utf16 c)) post, int (length pre + length (utf16 c))), True)"
    if "c \<in> set cs" "length (pre @ post) = ?n" "length pre + length (utf16 c) \<le> ?n" for c pre post
  proof -
    have c: "code_point c" using assms(2) that(1) by (simp add: list_all_iff)
    note len = that(2,3)
    show ?thesis
    proof (cases "IsSupplementary c")
      case True
      then have "0xFFFF < c" and l: "length (utf16 c) = 2" by (simp_all add: IsSupplementary_def utf16_def)
      then show ?thesis using True len Utf16_Encode_append [of c post pre] by (simp add: l)
    next
      case False
      then have u: "utf16 c = [word_of_int c]" using c by (simp add: utf16_def IsSupplementary_def code_point_def konst)
      then obtain y ys where "post = y # ys" using len by (cases post) auto
      then show ?thesis using False len by (simp add: u)
    qed
  qed
  have "fold_break ?body cs ([] @ new2 (int ?n), int (length ([] :: 16 word list))) =
      Some ([] @ concat (map utf16 cs) @ drop ?n (new2 (int ?n)), int (length ([] :: 16 word list) + ?n))"
    using length_allocated [OF assms(1), of "int ?n"] by (intro fold_break_units [where n = ?n and m = ?n] step) auto
  then have "fold_break (two_byte_step (int ?n) cs) [0..int (length cs) - 1] (new2 (int ?n), 0) = Some (concat (map utf16 cs), int ?n)"
    using fold_break_nth [where cs = cs and body = ?body and p = 0 and s = "(new2 (int ?n), 0)"] length_allocated [OF assms(1), of "int ?n"] unfolding b by simp
  moreover have "length cs \<le> ?n" using utf16_length_count [OF assms(2)] by simp
  ultimately show ?thesis using assms(3) by (simp add: TwoByteString_New_def)
qed

lemma FromUTF32_eq:
  assumes "allocates new1" "allocates new2" "list_all code_point cs"
  obtains s where "FromUTF32 new1 new2 cs = Some s" "string_units s = concat (map utf16 cs)" "is_one_byte s \<longleftrightarrow> list_all IsLatin1 cs"
proof (cases "list_all IsLatin1 cs")
  case True
  then show thesis using that OneByteString_New_eq [OF assms(1) True] latin1_string_units [OF True]
    by (simp add: FromUTF32_def utf32_loop_eq del: string_units.simps)
next
  case False
  then have "cs \<noteq> []" by auto
  then show thesis using that False TwoByteString_New_eq [OF assms(2,3)] utf16_length_count [OF assms(3)]
    by (simp add: FromUTF32_def utf32_loop_eq)
qed

lemma FromUTF16_eq:
  assumes "allocates new1"
  obtains s where "FromUTF16 new1 us = Some s" "string_units s = us"
proof (cases "list_all (\<lambda>c. IsLatin1 (uint c)) us")
  case True
  then have l: "list_all IsLatin1 (map uint us)" by (simp add: list_all_iff)
  have "concat (map utf16 (map uint us)) = us" by (induction us) (simp_all add: utf16_unit)
  then show thesis using that True OneByteString_New_eq [OF assms l] latin1_string_units [OF l]
    by (simp add: FromUTF16_def del: string_units.simps)
next
  case False
  then have "us \<noteq> []" by auto
  then show thesis using that False by (simp add: FromUTF16_def)
qed

subsection \<open>Transformations of strings\<close>

lemma code_points_bmp: "list_all (\<lambda>ch. ch \<le> 0xFFFF) (code_points us) \<Longrightarrow> code_points us = map uint us"
proof (induction us rule: code_points.induct)
  case (3 a b us)
  then show ?case using Utf16_Decode_pair(2) [of a b] by (auto split: if_splits)
qed simp_all

definition mapped :: "(int \<Rightarrow> int option) \<Rightarrow> int \<Rightarrow> int" where
  "mapped mapping ch = the (mapping ch)"

text \<open>
  The contract of a mapping for \<open>Transform\<close>: on the code points it is used for, it yields code points
  that need as many UTF-16 code units. Under it, a string is transformed code point by code point.
\<close>

locale code_point_mapping =
  fixes mapping :: "int \<Rightarrow> int option" and applies :: "int \<Rightarrow> bool"
  assumes maps: "code_point ch \<Longrightarrow> applies ch \<Longrightarrow>
    \<exists>dst. mapping ch = Some dst \<and> code_point dst \<and> (0xFFFF < dst \<longleftrightarrow> 0xFFFF < ch)"
begin

lemma mapping_eq:
  assumes "code_point ch" "applies ch"
  shows "mapping ch = Some (mapped mapping ch)" "code_point (mapped mapping ch)" "0xFFFF < mapped mapping ch \<longleftrightarrow> 0xFFFF < ch"
  using maps [OF assms] by (auto simp: mapped_def)

lemma scan_fold:
  assumes "list_all code_point chs" "list_all applies chs"
  shows "fold_break (scan_step mapping) chs (h, m) =
    Some (h \<or> \<not> list_all (\<lambda>ch. mapped mapping ch = ch) chs, fold (\<lambda>ch m. max m (mapped mapping ch)) chs m)"
  using assms by (induction chs arbitrary: h m) (auto simp: scan_step_def mapping_eq)

lemma fold_max:
  assumes "list_all code_point chs" "list_all applies chs" "code_point m"
  shows "code_point (fold (\<lambda>ch m. max m (mapped mapping ch)) chs m)"
    "list_all (\<lambda>ch. mapped mapping ch \<le> fold (\<lambda>ch m. max m (mapped mapping ch)) chs m) chs"
    "m \<le> fold (\<lambda>ch m. max m (mapped mapping ch)) chs m"
proof -
  have "code_point (fold (\<lambda>ch m. max m (mapped mapping ch)) chs m) \<and> m \<le> fold (\<lambda>ch m. max m (mapped mapping ch)) chs m \<and>
      list_all (\<lambda>ch. mapped mapping ch \<le> fold (\<lambda>ch m. max m (mapped mapping ch)) chs m) chs"
    using assms
  proof (induction chs arbitrary: m)
    case (Cons ch chs)
    then have cp: "code_point (max m (mapped mapping ch))" using mapping_eq(2) [of ch] by (simp add: max_def)
    show ?case using Cons.IH [OF _ _ cp] Cons.prems by auto
  qed simp
  then show "code_point (fold (\<lambda>ch m. max m (mapped mapping ch)) chs m)"
    "list_all (\<lambda>ch. mapped mapping ch \<le> fold (\<lambda>ch m. max m (mapped mapping ch)) chs m) chs"
    "m \<le> fold (\<lambda>ch m. max m (mapped mapping ch)) chs m" by blast+
qed

lemma utf16_length_image:
  "list_all code_point chs \<Longrightarrow> list_all applies chs \<Longrightarrow>
    length (concat (map utf16 (map (mapped mapping) chs))) = length (concat (map utf16 chs))"
proof (induction chs)
  case (Cons ch chs)
  then have "length (utf16 (mapped mapping ch)) = length (utf16 ch)" using mapping_eq(3) [of ch] by (auto simp: utf16_def)
  with Cons show ?case by simp
qed simp

lemma OneByteString_Transform_eq:
  assumes "allocates new1" "code_points (string_units str) = map uint (string_units str)"
    "list_all applies (code_points (string_units str))" "list_all (\<lambda>ch. mapped mapping ch \<le> 0xFF) (code_points (string_units str))"
  shows "OneByteString_Transform new1 mapping str =
    Some (OneByteString (map word_of_int (map (mapped mapping) (code_points (string_units str)))))"
proof -
  let ?us = "string_units str"
  let ?f = "\<lambda>i. word_of_int (mapped mapping (uint (?us ! nat i))) :: byte"
  have "fold_break (\<lambda>i result. do {
         c \<leftarrow> CharAt str i;
         ch \<leftarrow> mapping c;
         ASSERT (IsLatin1 ch);
         result \<leftarrow> write_at result i (word_of_int ch);
         Some (result, True)
       }) [0..int (length ?us) - 1] (new1 (int (length ?us))) = Some (map ?f [0..int (length ?us) - 1])"
  proof (rule fold_break_fill_new)
    fix i and pre :: "byte list" and y post
    assume "0 \<le> i" "i < int (length ?us)" and i: "int (length pre) = i"
    then have p: "length pre < length ?us" by simp
    then have "uint (?us ! length pre) \<in> set (code_points ?us)" using assms(2) by simp
    then have c: "code_point (uint (?us ! length pre))" "applies (uint (?us ! length pre))" "mapped mapping (uint (?us ! length pre)) \<le> 0xFF"
      using assms(3,4) code_points_range [of ?us] by (simp_all add: list_all_iff)
    then have "IsLatin1 (mapped mapping (uint (?us ! length pre)))" using mapping_eq(2) [of "uint (?us ! length pre)"]
      by (simp add: IsLatin1_def code_point_def)
    then show "do {
         c \<leftarrow> CharAt str i;
         ch \<leftarrow> mapping c;
         ASSERT (IsLatin1 ch);
         result \<leftarrow> write_at (pre @ y # post) i (word_of_int ch);
         Some (result, True)
       } = Some (pre @ ?f i # post, True)"
      using p mapping_eq(1) [OF c(1,2)] by (simp add: CharAt_units i [symmetric])
  qed (rule assms(1))
  then show ?thesis
    unfolding OneByteString_Transform_def Length_units map_nth_upto [of "\<lambda>u. word_of_int (mapped mapping (uint u))"]
    by (simp add: assms(2) comp_def)
qed

lemma TwoByteString_Transform_eq:
  assumes "allocates new2" "list_all applies (code_points (string_units str))"
  shows "TwoByteString_Transform new2 mapping str =
    Some (TwoByteString (concat (map utf16 (map (mapped mapping) (code_points (string_units str))))))"
proof -
  let ?us = "string_units str"
  let ?chs = "code_points ?us" and ?n = "length ?us"
  let ?out = "concat (map (\<lambda>ch. utf16 (mapped mapping ch)) ?chs)"
  have n: "length ?out = ?n"
    using utf16_length_image [OF code_points_range assms(2)] utf16_code_points [of ?us] by (simp add: comp_def)
  have step: "transform_step mapping ch (pre @ post, int (length pre)) =
      Some ((pre @ utf16 (mapped mapping ch) @ drop (length (utf16 (mapped mapping ch))) post, int (length pre + length (utf16 (mapped mapping ch)))), True)"
    if "ch \<in> set ?chs" "length (pre @ post) = ?n" "length pre + length (utf16 (mapped mapping ch)) \<le> ?n" for ch pre post
  proof -
    have ch: "code_point ch" "applies ch" using code_points_range [of ?us] assms(2) that(1) by (simp_all add: list_all_iff)
    note len = that(2,3) and img = mapping_eq [OF ch]
    show ?thesis
    proof (cases "0xFFFF < mapped mapping ch")
      case True
      then have "length (utf16 (mapped mapping ch)) = 2" by (simp add: utf16_def)
      then show ?thesis using True len img Utf16_Encode_append [OF True, of post pre]
        by (simp add: transform_step_def Utf16_Length_def konst code_point_def)
    next
      case False
      then have u: "utf16 (mapped mapping ch) = [word_of_int (mapped mapping ch)]" by (simp add: utf16_def)
      then obtain y ys where "post = y # ys" using len by (cases post) auto
      then show ?thesis using False len img by (simp add: u transform_step_def Utf16_Length_def konst code_point_def)
    qed
  qed
  have "fold_break (transform_step mapping) ?chs ([] @ new2 (int ?n), int (length ([] :: 16 word list))) =
      Some ([] @ ?out @ drop (length ?out) (new2 (int ?n)), int (length ([] :: 16 word list) + length ?out))"
    using n length_allocated [OF assms(1), of "int ?n"] by (intro fold_break_units [where n = ?n and m = ?n] step) auto
  then show ?thesis using n length_allocated [OF assms(1), of "int ?n"]
    by (simp add: TwoByteString_Transform_def for_code_points_eq Length_units comp_def)
qed

lemma Transform_eq:
  assumes "allocates new1" "allocates new2" "list_all applies (code_points (string_units str))"
  obtains s where "Transform new1 new2 mapping str = Some s"
    "string_units s = concat (map utf16 (map (mapped mapping) (code_points (string_units str))))"
proof -
  let ?us = "string_units str"
  let ?chs = "code_points ?us"
  define m where "m = fold (\<lambda>ch m. max m (mapped mapping ch)) ?chs 0"
  have z: "code_point 0" by (simp add: code_point_def)
  note bounds = fold_max [OF code_points_range assms(3) z, folded m_def]
  have scan: "for_code_points str (scan_step mapping) (False, 0) = Some (\<not> list_all (\<lambda>ch. mapped mapping ch = ch) ?chs, m)"
    by (simp add: for_code_points_eq scan_fold [OF code_points_range assms(3)] m_def)
  consider "list_all (\<lambda>ch. mapped mapping ch = ch) ?chs" | "\<not> list_all (\<lambda>ch. mapped mapping ch = ch) ?chs" "IsLatin1 m" |
    "\<not> list_all (\<lambda>ch. mapped mapping ch = ch) ?chs" "\<not> IsLatin1 m" by blast
  then show thesis
  proof cases
    case 1
    then have "map (mapped mapping) ?chs = ?chs" by (simp add: list_all_iff map_idI)
    with 1 show thesis using that [of str] by (simp add: Transform_def scan utf16_code_points)
  next
    case 2
    then have small: "list_all (\<lambda>ch. mapped mapping ch \<le> 0xFF) ?chs" using bounds(2) by (auto simp: list_all_iff IsLatin1_def)
    have "ch \<le> 0xFFFF" if "ch \<in> set ?chs" for ch
    proof -
      have "code_point ch" "applies ch" "mapped mapping ch \<le> 0xFF"
        using that code_points_range [of ?us] assms(3) small by (simp_all add: list_all_iff)
      then show ?thesis using mapping_eq(3) [of ch] by linarith
    qed
    then have u: "?chs = map uint ?us" by (intro code_points_bmp) (simp add: list_all_iff)
    have "list_all IsLatin1 (map (mapped mapping) ?chs)"
      using small mapping_eq(2) code_points_range [of ?us] assms(3) by (auto simp: list_all_iff IsLatin1_def code_point_def)
    from latin1_string_units [OF this] show thesis
      using 2 that OneByteString_Transform_eq [OF assms(1) u assms(3) small]
      by (simp add: Transform_def scan del: string_units.simps)
  next
    case 3
    then have "IsBmp m \<or> IsSupplementary m" using bounds(1) by (auto simp: code_point_def IsBmp_def IsSupplementary_def konst)
    with 3 show thesis using that TwoByteString_Transform_eq [OF assms(2,3)] by (simp add: Transform_def scan)
  qed
qed

end

subsection \<open>Properties\<close>

text \<open>
  C34: every string survives the trip through UTF-8. \<open>ToUTF8\<close> into a buffer of the length that
  \<open>Utf8::Length\<close> computes fills it with valid UTF-8, and \<open>FromUTF8\<close> of the result yields a string with the same
  code units, also when the string has unpaired surrogates; no assertion fails and no array is left.
\<close>

theorem string_utf8_round_trip:
  assumes "allocates new1" "allocates new2" "Utf8_Length_string str = Some len" "int (length buffer) = len"
  shows "\<exists>arr str'. ToUTF8 str buffer len = Some arr \<and> IsValid arr \<and>
    FromUTF8 new1 new2 arr = Some str' \<and> string_units str' = string_units str"
proof -
  let ?chs = "code_points (string_units str)"
  have len: "len = int (length (string_utf8 str))" using assms(3) by (simp add: Utf8_Length_string_eq)
  then have "ToUTF8 str buffer len = Some (string_utf8 str)" using assms(4) by (simp add: ToUTF8_eq)
  moreover have "IsValid (string_utf8 str)" using IsValid_concat [OF code_points_range, of "string_units str" "[]"] by simp
  moreover obtain s where "FromUTF8 new1 new2 (string_utf8 str) = Some s" "string_units s = concat (map utf16 ?chs)"
    using FromUTF8_prefix [OF assms(1,2) code_points_range, of "[]" "string_units str"] by auto
  ultimately show ?thesis using utf16_code_points [of "string_units str"] by auto
qed

theorem string_utf8_round_trip_witness:
  "\<exists>arr str'. ToUTF8 (TwoByteString [0x41, 0xD801, 0xDD00, 0xD800]) [0, 0, 0, 0, 0, 0, 0, 0] 8 = Some arr \<and> IsValid arr \<and>
    FromUTF8 (\<lambda>n. replicate (nat n) 0) (\<lambda>n. replicate (nat n) 0) arr = Some str' \<and>
    string_units str' = [0x41, 0xD801, 0xDD00, 0xD800]"
proof -
  let ?s = "TwoByteString [0x41, 0xD801, 0xDD00, 0xD800]"
  have "Utf8_Length_string ?s = Some 8"
    unfolding Utf8_Length_string_eq
    by (simp add: IsLeadSurrogate_def IsTrailSurrogate_def Utf16_Decode_def utf8_bytes_def utf8_def)
  then show ?thesis
    using string_utf8_round_trip [of "\<lambda>n. replicate (nat n) 0" "\<lambda>n. replicate (nat n) 0" ?s 8 "[0, 0, 0, 0, 0, 0, 0, 0]"]
    by (simp add: allocates_def)
qed

text \<open>
  C35: \<open>FromUTF8\<close> never writes outside of the string that it allocates and no assertion fails, whatever
  the bytes are: \<open>CodeUnitCount\<close> is large enough for what the decoding loops write before they find an
  error. For the encoding of a sequence of code points, the string has their code units, and it is a
  one-byte string if and only if all of them are Latin-1 characters.
\<close>

theorem FromUTF8_decodes:
  assumes "allocates new1" "allocates new2"
  shows "\<exists>s. FromUTF8 new1 new2 arr = Some s \<and>
    (\<forall>chs. list_all code_point chs \<and> arr = concat (map utf8_bytes chs) \<longrightarrow>
      string_units s = concat (map utf16 chs) \<and> (is_one_byte s \<longleftrightarrow> list_all (\<lambda>ch. ch \<le> 0xFF) chs))"
proof (cases "IsValid arr")
  case True
  obtain chs bad where *: "list_all code_point chs" "arr = concat (map utf8_bytes chs) @ bad"
    "bad = [] \<or> bad \<noteq> [] \<and> Utf8_Decode bad = Some (0, -1)" by (rule utf8_prefix)
  then have arr: "arr = concat (map utf8_bytes chs)" using True IsValid_concat IsValid_malformed by fastforce
  obtain s where s: "FromUTF8 new1 new2 arr = Some s"
    using FromUTF8_prefix [OF assms *(1), of "[]"] arr by auto
  have "string_units s = concat (map utf16 cs) \<and> (is_one_byte s \<longleftrightarrow> list_all (\<lambda>ch. ch \<le> 0xFF) cs)"
    if "list_all code_point cs" "arr = concat (map utf8_bytes cs)" for cs
    using FromUTF8_prefix [OF assms that(1), of "[]"] s that(2) by auto
  with s show ?thesis by blast
next
  case False
  obtain chs bad where *: "list_all code_point chs" "arr = concat (map utf8_bytes chs) @ bad"
    "bad = [] \<or> bad \<noteq> [] \<and> Utf8_Decode bad = Some (0, -1)" by (rule utf8_prefix)
  have "\<not> (list_all code_point cs \<and> arr = concat (map utf8_bytes cs))" for cs
    using False IsValid_concat [of cs "[]"] by auto
  moreover obtain s where "FromUTF8 new1 new2 arr = Some s" using FromUTF8_prefix [OF assms *(1,3)] *(2) by auto
  ultimately show ?thesis by blast
qed

theorem FromUTF8_decodes_witness:
  "\<exists>s. FromUTF8 (\<lambda>n. replicate (nat n) 0) (\<lambda>n. replicate (nat n) 0) [0x41, 0xC3, 0xA9] = Some s \<and>
    string_units s = [0x41, 0xE9] \<and> is_one_byte s"
proof -
  obtain s where s: "FromUTF8 (\<lambda>n. replicate (nat n) 0) (\<lambda>n. replicate (nat n) 0) [0x41, 0xC3, 0xA9] = Some s"
    "\<forall>chs. list_all code_point chs \<and> [0x41, 0xC3, 0xA9] = concat (map utf8_bytes chs) \<longrightarrow>
      string_units s = concat (map utf16 chs) \<and> (is_one_byte s \<longleftrightarrow> list_all (\<lambda>ch. ch \<le> 0xFF) chs)"
    using FromUTF8_decodes [of "\<lambda>n. replicate (nat n) 0" "\<lambda>n. replicate (nat n) 0" "[0x41, 0xC3, 0xA9]"]
    by (auto simp: allocates_def)
  from s(2) [rule_format, of "[0x41, 0xE9]"] s(1) show ?thesis
    by (simp add: code_point_def utf8_bytes_def utf8_def utf16_def)
qed

text \<open>
  C36: the shortcut of \<open>ToCString\<close> for one-byte strings of ASCII characters produces what the general
  path produces: the UTF-8 encoding of the string, followed by a NUL byte.
\<close>

theorem ToCString_shortcut:
  assumes "allocates new1"
  shows "ToCString new1 str = ToCString_utf8 new1 str \<and>
    ToCString new1 str = Some (concat (map utf8_bytes (code_points (string_units str))) @ [0])"
  using ToCString_eq [OF assms] ToCString_utf8_eq [OF assms] by simp_all

theorem ToCString_shortcut_witness:
  "ToCString (\<lambda>n. replicate (nat n) 1) (OneByteString [0x48, 0x69]) = Some [0x48, 0x69, 0]"
proof -
  have "allocates (\<lambda>n. replicate (nat n) (1::byte))" by (simp add: allocates_def)
  from conjunct2 [OF ToCString_shortcut [OF this, of "OneByteString [0x48, 0x69]"]] show ?thesis
    unfolding code_points_one_byte by (simp add: utf8_bytes_def utf8_def)
qed

text \<open>
  \<open>FromUTF32\<close> of code points and \<open>FromUTF16\<close> of code units return strings with these code points
  and these code units: the length that the counting loop computes is exactly the length that is written.
\<close>

theorem FromUTF32_FromUTF16_build:
  assumes "allocates new1" "allocates new2" "list_all (\<lambda>ch. 0 \<le> ch \<and> ch \<le> 0x10FFFF) chs"
  shows "\<exists>s s'. FromUTF32 new1 new2 chs = Some s \<and> string_units s = concat (map utf16 chs) \<and>
    (is_one_byte s \<longleftrightarrow> list_all IsLatin1 chs) \<and> FromUTF16 new1 us = Some s' \<and> string_units s' = us"
proof -
  have "list_all code_point chs" using assms(3) by (simp add: code_point_def [abs_def])
  with FromUTF32_eq [OF assms(1,2)] FromUTF16_eq [OF assms(1), of us] show ?thesis by metis
qed

theorem FromUTF32_FromUTF16_build_witness:
  "\<exists>s s'. FromUTF32 (\<lambda>n. replicate (nat n) 0) (\<lambda>n. replicate (nat n) 0) [0x41, 0x10500] = Some s \<and>
    string_units s = [0x41, 0xD801, 0xDD00] \<and> FromUTF16 (\<lambda>n. replicate (nat n) 0) [0x41] = Some s' \<and> string_units s' = [0x41]"
  using FromUTF32_FromUTF16_build [of "\<lambda>n. replicate (nat n) 0" "\<lambda>n. replicate (nat n) 0" "[0x41, 0x10500]" "[0x41]"]
  by (auto simp: allocates_def utf16_def)

end
