(* ===== verification/Case_Mapping.thy ===== *)
theory Case_Mapping
  imports Case_Tables Dart_Strings
begin

text \<open>
  The case mapping of \<open>runtime/vm/unicode.h\<close> (class \<open>CaseMapping\<close>) over the tables of \<open>unicode_data.cc\<close>, and
  \<open>String::ToUpperCase\<close> and \<open>String::ToLowerCase\<close>.

  The tables are checked entry by entry: every entry maps a code point to a code point of the same plane. So
  the mapping meets the contract of \<open>Transform\<close> on all code points but one, U+10500, for which it reads behind
  the end of \<open>stage1\<close>.
\<close>

unbundle bit_operations_syntax

definition kUppercase :: int where "kUppercase = 1"
definition kLowercase :: int where "kLowercase = 2"
definition kException :: int where "kException = 3"
definition kTypeShift :: nat where "kTypeShift = 2"
definition kTypeMask :: int where "kTypeMask = 3"
definition kStage1Size :: int where "kStage1Size = 261"
definition kBlockSizeLog2 :: nat where "kBlockSizeLog2 = 8"
definition kBlockSize :: int where "kBlockSize = push_bit kBlockSizeLog2 1"

definition Convert :: "int \<Rightarrow> int \<Rightarrow> int option" where
  "Convert ch mapping =
    (if IsLatin1 ch then do {
       info \<leftarrow> read_at stage2 ch;
       Some (if info AND kTypeMask = mapping then ch + drop_bit kTypeShift info else ch)
     }
     else if ch \<le> push_bit kBlockSizeLog2 kStage1Size then do {
       b \<leftarrow> read_at stage1 (drop_bit kBlockSizeLog2 ch);
       let offset = push_bit kBlockSizeLog2 b;
       info \<leftarrow> read_at stage2 (offset + (ch AND (kBlockSize - 1)));
       let typ = info AND kTypeMask;
       if typ = mapping then Some (ch + drop_bit kTypeShift info)
       else if typ = kException then do {
         e \<leftarrow> read_at stage2_exception (drop_bit kTypeShift info);
         d \<leftarrow> read_at [fst e, snd e] (mapping - 1);
         Some (ch + d)
       }
       else Some ch
     }
     else Some ch)"

definition ToUpper :: "int \<Rightarrow> int option" where
  "ToUpper ch = Convert ch kUppercase"

definition ToLower :: "int \<Rightarrow> int option" where
  "ToLower ch = Convert ch kLowercase"

definition ToUpperCase :: "(int \<Rightarrow> byte list) \<Rightarrow> (int \<Rightarrow> 16 word list) \<Rightarrow> dart_string \<Rightarrow> dart_string option" where
  "ToUpperCase new1 new2 str = Transform new1 new2 ToUpper str"

definition ToLowerCase :: "(int \<Rightarrow> byte list) \<Rightarrow> (int \<Rightarrow> 16 word list) \<Rightarrow> dart_string \<Rightarrow> dart_string option" where
  "ToLowerCase new1 new2 str = Transform new1 new2 ToLower str"

subsection \<open>Checking the tables\<close>

definition same_plane :: "int \<Rightarrow> int \<Rightarrow> bool" where
  "same_plane ch dst \<longleftrightarrow> 0 \<le> dst \<and> dst \<le> 0x10FFFF \<and> (0xFFFF < dst \<longleftrightarrow> 0xFFFF < ch)"

definition entry_ok :: "int \<Rightarrow> int \<Rightarrow> bool" where
  "entry_ok ch info \<longleftrightarrow> info = 0 \<or>
    (if info mod 4 = 3 then 0 \<le> info div 4 \<and> info div 4 < 22 \<and>
       same_plane ch (ch + fst (stage2_exception ! nat (info div 4))) \<and>
       same_plane ch (ch + snd (stage2_exception ! nat (info div 4)))
     else same_plane ch (ch + info div 4))"

fun entries_ok :: "int \<Rightarrow> int list \<Rightarrow> bool" where
  "entries_ok ch [] \<longleftrightarrow> True"
| "entries_ok ch (info # infos) \<longleftrightarrow> entry_ok ch info \<and> entries_ok (ch + 1) infos"

lemma block_0: "entries_ok 0 stage2_block_0" by code_simp
lemma block_1: "entries_ok 256 stage2_block_1" by code_simp
lemma block_2: "entries_ok 512 stage2_block_2" by code_simp
lemma block_3: "entries_ok 768 stage2_block_3" by code_simp
lemma block_4: "entries_ok 1024 stage2_block_4" by code_simp
lemma block_5: "entries_ok 1280 stage2_block_5" by code_simp
lemma block_7: "entries_ok 4096 stage2_block_7" by code_simp
lemma block_8: "entries_ok 7424 stage2_block_8" by code_simp
lemma block_9: "entries_ok 7680 stage2_block_9" by code_simp
lemma block_10: "entries_ok 7936 stage2_block_10" by code_simp
lemma block_11: "entries_ok 8448 stage2_block_11" by code_simp
lemma block_12: "entries_ok 9216 stage2_block_12" by code_simp
lemma block_13: "entries_ok 11264 stage2_block_13" by code_simp
lemma block_14: "entries_ok 11520 stage2_block_14" by code_simp
lemma block_15: "entries_ok 42496 stage2_block_15" by code_simp
lemma block_16: "entries_ok 42752 stage2_block_16" by code_simp
lemma block_17: "entries_ok 65280 stage2_block_17" by code_simp
lemma block_18: "entries_ok 66560 stage2_block_18" by code_simp

lemma entries_ok_zero: "entries_ok ch (replicate n 0)"
  by (induction n arbitrary: ch) (simp_all add: entry_ok_def)

lemma block_6: "entries_ok ch stage2_block_6"
proof -
  have z: "stage2_block_6 = replicate 256 0" by code_simp
  show ?thesis unfolding z by (rule entries_ok_zero)
qed

text \<open>The block that each part of \<open>stage1\<close> refers to; block 6, which maps nothing, serves all other parts.\<close>

definition owners :: "(int \<times> int) list" where
  "owners = [(0, 0), (1, 1), (2, 2), (3, 3), (4, 4), (5, 5), (16, 7), (29, 8), (30, 9), (31, 10), (33, 11), (36, 12), (44, 13), (45, 14), (166, 15), (167, 16), (255, 17), (260, 18)]"

fun index_ok :: "int \<Rightarrow> int list \<Rightarrow> bool" where
  "index_ok k [] \<longleftrightarrow> True"
| "index_ok k (b # bs) \<longleftrightarrow> (b = 6 \<or> List.member owners (k, b)) \<and> index_ok (k + 1) bs"

lemma index_stage1: "index_ok 0 stage1"
  by code_simp

lemma length_tables: "length stage1 = 261" "length stage2_exception = 22" "length stage2_blocks = 19"
  by code_simp+

lemma length_blocks: "list_all (\<lambda>b. length b = 256) stage2_blocks"
  by code_simp

lemma index_ok_nth: "index_ok k bs \<Longrightarrow> i < length bs \<Longrightarrow> bs ! i = 6 \<or> (k + int i, bs ! i) \<in> set owners"
proof (induction k bs arbitrary: i rule: index_ok.induct)
  case (2 k b bs)
  then show ?case by (cases i) (auto simp: algebra_simps)
qed simp

lemma entries_ok_nth: "entries_ok ch infos \<Longrightarrow> i < length infos \<Longrightarrow> entry_ok (ch + int i) (infos ! i)"
proof (induction ch infos arbitrary: i rule: entries_ok.induct)
  case (2 ch info infos)
  then show ?case by (cases i) (auto simp: algebra_simps)
qed simp

definition block_ok :: "int \<Rightarrow> int \<Rightarrow> bool" where
  "block_ok k b \<longleftrightarrow> 0 \<le> b \<and> b < 19 \<and> entries_ok (256 * k) (stage2_blocks ! nat b)"

lemma owners_ok: "list_all (\<lambda>(k, b). block_ok k b) owners"
  unfolding owners_def
  by (simp add: block_ok_def stage2_blocks_def block_0 block_1 block_2 block_3 block_4 block_5 block_7 block_8 block_9
      block_10 block_11 block_12 block_13 block_14 block_15 block_16 block_17 block_18)

lemma block_ok_6: "block_ok k 6"
  by (simp add: block_ok_def stage2_blocks_def block_6)

lemma stage1_ok: "i < 261 \<Longrightarrow> block_ok (int i) (stage1 ! i)"
  using index_ok_nth [OF index_stage1, of i] owners_ok block_ok_6 by (auto simp: length_tables list_all_iff)

lemma nth_concat:
  "list_all (\<lambda>b. length b = n) bs \<Longrightarrow> j < length bs \<Longrightarrow> i < n \<Longrightarrow> concat bs ! (n * j + i) = bs ! j ! i \<and> n * j + i < length (concat bs)"
proof (induction bs arbitrary: j)
  case (Cons b bs)
  show ?case
  proof (cases j)
    case (Suc j')
    then have "concat bs ! (n * j' + i) = bs ! j' ! i \<and> n * j' + i < length (concat bs)" using Cons by (intro Cons.IH) auto
    then show ?thesis using Cons.prems Suc by (simp add: nth_append)
  qed (use Cons.prems in \<open>simp add: nth_append\<close>)
qed simp

text \<open>The entry of a code point below 261 * 256.\<close>

lemma table_entry:
  assumes "0 \<le> ch" "ch < 66816"
  obtains b info where "read_at stage1 (ch div 256) = Some b" "read_at stage2 (256 * b + ch mod 256) = Some info" "entry_ok ch info"
proof -
  let ?k = "nat (ch div 256)" and ?i = "nat (ch mod 256)"
  have k: "?k < 261" "int ?k = ch div 256" and i: "?i < 256" "int ?i = ch mod 256" using assms by (simp_all add: nat_less_iff)
  obtain b where b: "b = stage1 ! ?k" by simp
  then have *: "0 \<le> b" "b < 19" "entries_ok (256 * int ?k) (stage2_blocks ! nat b)"
    using stage1_ok [OF k(1)] by (simp_all add: block_ok_def)
  have len: "length (stage2_blocks ! nat b) = 256"
    using length_blocks * by (simp add: list_all_iff length_tables(3) nth_mem nat_less_iff)
  have "concat stage2_blocks ! (256 * nat b + ?i) = stage2_blocks ! nat b ! ?i \<and> 256 * nat b + ?i < length (concat stage2_blocks)"
    using * i by (intro nth_concat length_blocks) (simp_all add: length_tables nat_less_iff)
  moreover have "256 * b + ch mod 256 = int (256 * nat b + ?i)" using * i by simp
  ultimately have "read_at stage2 (256 * b + ch mod 256) = Some (stage2_blocks ! nat b ! ?i)"
    unfolding stage2_def by (simp only: read_at_int)
  moreover have "read_at stage1 (ch div 256) = Some b" 
    using read_at_int [of ?k stage1] k by (simp only: length_tables b)
  moreover have "entry_ok ch (stage2_blocks ! nat b ! ?i)"
    using entries_ok_nth [OF *(3), of ?i] len i k by simp
  ultimately show thesis using that by blast
qed

subsection \<open>The mapping\<close>

lemma and_masks: "(x::int) AND kTypeMask = x mod 4" "x AND (kBlockSize - 1) = x mod 256"
  using take_bit_eq_mask [of 2 x] take_bit_eq_mask [of 8 x]
  by (simp_all add: take_bit_eq_mod mask_eq_exp_minus_1 kTypeMask_def kBlockSize_def kBlockSizeLog2_def)

lemma table_shifts:
  "drop_bit kTypeShift (x::int) = x div 4"
  "drop_bit kBlockSizeLog2 (x::int) = x div 256" "push_bit kBlockSizeLog2 (x::int) = 256 * x"
  by (simp_all add: kTypeShift_def kBlockSizeLog2_def kStage1Size_def push_bit_eq_mult drop_bit_eq_div)

lemma Convert_eq:
  "Convert ch mapping =
    (if IsLatin1 ch then do {
       info \<leftarrow> read_at stage2 ch;
       Some (if info mod 4 = mapping then ch + info div 4 else ch)
     }
     else if ch \<le> 66816 then do {
       b \<leftarrow> read_at stage1 (ch div 256);
       info \<leftarrow> read_at stage2 (256 * b + ch mod 256);
       if info mod 4 = mapping then Some (ch + info div 4)
       else if info mod 4 = 3 then do {
         e \<leftarrow> read_at stage2_exception (info div 4);
         d \<leftarrow> read_at [fst e, snd e] (mapping - 1);
         Some (ch + d)
       }
       else Some ch
     }
     else Some ch)"
  unfolding Convert_def and_masks table_shifts kException_def Let_def by (simp add: kStage1Size_def)

lemma Convert_ok:
  assumes "code_point ch" "ch \<noteq> 0x10500" "mapping = 1 \<or> mapping = 2"
  shows "\<exists>dst. Convert ch mapping = Some dst \<and> code_point dst \<and> (0xFFFF < dst \<longleftrightarrow> 0xFFFF < ch)"
proof (cases "ch < 66816")
  case True
  have ch: "0 \<le> ch" using assms(1) by (simp add: code_point_def)
  obtain b info where e: "read_at stage1 (ch div 256) = Some b" "read_at stage2 (256 * b + ch mod 256) = Some info" "entry_ok ch info"
    using table_entry [OF ch True] .
  have plane: "same_plane ch dst \<Longrightarrow> code_point dst \<and> (0xFFFF < dst \<longleftrightarrow> 0xFFFF < ch)" for dst
    by (simp add: same_plane_def code_point_def)
  have hit: "info mod 4 = mapping \<Longrightarrow> same_plane ch (ch + info div 4)" using e(3) assms(3) by (auto simp: entry_ok_def)
  show ?thesis
  proof (cases "IsLatin1 ch")
    case l: True
    then have "ch div 256 = 0" "ch mod 256 = ch" by (simp_all add: IsLatin1_def)
    moreover have "stage1 ! 0 = 0" by code_simp
    ultimately have "read_at stage2 ch = Some info" using e(1,2) length_tables(1) by (simp add: read_at_def)
    then show ?thesis using l assms(1) plane [OF hit] by (auto simp: Convert_eq)
  next
    case False
    have "info mod 4 = 3 \<Longrightarrow> 0 \<le> info div 4 \<and> info div 4 < 22 \<and>
       same_plane ch (ch + fst (stage2_exception ! nat (info div 4))) \<and> same_plane ch (ch + snd (stage2_exception ! nat (info div 4)))"
      using e(3) by (auto simp: entry_ok_def)
    moreover have "read_at [x, y] (mapping - 1) = Some (if mapping = 1 then x else y)" for x y :: int
      using assms(3) by (auto simp: read_at_def)
    ultimately show ?thesis using False True e(1,2) assms(1) plane [OF hit] length_tables(2)
      by (auto simp: Convert_eq read_at_def [of stage2_exception] dest!: plane)
  qed
next
  case False
  then show ?thesis using assms(1,2) by (auto simp: Convert_eq IsLatin1_def)
qed

interpretation upper: code_point_mapping ToUpper "\<lambda>ch. ch \<noteq> 0x10500"
  by unfold_locales (simp add: ToUpper_def kUppercase_def Convert_ok)

interpretation lower: code_point_mapping ToLower "\<lambda>ch. ch \<noteq> 0x10500"
  by unfold_locales (simp add: ToLower_def kLowercase_def Convert_ok)

lemma Convert_10500: "Convert 0x10500 mapping = None"
  using length_tables(1) by (simp add: Convert_eq IsLatin1_def read_at_def)

subsection \<open>Properties\<close>

text \<open>
  C37: \<open>String::ToUpperCase\<close> and \<open>String::ToLowerCase\<close> of a string without the code point U+10500 return the
  string of the mapped code points. No assertion fails, no table is read outside of its bounds and the
  result has exactly the length that was allocated for it; by inspection of all entries of the tables.
\<close>

theorem case_conversion_maps:
  assumes "allocates new1" "allocates new2" "list_all (\<lambda>ch. ch \<noteq> 0x10500) (code_points (string_units str))"
  shows "\<exists>s t. ToUpperCase new1 new2 str = Some s \<and>
    string_units s = concat (map utf16 (map (mapped ToUpper) (code_points (string_units str)))) \<and>
    ToLowerCase new1 new2 str = Some t \<and>
    string_units t = concat (map utf16 (map (mapped ToLower) (code_points (string_units str)))) \<and>
    String_Length s = String_Length str \<and> String_Length t = String_Length str"
proof -
  let ?chs = "code_points (string_units str)"
  obtain s where s: "ToUpperCase new1 new2 str = Some s" "string_units s = concat (map utf16 (map (mapped ToUpper) ?chs))"
    using upper.Transform_eq [OF assms] unfolding ToUpperCase_def .
  obtain t where t: "ToLowerCase new1 new2 str = Some t" "string_units t = concat (map utf16 (map (mapped ToLower) ?chs))"
    using lower.Transform_eq [OF assms] unfolding ToLowerCase_def .
  have "length (string_units s) = length (string_units str)" "length (string_units t) = length (string_units str)"
    unfolding s(2) t(2)
    using upper.utf16_length_image [OF code_points_range assms(3)] lower.utf16_length_image [OF code_points_range assms(3)]
    by (simp_all only: utf16_code_points)
  with s t show ?thesis by (auto simp: Length_units)
qed

lemma mapped_kelvin: "mapped ToLower 0x212A = 0x6B" "mapped ToUpper 0x212A = 0x212A"
  unfolding mapped_def by code_simp+

theorem case_conversion_maps_witness:
  "\<exists>s t. ToUpperCase (\<lambda>n. replicate (nat n) 0) (\<lambda>n. replicate (nat n) 0) (TwoByteString [0x212A]) = Some s \<and> string_units s = [0x212A] \<and>
    ToLowerCase (\<lambda>n. replicate (nat n) 0) (\<lambda>n. replicate (nat n) 0) (TwoByteString [0x212A]) = Some t \<and> string_units t = [0x6B]"
  using case_conversion_maps [of "\<lambda>n. replicate (nat n) 0" "\<lambda>n. replicate (nat n) 0" "TwoByteString [0x212A]"]
  by (auto simp: allocates_def mapped_kelvin utf16_def)

text \<open>
  C38: for the code point U+10500 the mapping reads \<open>stage1\<close> at index 261, one behind its end, because \<open>Convert\<close>
  compares with \<open>\<le>\<close> where it should compare with \<open><\<close>. So changing the case of any string with this character
  reads outside of the table.
\<close>

theorem case_conversion_out_of_bounds:
  assumes "0x10500 \<in> set (code_points (string_units str))"
  shows "ToUpperCase new1 new2 str = None \<and> ToLowerCase new1 new2 str = None"
proof -
  have fails: "fold_break (scan_step f) chs hm = None" if "0x10500 \<in> set chs" "f 0x10500 = None" for f chs hm
    using that by (induction chs arbitrary: hm) (auto simp: scan_step_def Let_def split: option.splits)
  have "ToUpper 0x10500 = None" "ToLower 0x10500 = None" by (simp_all add: ToUpper_def ToLower_def Convert_10500)
  with assms show ?thesis by (simp add: ToUpperCase_def ToLowerCase_def Transform_def for_code_points_eq fails)
qed

theorem case_conversion_out_of_bounds_witness:
  "ToUpperCase (\<lambda>n. replicate (nat n) 0) (\<lambda>n. replicate (nat n) 0) (TwoByteString [0xD801, 0xDD00]) = None"
proof -
  have "0x10500 \<in> set (code_points (string_units (TwoByteString [0xD801, 0xDD00])))"
    by (simp add: IsLeadSurrogate_def IsTrailSurrogate_def Utf16_Decode_def)
  from case_conversion_out_of_bounds [OF this] show ?thesis by simp
qed

end
