(* ===== verification/Parallel_Move.thy ===== *)
theory Parallel_Move
  imports Prelude
begin

text \<open>
  The parallel move resolver of the optimizing compiler (\<open>vm/flow_graph_compiler.cc\<close>) with its x64
  back end (\<open>vm/flow_graph_compiler_x64.cc\<close>, \<open>vm/assembler_x64.h\<close>).

  The register allocator leaves sets of moves that are meant to happen at once. The resolver
  serializes such a set: it performs the moves that block another one first, and breaks a cycle by
  swapping operands and renaming the sources of the moves that are left.

  The first part follows the source: locations, move operands, the code emitted for one move and
  for one swap, the search of a scratch register, and the traversal. The second part gives the
  instructions that are emitted their effect on a machine.
\<close>

unbundle bit_operations_syntax

subsection \<open>Locations\<close>

text \<open>
  The value of a constant instruction: a Smi, with the flag that the representation of the
  instruction is \<open>kUnboxedInt32\<close>; a \<open>Double\<close> with its bits; or any other object.
\<close>

datatype constant_value =
    is_Smi: SmiConstant int bool
  | is_Double: DoubleConstant "64 word"
  | ObjectConstant nat

text \<open>
  The kinds of locations that code generation sees. Unallocated locations and pairs are replaced
  by the register allocator. A stack slot has an index and a base register; the wider slots are
  relative to the frame pointer.
\<close>

datatype location =
    IsInvalid: NoLocation
  | IsConstant: Constant constant_value
  | IsRegister: Register nat
  | IsFpuRegister: FpuRegister nat
  | IsStackSlot: StackSlot nat int
  | IsDoubleStackSlot: DoubleStackSlot int
  | IsQuadStackSlot: QuadStackSlot int

definition TMP :: location where
  "TMP = Register 11"

definition FpuTMP :: location where
  "FpuTMP = FpuRegister 0"

definition kNumberOfFpuRegisters :: nat where
  "kNumberOfFpuRegisters = 16"

subsection \<open>Move operands\<close>

record move_operands =
  dest :: location
  src :: location

definition operands_ok :: "move_operands \<Rightarrow> bool" where
  "operands_ok m \<longleftrightarrow> \<not> IsInvalid (src m) \<or> IsInvalid (dest m)"

definition IsPending :: "move_operands \<Rightarrow> bool option" where
  "IsPending m = do {
     ASSERT (operands_ok m);
     Some (IsInvalid (dest m) \<and> \<not> IsInvalid (src m)) }"

definition IsEliminated :: "move_operands \<Rightarrow> bool option" where
  "IsEliminated m = do {
     ASSERT (operands_ok m);
     Some (IsInvalid (src m)) }"

definition MarkPending :: "move_operands \<Rightarrow> (move_operands \<times> location) option" where
  "MarkPending m = do {
     pending \<leftarrow> IsPending m;
     ASSERT (\<not> pending);
     Some (m\<lparr>dest := NoLocation\<rparr>, dest m) }"

definition ClearPending :: "location \<Rightarrow> move_operands \<Rightarrow> move_operands option" where
  "ClearPending d m = do {
     pending \<leftarrow> IsPending m;
     ASSERT pending;
     Some (m\<lparr>dest := d\<rparr>) }"

definition Blocks :: "move_operands \<Rightarrow> location \<Rightarrow> bool option" where
  "Blocks m loc = do {
     eliminated \<leftarrow> IsEliminated m;
     Some (\<not> eliminated \<and> src m = loc) }"

definition IsRedundantMove :: "move_operands \<Rightarrow> bool option" where
  "IsRedundantMove m = do {
     eliminated \<leftarrow> IsEliminated m;
     Some (eliminated \<or> IsInvalid (dest m) \<or> src m = dest m) }"

definition Eliminate :: "move_operands \<Rightarrow> move_operands" where
  "Eliminate m = m\<lparr>src := NoLocation, dest := NoLocation\<rparr>"

subsection \<open>Emitted instructions\<close>

text \<open>
  The instructions and assembler macros the resolver uses. The first operand is the destination;
  an operand is a register or the address of a stack slot. \<open>MovsdField d\<close> loads the value field of
  the \<open>Double\<close> that \<open>TMP\<close> points to. \<open>SpillFpu\<close> and \<open>RestoreFpu\<close> are the pairs of a stack pointer
  adjustment and an access to the top of the stack in \<open>SpillFpuScratch\<close> and \<open>RestoreFpuScratch\<close>.
\<close>

datatype instr =
    Movq location location
  | Xorq location location
  | Xchgq location location
  | Movaps location location
  | Movsd location location
  | Movups location location
  | Xorps location location
  | MovlImm location int
  | Movl location location
  | LoadObject location constant_value
  | StoreObject location constant_value
  | MovsdField location
  | SpillFpu location
  | RestoreFpu location

definition MoveMemoryToMemory :: "location \<Rightarrow> location \<Rightarrow> instr list" where
  "MoveMemoryToMemory d s = [Movq TMP s, Movq d TMP]"

definition ExchangeRegister :: "location \<Rightarrow> location \<Rightarrow> instr list" where
  "ExchangeRegister r a = [Movq TMP a, Movq a r, Movq r TMP]"

definition ExchangeMemory :: "location \<Rightarrow> location \<Rightarrow> instr list" where
  "ExchangeMemory a b = [Movq TMP a, Xorq TMP b, Xorq a TMP, Xorq b TMP]"

definition movl_immediate :: "location \<Rightarrow> int \<Rightarrow> instr list option" where
  "movl_immediate d v = do {
     ASSERT (kMinInt32 \<le> v \<and> v \<le> kMaxInt32);
     Some (if IsRegister d then [MovlImm d v] else [MovlImm TMP v, Movl d TMP]) }"

fun double_bits :: "constant_value \<Rightarrow> 64 word option" where
  "double_bits (DoubleConstant b) = Some b"
| "double_bits _ = None"

fun unboxed_int32 :: "constant_value \<Rightarrow> int option" where
  "unboxed_int32 (SmiConstant v u) = (if u then Some v else None)"
| "unboxed_int32 _ = None"

definition is_smi_zero :: "constant_value \<Rightarrow> bool" where
  "is_smi_zero c \<longleftrightarrow> (case c of SmiConstant v _ \<Rightarrow> v = 0 | _ \<Rightarrow> False)"

text \<open>The branch of \<open>EmitMove\<close> for a constant source.\<close>

definition constant_code :: "constant_value \<Rightarrow> location \<Rightarrow> instr list option" where
  "constant_code c destination =
     (if IsRegister destination then
        (if is_smi_zero c then Some [Xorq destination destination]
         else case unboxed_int32 c of
             Some v \<Rightarrow> movl_immediate destination v
           | None \<Rightarrow> Some [LoadObject destination c])
      else if IsFpuRegister destination then do {
        bits \<leftarrow> double_bits c;
        Some (if bits = 0 then [Xorps destination destination]
              else [LoadObject TMP c, MovsdField destination]) }
      else if IsDoubleStackSlot destination then do {
        bits \<leftarrow> double_bits c;
        Some ((if bits = 0 then [Xorps FpuTMP FpuTMP]
               else [LoadObject TMP c, MovsdField FpuTMP]) @ [Movsd destination FpuTMP]) }
      else do {
        ASSERT (IsStackSlot destination);
        (case unboxed_int32 c of
             Some v \<Rightarrow> movl_immediate destination v
           | None \<Rightarrow> Some [StoreObject destination c]) })"

definition move_code :: "location \<Rightarrow> location \<Rightarrow> instr list option" where
  "move_code source destination =
     (if IsRegister source then
        (if IsRegister destination then Some [Movq destination source]
         else do { ASSERT (IsStackSlot destination); Some [Movq destination source] })
      else if IsStackSlot source then
        (if IsRegister destination then Some [Movq destination source]
         else do {
           ASSERT (IsStackSlot destination);
           Some (MoveMemoryToMemory destination source) })
      else if IsFpuRegister source then
        (if IsFpuRegister destination then Some [Movaps destination source]
         else if IsDoubleStackSlot destination then Some [Movsd destination source]
         else do { ASSERT (IsQuadStackSlot destination); Some [Movups destination source] })
      else if IsDoubleStackSlot source then
        (if IsFpuRegister destination then Some [Movsd destination source]
         else do {
           ASSERT (IsDoubleStackSlot destination);
           Some [Movsd FpuTMP source, Movsd destination FpuTMP] })
      else if IsQuadStackSlot source then
        (if IsFpuRegister destination then Some [Movups destination source]
         else do {
           ASSERT (IsQuadStackSlot destination);
           Some [Movups FpuTMP source, Movups destination FpuTMP] })
      else (case source of
          Constant c \<Rightarrow> constant_code c destination
        | _ \<Rightarrow> None))"

subsection \<open>Scratch registers\<close>

fun some_blocks :: "move_operands list \<Rightarrow> location \<Rightarrow> bool option" where
  "some_blocks [] loc = Some False"
| "some_blocks (m # ms) loc = do {
     b \<leftarrow> Blocks m loc;
     if b then Some True else some_blocks ms loc }"

definition IsScratchLocation :: "move_operands list \<Rightarrow> location \<Rightarrow> bool option" where
  "IsScratchLocation ms loc = do {
     b \<leftarrow> some_blocks ms loc;
     Some (\<not> b \<and> list_ex (\<lambda>m. dest m = loc) ms) }"

definition unblocked :: "64 word \<Rightarrow> nat \<Rightarrow> bool" where
  "unblocked blocked_mask reg \<longleftrightarrow> push_bit reg 1 AND blocked_mask = 0"

fun scratch_loop ::
    "move_operands list \<Rightarrow> (nat \<Rightarrow> location) \<Rightarrow> 64 word \<Rightarrow> nat list \<Rightarrow> nat option option" where
  "scratch_loop ms kind blocked_mask [] = Some None"
| "scratch_loop ms kind blocked_mask (reg # regs) =
     (if unblocked blocked_mask reg then do {
        s \<leftarrow> IsScratchLocation ms (kind reg);
        if s then Some (Some reg) else scratch_loop ms kind blocked_mask regs }
      else scratch_loop ms kind blocked_mask regs)"

text \<open>The register, or \<open>None\<close> for \<open>-1\<close>, and whether it has to be spilled.\<close>

definition AllocateScratchRegister ::
    "move_operands list \<Rightarrow> (nat \<Rightarrow> location) \<Rightarrow> 64 word \<Rightarrow> nat \<Rightarrow> nat
      \<Rightarrow> (nat option \<times> bool) option" where
  "AllocateScratchRegister ms kind blocked_mask first_free last_free = do {
     scratch \<leftarrow> scratch_loop ms kind blocked_mask [first_free..<Suc last_free];
     Some (case scratch of
         Some reg \<Rightarrow> (Some reg, False)
       | None \<Rightarrow> (find (unblocked blocked_mask) [first_free..<Suc last_free], True)) }"

text \<open>
  \<open>ScratchFpuRegisterScope ensure_scratch(this, XMM0)\<close> around a body: the constructor chooses the
  register and spills it if needed, the destructor restores it.
\<close>

definition with_scratch_fpu ::
    "move_operands list \<Rightarrow> nat \<Rightarrow> (location \<Rightarrow> instr list) \<Rightarrow> instr list option" where
  "with_scratch_fpu ms blocked body = do {
     (reg, spilled) \<leftarrow> AllocateScratchRegister ms FpuRegister
       (push_bit blocked 1 OR push_bit 0 1) 0 (kNumberOfFpuRegisters - 1);
     reg \<leftarrow> reg;
     Some (if spilled
       then [SpillFpu (FpuRegister reg)] @ body (FpuRegister reg) @ [RestoreFpu (FpuRegister reg)]
       else body (FpuRegister reg)) }"

subsection \<open>Emitting moves and swaps\<close>

definition swap_code ::
    "move_operands list \<Rightarrow> location \<Rightarrow> location \<Rightarrow> instr list option" where
  "swap_code ms source destination =
     (if IsRegister source \<and> IsRegister destination then
        Some [Xchgq destination source]
      else if IsRegister source \<and> IsStackSlot destination then
        Some (ExchangeRegister source destination)
      else if IsStackSlot source \<and> IsRegister destination then
        Some (ExchangeRegister destination source)
      else if IsStackSlot source \<and> IsStackSlot destination then
        Some (ExchangeMemory destination source)
      else if IsFpuRegister source \<and> IsFpuRegister destination then
        Some [Movaps FpuTMP source, Movaps source destination, Movaps destination FpuTMP]
      else if IsFpuRegister source \<or> IsFpuRegister destination then do {
        ASSERT (IsDoubleStackSlot destination \<or> IsQuadStackSlot destination \<or>
                IsDoubleStackSlot source \<or> IsQuadStackSlot source);
        let double_width = IsDoubleStackSlot destination \<or> IsDoubleStackSlot source;
        let reg = (if IsFpuRegister source then source else destination);
        let slot_address = (if IsFpuRegister source then destination else source);
        Some ((if double_width
               then [Movsd FpuTMP slot_address, Movsd slot_address reg]
               else [Movups FpuTMP slot_address, Movups slot_address reg])
              @ [Movaps reg FpuTMP]) }
      else if IsDoubleStackSlot source \<and> IsDoubleStackSlot destination then
        with_scratch_fpu ms 0 (\<lambda>reg.
          [Movsd FpuTMP source, Movsd reg destination,
           Movsd destination FpuTMP, Movsd source reg])
      else if IsQuadStackSlot source \<and> IsQuadStackSlot destination then
        with_scratch_fpu ms 0 (\<lambda>reg.
          [Movups FpuTMP source, Movups reg destination,
           Movups destination FpuTMP, Movups source reg])
      else None)"

record resolver =
  moves :: "move_operands list"
  emitted :: "instr list"

definition set_move :: "nat \<Rightarrow> move_operands \<Rightarrow> resolver \<Rightarrow> resolver" where
  "set_move i m r = r\<lparr>moves := (moves r)[i := m]\<rparr>"

definition EmitMove :: "nat \<Rightarrow> resolver \<Rightarrow> resolver option" where
  "EmitMove index r = do {
     let m = moves r ! index;
     code \<leftarrow> move_code (src m) (dest m);
     Some (set_move index (Eliminate m) (r\<lparr>emitted := emitted r @ code\<rparr>)) }"

text \<open>The loop at the end of \<open>EmitSwap\<close>, which renames the sources of the other moves.\<close>

fun rename_sources ::
    "location \<Rightarrow> location \<Rightarrow> move_operands list \<Rightarrow> move_operands list option" where
  "rename_sources source destination [] = Some []"
| "rename_sources source destination (m # ms) = do {
     blocks_source \<leftarrow> Blocks m source;
     m' \<leftarrow> (if blocks_source then Some (m\<lparr>src := destination\<rparr>)
           else do {
             blocks_destination \<leftarrow> Blocks m destination;
             Some (if blocks_destination then m\<lparr>src := source\<rparr> else m) });
     ms' \<leftarrow> rename_sources source destination ms;
     Some (m' # ms') }"

definition EmitSwap :: "nat \<Rightarrow> resolver \<Rightarrow> resolver option" where
  "EmitSwap index r = do {
     let m = moves r ! index;
     code \<leftarrow> swap_code (moves r) (src m) (dest m);
     ms \<leftarrow> rename_sources (src m) (dest m) ((moves r)[index := Eliminate m]);
     Some (r\<lparr>moves := ms, emitted := emitted r @ code\<rparr>) }"

subsection \<open>The traversal\<close>

definition begin_move :: "nat \<Rightarrow> resolver \<Rightarrow> (resolver \<times> location) option" where
  "begin_move index r = do {
     let m = moves r ! index;
     pending \<leftarrow> IsPending m;
     ASSERT (\<not> pending);
     redundant \<leftarrow> IsRedundantMove m;
     ASSERT (\<not> redundant);
     ASSERT (\<not> IsInvalid (src m));
     (m, destination) \<leftarrow> MarkPending m;
     Some (set_move index m r, destination) }"

fun find_blocking :: "location \<Rightarrow> move_operands list \<Rightarrow> bool option" where
  "find_blocking destination [] = Some False"
| "find_blocking destination (m # ms) = do {
     b \<leftarrow> Blocks m destination;
     if b then do { pending \<leftarrow> IsPending m; ASSERT pending; Some True }
     else find_blocking destination ms }"

definition end_move :: "nat \<Rightarrow> location \<Rightarrow> resolver \<Rightarrow> resolver option" where
  "end_move index destination r = do {
     m \<leftarrow> ClearPending destination (moves r ! index);
     let r = set_move index m r;
     if src m = destination then Some (set_move index (Eliminate m) r)
     else do {
       blocked \<leftarrow> find_blocking destination (moves r);
       if blocked then EmitSwap index r else EmitMove index r } }"

text \<open>
  The loop of \<open>PerformMove\<close> over the blocking moves. The recursive call of \<open>PerformMove\<close> is spelled
  out: its prologue, its own loop and its epilogue.
\<close>

partial_function (option) block_loop ::
    "location \<Rightarrow> nat \<Rightarrow> resolver \<Rightarrow> resolver option" where
  "block_loop destination i r =
     (if i < length (moves r) then do {
        blocks \<leftarrow> Blocks (moves r ! i) destination;
        perform \<leftarrow> (if blocks then map_option Not (IsPending (moves r ! i)) else Some False);
        if perform then do {
          (r, d) \<leftarrow> begin_move i r;
          r \<leftarrow> block_loop d 0 r;
          r \<leftarrow> end_move i d r;
          block_loop destination (Suc i) r }
        else block_loop destination (Suc i) r }
      else Some r)"

declare block_loop.simps [code]

definition PerformMove :: "nat \<Rightarrow> resolver \<Rightarrow> resolver option" where
  "PerformMove index r = do {
     (r, destination) \<leftarrow> begin_move index r;
     r \<leftarrow> block_loop destination 0 r;
     end_move index destination r }"

fun BuildInitialMoveList :: "move_operands list \<Rightarrow> move_operands list option" where
  "BuildInitialMoveList [] = Some []"
| "BuildInitialMoveList (m # ms) = do {
     redundant \<leftarrow> IsRedundantMove m;
     rest \<leftarrow> BuildInitialMoveList ms;
     Some (if redundant then rest else m # rest) }"

fun perform_moves :: "nat list \<Rightarrow> resolver \<Rightarrow> resolver option" where
  "perform_moves [] r = Some r"
| "perform_moves (i # is) r = do {
     eliminated \<leftarrow> IsEliminated (moves r ! i);
     r \<leftarrow> (if \<not> eliminated \<and> \<not> IsConstant (src (moves r ! i)) then PerformMove i r else Some r);
     perform_moves is r }"

fun perform_constants :: "nat list \<Rightarrow> resolver \<Rightarrow> resolver option" where
  "perform_constants [] r = Some r"
| "perform_constants (i # is) r = do {
     eliminated \<leftarrow> IsEliminated (moves r ! i);
     r \<leftarrow> (if \<not> eliminated then do { ASSERT (IsConstant (src (moves r ! i))); EmitMove i r }
          else Some r);
     perform_constants is r }"

definition EmitNativeCode :: "move_operands list \<Rightarrow> instr list option" where
  "EmitNativeCode parallel_move = do {
     ms \<leftarrow> BuildInitialMoveList parallel_move;
     r \<leftarrow> perform_moves [0..<length ms] \<lparr>moves = ms, emitted = []\<rparr>;
     r \<leftarrow> perform_constants [0..<length ms] r;
     Some (emitted r) }"

subsection \<open>The machine\<close>

text \<open>
  Every register and slot is a cell of 128 bits, of which general registers, stack slots and double
  stack slots use the lower 64. Distinct locations are distinct cells. The machine also has the
  values pushed below the frame, the word that stands for an object other than a Smi, and the
  contents of the value field of the \<open>Double\<close> at an address.
\<close>

record machine =
  cell :: "location \<Rightarrow> 128 word"
  pushed :: "128 word list"
  object_word :: "constant_value \<Rightarrow> 64 word"
  double_field :: "64 word \<Rightarrow> 64 word"

definition write_cell :: "location \<Rightarrow> 128 word \<Rightarrow> machine \<Rightarrow> machine" where
  "write_cell l v m = m\<lparr>cell := (cell m)(l := v)\<rparr>"

definition raw_word :: "machine \<Rightarrow> constant_value \<Rightarrow> 128 word" where
  "raw_word m c = (case c of
       SmiConstant v _ \<Rightarrow> ucast (word_of_int (2 * v) :: 64 word)
     | _ \<Rightarrow> ucast (object_word m c))"

fun step :: "instr \<Rightarrow> machine \<Rightarrow> machine" where
  "step (Movq d s) m = write_cell d (take_bit 64 (cell m s)) m"
| "step (Xorq d s) m = write_cell d (take_bit 64 (cell m d XOR cell m s)) m"
| "step (Xchgq a b) m =
     write_cell a (take_bit 64 (cell m b)) (write_cell b (take_bit 64 (cell m a)) m)"
| "step (Movaps d s) m = write_cell d (cell m s) m"
| "step (Movsd d s) m = write_cell d (take_bit 64 (cell m s)) m"
| "step (Movups d s) m = write_cell d (cell m s) m"
| "step (Xorps d s) m = write_cell d (cell m d XOR cell m s) m"
| "step (MovlImm d v) m = write_cell d (take_bit 32 (word_of_int v)) m"
| "step (Movl d s) m =
     write_cell d (take_bit 32 (cell m s) OR push_bit 32 (drop_bit 32 (cell m d))) m"
| "step (LoadObject d c) m = write_cell d (raw_word m c) m"
| "step (StoreObject d c) m = write_cell d (raw_word m c) (write_cell TMP (raw_word m c) m)"
| "step (MovsdField d) m = write_cell d (ucast (double_field m (ucast (cell m TMP)))) m"
| "step (SpillFpu s) m = m\<lparr>pushed := cell m s # pushed m\<rparr>"
| "step (RestoreFpu d) m = (write_cell d (hd (pushed m)) m)\<lparr>pushed := tl (pushed m)\<rparr>"

definition run_code :: "instr list \<Rightarrow> machine \<Rightarrow> machine" where
  "run_code code m = fold step code m"

end
