(* ===== verification/Parallel_Move_Code.thy ===== *)
theory Parallel_Move_Code
  imports Parallel_Move
begin

text \<open>
  Facts on the parts of the parallel move resolver: the guards of the source as plain predicates,
  the choice of a scratch register, and the effect of the code of one move and of one swap on the
  machine.
\<close>

subsection \<open>The guards of the source\<close>

definition temps :: "location set" where
  "temps = {TMP, FpuTMP}"

lemma IsInvalid_iff [simp]: "IsInvalid l \<longleftrightarrow> l = NoLocation"
  by (cases l) simp_all

lemma operands_simps [simp]:
  assumes "operands_ok m"
  shows "IsPending m = Some (dest m = NoLocation \<and> src m \<noteq> NoLocation)"
    and "IsEliminated m = Some (src m = NoLocation)"
    and "Blocks m l = Some (src m \<noteq> NoLocation \<and> src m = l)"
    and "IsRedundantMove m = Some (src m = NoLocation \<or> dest m = NoLocation \<or> src m = dest m)"
  using assms
  by (simp_all add: IsPending_def IsEliminated_def Blocks_def IsRedundantMove_def)

lemma Eliminate_simps [simp]:
  "src (Eliminate m) = NoLocation" "dest (Eliminate m) = NoLocation" "operands_ok (Eliminate m)"
  by (simp_all add: Eliminate_def operands_ok_def)

lemma some_blocks_eq:
  assumes "list_all operands_ok ms" and "l \<noteq> NoLocation"
  shows "some_blocks ms l = Some (\<exists>m\<in>set ms. src m = l)"
  using assms by (induction ms) auto

lemma find_blocking_eq:
  assumes "list_all operands_ok ms" and "d \<noteq> NoLocation"
    and "\<forall>m\<in>set ms. src m = d \<longrightarrow> dest m = NoLocation"
  shows "find_blocking d ms = Some (\<exists>m\<in>set ms. src m = d)"
  using assms by (induction ms) auto

definition rename :: "location \<Rightarrow> location \<Rightarrow> move_operands \<Rightarrow> move_operands" where
  "rename s d m = (if src m = s then m\<lparr>src := d\<rparr> else if src m = d then m\<lparr>src := s\<rparr> else m)"

lemma rename_sources_eq:
  assumes "list_all operands_ok ms" and "s \<noteq> NoLocation" and "d \<noteq> NoLocation"
  shows "rename_sources s d ms = Some (map (rename s d) ms)"
  using assms by (induction ms) (auto simp: rename_def)

definition is_scratch :: "move_operands list \<Rightarrow> location \<Rightarrow> bool" where
  "is_scratch ms l \<longleftrightarrow> (\<forall>m\<in>set ms. src m \<noteq> l) \<and> (\<exists>m\<in>set ms. dest m = l)"

lemma IsScratchLocation_eq:
  assumes "list_all operands_ok ms" and "l \<noteq> NoLocation"
  shows "IsScratchLocation ms l = Some (is_scratch ms l)"
  using assms by (auto simp: IsScratchLocation_def some_blocks_eq is_scratch_def list_ex_iff)

lemma scratch_loop_returns:
  assumes "list_all operands_ok ms" and "\<forall>reg. kind reg \<noteq> NoLocation"
  shows "\<exists>x. scratch_loop ms kind blocked_mask regs = Some x \<and>
    (\<forall>reg. x = Some reg \<longrightarrow> reg \<in> set regs \<and> unblocked blocked_mask reg \<and> is_scratch ms (kind reg))"
  using assms by (induction regs) (auto simp: IsScratchLocation_eq)

lemma unblocked_FpuTMP: "unblocked (push_bit 0 1 OR push_bit 0 1) reg \<longleftrightarrow> 0 < reg"
proof (cases reg)
  case (Suc n)
  have "push_bit (Suc n) (1 :: 64 word) AND 1 = 0"
    by (simp add: and_one_eq push_bit_eq_mult even_iff_mod_2_eq_zero [symmetric])
  then show ?thesis by (simp add: unblocked_def Suc)
qed (simp add: unblocked_def)

lemma with_scratch_fpu_returns:
  assumes ok: "list_all operands_ok ms"
  obtains reg where "0 < reg" and "is_scratch ms (FpuRegister reg)"
      and "with_scratch_fpu ms 0 body = Some (body (FpuRegister reg))"
  | reg where "0 < reg" and "with_scratch_fpu ms 0 body = Some
      ([SpillFpu (FpuRegister reg)] @ body (FpuRegister reg) @ [RestoreFpu (FpuRegister reg)])"
proof -
  let ?msk = "push_bit 0 1 OR push_bit 0 1 :: 64 word"
  let ?regs = "[0..<Suc (kNumberOfFpuRegisters - 1)]"
  obtain x where loop: "scratch_loop ms FpuRegister ?msk ?regs = Some x"
    and x: "\<forall>reg. x = Some reg \<longrightarrow> unblocked ?msk reg \<and> is_scratch ms (FpuRegister reg)"
    using scratch_loop_returns [OF ok, of FpuRegister ?msk ?regs] by auto
  have free: "find (unblocked ?msk) ?regs = Some 1"
    unfolding unblocked_FpuTMP by (simp add: kNumberOfFpuRegisters_def upt_rec)
  show thesis
  proof (cases x)
    case None
    show ?thesis
      by (rule that(2) [of 1])
        (use loop free None in \<open>simp_all add: with_scratch_fpu_def AllocateScratchRegister_def\<close>)
  next
    case (Some reg)
    then have "0 < reg" "is_scratch ms (FpuRegister reg)" using x unblocked_FpuTMP by auto
    then show ?thesis
      by (rule that(1) [of reg])
        (use loop Some in \<open>simp add: with_scratch_fpu_def AllocateScratchRegister_def\<close>)
  qed
qed

subsection \<open>The code of one move and of one swap\<close>

text \<open>
  Word locations hold 64-bit values; the others hold values of the floating point unit. A move may
  not mix the two classes. The transfer through a double stack slot keeps 64 bits only, so a set of
  moves uses either no double stack slot, or no quad stack slot and 64-bit values only
  (\<open>narrow\<close>).
\<close>

definition word_class :: "location \<Rightarrow> bool" where
  "word_class l \<longleftrightarrow> IsRegister l \<or> IsStackSlot l"

definition fpu_class :: "location \<Rightarrow> bool" where
  "fpu_class l \<longleftrightarrow> IsFpuRegister l \<or> IsDoubleStackSlot l \<or> IsQuadStackSlot l"

definition allowed :: "bool \<Rightarrow> location \<Rightarrow> bool" where
  "allowed narrow l \<longleftrightarrow> l \<notin> temps \<and> (word_class l \<or> fpu_class l) \<and>
     (if narrow then \<not> IsQuadStackSlot l else \<not> IsDoubleStackSlot l)"

definition fits :: "bool \<Rightarrow> location \<Rightarrow> 128 word \<Rightarrow> bool" where
  "fits narrow l v \<longleftrightarrow> (narrow \<or> word_class l \<longrightarrow> take_bit 64 v = v)"

definition same_off :: "location set \<Rightarrow> machine \<Rightarrow> machine \<Rightarrow> bool" where
  "same_off X m m' \<longleftrightarrow> (\<forall>l. l \<notin> X \<longrightarrow> cell m' l = cell m l) \<and> pushed m' = pushed m \<and>
     object_word m' = object_word m \<and> double_field m' = double_field m"

lemmas machine_simps = run_code_def write_cell_def same_off_def temps_def TMP_def FpuTMP_def
lemmas class_simps = allowed_def fits_def word_class_def fpu_class_def

lemma run_code_append [simp]: "run_code (c @ c') m = run_code c' (run_code c m)"
  by (simp add: run_code_def)

lemma run_code_Nil [simp]: "run_code [] m = m"
  by (simp add: run_code_def)

lemma same_off_trans:
  "same_off X a b \<Longrightarrow> same_off X b c \<Longrightarrow> same_off X a c"
  by (simp add: same_off_def)

lemma same_off_mono: "same_off X a b \<Longrightarrow> X \<subseteq> Y \<Longrightarrow> same_off Y a b"
  by (auto simp: same_off_def)

lemma same_off_refl [simp]: "same_off X a a"
  by (simp add: same_off_def)

lemma move_code_effect:
  assumes "allowed narrow s" and "allowed narrow d" and "word_class s = word_class d"
    and "fits narrow s (cell m s)"
  shows "\<exists>c. move_code s d = Some c \<and> cell (run_code c m) d = cell m s \<and>
    same_off (insert d temps) m (run_code c m)"
  using assms
  by (cases s; cases d)
    (auto simp: move_code_def MoveMemoryToMemory_def machine_simps class_simps split: if_splits)

lemma xor_exchange:
  fixes a b :: "128 word"
  assumes "take_bit 64 a = a" and "take_bit 64 b = b"
  shows "take_bit 64 (a XOR b) = a XOR b" and "take_bit 64 (a XOR (a XOR b)) = b"
    and "take_bit 64 (b XOR (a XOR b)) = a"
  using assms by (simp_all add: take_bit_xor xor.left_commute xor.assoc)

lemma xor_cancel_middle: "a XOR b XOR a = b" for a b :: "128 word"
  by (metis xor.commute xor.left_commute xor.right_neutral xor_self_eq)

lemma scratch_swap_effect:
  assumes "list_all operands_ok ms" and mv: "mv = Movsd \<or> mv = Movups"
    and s: "fpu_class s" "\<not> IsFpuRegister s" and d: "fpu_class d" "\<not> IsFpuRegister d"
    and ne: "s \<noteq> d"
    and fit: "mv = Movsd \<Longrightarrow> take_bit 64 (cell m s) = cell m s \<and> take_bit 64 (cell m d) = cell m d"
  shows "\<exists>c X. with_scratch_fpu ms 0 (\<lambda>reg.
      [mv FpuTMP s, mv reg d, mv d FpuTMP, mv s reg]) = Some c \<and>
    (\<forall>l\<in>X. is_scratch ms l \<and> IsFpuRegister l) \<and>
    cell (run_code c m) d = cell m s \<and> cell (run_code c m) s = cell m d \<and>
    same_off ({s, d} \<union> X \<union> temps) m (run_code c m)"
    (is "\<exists>c X. with_scratch_fpu ms 0 ?body = Some c \<and> ?P c X")
  using assms(1)
proof (rule with_scratch_fpu_returns [where body = ?body])
  fix reg
  assume reg: "0 < reg" "is_scratch ms (FpuRegister reg)"
    and code: "with_scratch_fpu ms 0 ?body = Some (?body (FpuRegister reg))"
  have "?P (?body (FpuRegister reg)) {FpuRegister reg}"
    using reg mv s d ne fit by (cases s; cases d) (auto simp: machine_simps class_simps)
  then show ?thesis using code by blast
next
  fix reg
  let ?code = "[SpillFpu (FpuRegister reg)] @ ?body (FpuRegister reg) @ [RestoreFpu (FpuRegister reg)]"
  assume reg: "0 < reg" and code: "with_scratch_fpu ms 0 ?body = Some ?code"
  have "?P ?code {}"
    using reg mv s d ne fit by (cases s; cases d) (auto simp: machine_simps class_simps)
  then show ?thesis using code by blast
qed

lemma swap_code_effect:
  assumes ok: "list_all operands_ok ms" and s: "allowed narrow s" and d: "allowed narrow d"
    and cls: "word_class s = word_class d" and ne: "s \<noteq> d"
    and fit: "fits narrow s (cell m s)" "fits narrow d (cell m d)"
  shows "\<exists>c X. swap_code ms s d = Some c \<and> (\<forall>l\<in>X. is_scratch ms l \<and> IsFpuRegister l) \<and>
    cell (run_code c m) d = cell m s \<and> cell (run_code c m) s = cell m d \<and>
    same_off ({s, d} \<union> X \<union> temps) m (run_code c m)"
proof (cases "IsDoubleStackSlot s \<and> IsDoubleStackSlot d \<or> IsQuadStackSlot s \<and> IsQuadStackSlot d")
  case True
  then consider (double) "IsDoubleStackSlot s" "IsDoubleStackSlot d"
    | (quad) "IsQuadStackSlot s" "IsQuadStackSlot d" by blast
  then show ?thesis
  proof cases
    case double
    then have "narrow" "fpu_class s" "fpu_class d" using s by (auto simp: allowed_def fpu_class_def split: if_splits)
    then have "take_bit 64 (cell m s) = cell m s \<and> take_bit 64 (cell m d) = cell m d"
      using fit by (simp add: fits_def)
    with scratch_swap_effect [OF ok, of Movsd s d m] double ne \<open>fpu_class s\<close> \<open>fpu_class d\<close>
    show ?thesis by (cases s; cases d) (simp_all add: swap_code_def)
  next
    case quad
    then have "fpu_class s" "fpu_class d" by (auto simp: fpu_class_def)
    moreover have "Movups \<noteq> Movsd" by (auto dest: fun_cong)
    ultimately
    show ?thesis using scratch_swap_effect [OF ok, of Movups s d m] quad ne
      by (cases s; cases d) (simp_all add: swap_code_def)
  qed
next
  case False
  have "\<exists>c. swap_code ms s d = Some c \<and>
    cell (run_code c m) d = cell m s \<and> cell (run_code c m) s = cell m d \<and>
    same_off ({s, d} \<union> temps) m (run_code c m)"
    using False s d cls ne fit
    by (cases s; cases d)
      (auto simp: swap_code_def ExchangeRegister_def ExchangeMemory_def machine_simps class_simps
        xor_exchange xor_cancel_middle Let_def split: if_splits)
  then show ?thesis by (metis Un_empty_right empty_iff)
qed

end
