(* ===== verification/Parallel_Move_Correct.thy ===== *)
theory Parallel_Move_Correct
  imports Parallel_Move_Code
begin

text \<open>
  Correctness of the parallel move resolver: the code that is emitted for a set of moves leaves in
  every destination the value its source had before, and changes nothing else but the two scratch
  registers of the assembler.

  On top of the effect of the code of one move and of one swap the proof is an invariant of the
  traversal. It follows the stack of pending moves: the source of each but the outermost is the
  destination of the one below it, so a cycle is closed by the source of the outermost pending move
  only. The moves with constant sources, which come last, have an invariant of their own.
\<close>

subsection \<open>Sets of moves that can be resolved\<close>

definition constant_fits :: "constant_value \<Rightarrow> location \<Rightarrow> bool" where
  "constant_fits c d \<longleftrightarrow>
     (if fpu_class d then is_Double c \<and> \<not> IsQuadStackSlot d
      else case unboxed_int32 c of
          Some v \<Rightarrow> kMinInt32 \<le> v \<and> v \<le> kMaxInt32
        | None \<Rightarrow> True)"

definition source_fits :: "bool \<Rightarrow> machine \<Rightarrow> location \<Rightarrow> location \<Rightarrow> bool" where
  "source_fits narrow m s d \<longleftrightarrow> (case s of
       Constant c \<Rightarrow> constant_fits c d
     | _ \<Rightarrow> allowed narrow s \<and> word_class s = word_class d \<and> fits narrow s (cell m s))"

definition resolvable :: "bool \<Rightarrow> machine \<Rightarrow> move_operands list \<Rightarrow> bool" where
  "resolvable narrow m ms \<longleftrightarrow> distinct (map dest ms) \<and>
     (\<forall>mv\<in>set ms. allowed narrow (dest mv) \<and> source_fits narrow m (src mv) (dest mv))"

lemma allowed_proper [simp]:
  "allowed narrow l \<Longrightarrow> l \<noteq> NoLocation"
  "allowed narrow l \<Longrightarrow> \<not> IsConstant l"
  by (cases l; simp add: class_simps)+

lemma allowed_no_temp: "allowed narrow l \<Longrightarrow> l \<notin> temps"
  by (simp add: allowed_def)

lemma source_fits_proper:
  assumes "source_fits narrow m s d"
  shows "s \<noteq> NoLocation"
    and "\<not> IsConstant s \<Longrightarrow> allowed narrow s \<and> word_class s = word_class d \<and> fits narrow s (cell m s)"
  using assms by (cases s; auto simp: source_fits_def class_simps)+

lemma fits_class:
  "word_class a = word_class b \<Longrightarrow> fits narrow a v \<longleftrightarrow> fits narrow b v"
  by (simp add: fits_def)

subsection \<open>The invariant of the traversal\<close>

text \<open>
  \<open>move_inv narrow m0 m p o mv\<close> relates a move \<open>o\<close> of the initial list to its present state \<open>mv\<close> in
  the machine \<open>m\<close> that has run the code emitted so far from \<open>m0\<close>; \<open>p\<close> tells whether the move is on
  the stack of pending moves.
\<close>

definition move_inv ::
    "bool \<Rightarrow> machine \<Rightarrow> machine \<Rightarrow> bool \<Rightarrow> move_operands \<Rightarrow> move_operands \<Rightarrow> bool" where
  "move_inv narrow m0 m p mi mv \<longleftrightarrow>
     (if src mv = NoLocation then
        dest mv = NoLocation \<and> \<not> p \<and> \<not> IsConstant (src mi) \<and>
        cell m (dest mi) = cell m0 (src mi)
      else
        dest mv = (if p then NoLocation else dest mi) \<and> (\<not> p \<longrightarrow> src mv \<noteq> dest mi) \<and>
        (if IsConstant (src mi) then \<not> p \<and> src mv = src mi
         else allowed narrow (src mv) \<and> word_class (src mv) = word_class (dest mi) \<and>
              cell m (src mv) = cell m0 (src mi)))"

definition machine_of :: "machine \<Rightarrow> resolver \<Rightarrow> machine" where
  "machine_of m0 r = run_code (emitted r) m0"

definition chained :: "move_operands list \<Rightarrow> nat list \<Rightarrow> move_operands list \<Rightarrow> bool" where
  "chained ms0 ps ms \<longleftrightarrow>
     (\<forall>k. Suc k < length ps \<longrightarrow> src (ms ! (ps ! k)) = dest (ms0 ! (ps ! Suc k)))"

definition resolver_inv ::
    "bool \<Rightarrow> machine \<Rightarrow> move_operands list \<Rightarrow> nat list \<Rightarrow> resolver \<Rightarrow> bool" where
  "resolver_inv narrow m0 ms0 ps r \<longleftrightarrow>
     length (moves r) = length ms0 \<and> distinct ps \<and> set ps \<subseteq> {..<length ms0} \<and>
     (\<forall>i<length ms0.
        move_inv narrow m0 (machine_of m0 r) (i \<in> set ps) (ms0 ! i) (moves r ! i)) \<and>
     chained ms0 ps (moves r) \<and>
     same_off (dest ` set ms0 \<union> temps) m0 (machine_of m0 r)"

lemma move_inv_operands_ok: "move_inv narrow m0 m p mi mv \<Longrightarrow> operands_ok mv"
  by (simp add: move_inv_def operands_ok_def split: if_splits)

lemma resolver_inv_operands_ok:
  "resolver_inv narrow m0 ms0 ps r \<Longrightarrow> list_all operands_ok (moves r)"
  unfolding resolver_inv_def list_all_length by (metis move_inv_operands_ok)

lemma resolver_invD:
  assumes "resolver_inv narrow m0 ms0 ps r"
  shows "length (moves r) = length ms0"
    and "i < length ms0 \<Longrightarrow>
      move_inv narrow m0 (machine_of m0 r) (i \<in> set ps) (ms0 ! i) (moves r ! i)"
    and "distinct ps" and "i \<in> set ps \<Longrightarrow> i < length ms0"
    and "chained ms0 ps (moves r)"
    and "same_off (dest ` set ms0 \<union> temps) m0 (machine_of m0 r)"
  using assms by (auto simp: resolver_inv_def)

lemma resolvableD:
  assumes "resolvable narrow m ms" and "i < length ms"
  shows "allowed narrow (dest (ms ! i))"
    and "source_fits narrow m (src (ms ! i)) (dest (ms ! i))"
    and "j < length ms \<Longrightarrow> dest (ms ! i) = dest (ms ! j) \<longleftrightarrow> i = j"
  using assms by (auto simp: resolvable_def distinct_map nth_eq_iff_index_eq inj_on_eq_iff)

text \<open>What a step does to the sources of the moves that are not pending.\<close>

definition sources_change ::
    "move_operands list \<Rightarrow> nat set \<Rightarrow> resolver \<Rightarrow> resolver \<Rightarrow> bool" where
  "sources_change ms0 ps r r' \<longleftrightarrow>
     (\<forall>k<length ms0. k \<notin> ps \<longrightarrow>
        (src (moves r ! k) = NoLocation \<longrightarrow> src (moves r' ! k) = NoLocation) \<and>
        (src (moves r' ! k) = NoLocation \<or> src (moves r' ! k) = src (moves r ! k) \<or>
         (\<exists>j<length ms0. j \<notin> ps \<and> src (moves r' ! k) = dest (ms0 ! j))))"

lemma sources_change_refl [simp]: "sources_change ms0 ps r r"
  by (simp add: sources_change_def)

lemma sources_change_trans:
  "sources_change ms0 ps a b \<Longrightarrow> sources_change ms0 ps b c \<Longrightarrow> sources_change ms0 ps a c"
  unfolding sources_change_def by metis

subsection \<open>Prologue and epilogue of a move\<close>

lemma begin_move_ok:
  assumes ok: "resolvable narrow m0 ms0" and inv: "resolver_inv narrow m0 ms0 ps r"
    and i: "i < length ms0" "i \<notin> set ps" and alive: "src (moves r ! i) \<noteq> NoLocation"
    and nonconst: "\<not> IsConstant (src (moves r ! i))"
    and top: "ps \<noteq> [] \<longrightarrow> src (moves r ! i) = dest (ms0 ! hd ps)"
  shows "\<exists>r'. begin_move i r = Some (r', dest (ms0 ! i)) \<and>
    resolver_inv narrow m0 ms0 (i # ps) r' \<and> map src (moves r') = map src (moves r)"
proof -
  let ?m = "moves r ! i"
  let ?r = "set_move i (?m\<lparr>dest := NoLocation\<rparr>) r"
  note mi = resolver_invD(2) [OF inv i(1)]
  have op: "operands_ok ?m" using mi by (rule move_inv_operands_ok)
  have d: "dest ?m = dest (ms0 ! i)" "src ?m \<noteq> dest ?m"
    using mi alive i by (auto simp: move_inv_def)
  have len: "length (moves r) = length ms0" using inv by (rule resolver_invD)
  have "begin_move i r = Some (?r, dest (ms0 ! i))"
    using op d alive resolvableD(1) [OF ok i(1)] by (simp add: begin_move_def MarkPending_def)
  moreover have srcs: "map src (moves ?r) = map src (moves r)"
    by (simp add: set_move_def map_update list_update_same_conv len i(1))
  moreover have "resolver_inv narrow m0 ms0 (i # ps) ?r"
  proof -
    have "move_inv narrow m0 (machine_of m0 ?r) (k \<in> set (i # ps)) (ms0 ! k) (moves ?r ! k)"
      if "k < length ms0" for k
      using resolver_invD(2) [OF inv that] that alive nonconst i len
      by (cases "k = i") (auto simp: move_inv_def set_move_def machine_of_def split: if_splits)
    moreover have "chained ms0 (i # ps) (moves ?r)"
    proof -
      have "src (moves ?r ! k) = src (moves r ! k)" for k
        by (cases "k = i") (simp_all add: set_move_def len i(1))
      then show ?thesis
        using resolver_invD(5) [OF inv] top
        by (auto simp: chained_def nth_Cons hd_conv_nth split: nat.splits)
    qed
    ultimately show ?thesis
      using inv i by (simp add: resolver_inv_def set_move_def machine_of_def)
  qed
  ultimately show ?thesis by blast
qed

lemma not_allowed_NoLocation [simp]: "\<not> allowed narrow NoLocation"
  by (simp add: class_simps)

lemma chained_tl: "chained ms0 (j # ps) ms \<Longrightarrow> chained ms0 ps ms"
  unfolding chained_def by (metis Suc_less_eq length_Cons nth_Cons_Suc)

lemma chained_cong:
  assumes "chained ms0 ps ms"
    and "\<And>k. Suc k < length ps \<Longrightarrow> src (ms' ! (ps ! k)) = src (ms ! (ps ! k))"
  shows "chained ms0 ps ms'"
  using assms by (simp add: chained_def)

lemma move_inv_fits:
  assumes "resolvable narrow m0 ms0" and "i < length ms0"
    and "move_inv narrow m0 m p (ms0 ! i) mv" and "src mv \<noteq> NoLocation"
    and "\<not> IsConstant (src (ms0 ! i))"
  shows "fits narrow (src mv) (cell m (src mv))"
proof -
  have "word_class (src mv) = word_class (src (ms0 ! i))" "cell m (src mv) = cell m0 (src (ms0 ! i))"
    using assms source_fits_proper(2) [OF resolvableD(2)] by (auto simp: move_inv_def)
  moreover have "fits narrow (src (ms0 ! i)) (cell m0 (src (ms0 ! i)))"
    using assms source_fits_proper(2) [OF resolvableD(2)] by blast
  ultimately show ?thesis using fits_class by metis
qed

lemma pending_move:
  assumes "resolver_inv narrow m0 ms0 ps r" and "j \<in> set ps"
  shows "j < length ms0" and "src (moves r ! j) \<noteq> NoLocation" and "dest (moves r ! j) = NoLocation"
    and "\<not> IsConstant (src (ms0 ! j))" and "allowed narrow (src (moves r ! j))"
    and "word_class (src (moves r ! j)) = word_class (dest (ms0 ! j))"
    and "cell (machine_of m0 r) (src (moves r ! j)) = cell m0 (src (ms0 ! j))"
  using resolver_invD(2,4) [OF assms(1), of j] assms(2) by (auto simp: move_inv_def split: if_splits)

text \<open>A move leaves the stack without a renaming of the other ones.\<close>

lemma eliminate_ok:
  assumes ok: "resolvable narrow m0 ms0" and inv: "resolver_inv narrow m0 ms0 (j # ps) r"
    and ms: "moves r' = (moves r)[j := Eliminate mv]"
    and val: "cell (machine_of m0 r') (dest (ms0 ! j)) = cell m0 (src (ms0 ! j))"
    and off: "same_off (insert (dest (ms0 ! j)) temps) (machine_of m0 r) (machine_of m0 r')"
    and keep: "\<And>i. i < length ms0 \<Longrightarrow> i \<noteq> j \<Longrightarrow> allowed narrow (src (moves r ! i)) \<Longrightarrow>
      cell (machine_of m0 r') (src (moves r ! i)) = cell (machine_of m0 r) (src (moves r ! i))"
  shows "resolver_inv narrow m0 ms0 ps r' \<and> src (moves r' ! j) = NoLocation \<and>
    sources_change ms0 (set ps) r r'"
proof -
  have j: "j < length ms0" "\<not> IsConstant (src (ms0 ! j))" "j \<notin> set ps"
    using pending_move [OF inv, of j] resolver_invD(3) [OF inv] by auto
  have len: "length (moves r) = length ms0" using inv by (rule resolver_invD)
  have "move_inv narrow m0 (machine_of m0 r') (i \<in> set ps) (ms0 ! i) (moves r' ! i)"
    if i: "i < length ms0" for i
  proof (cases "i = j")
    case True
    then show ?thesis using j val len by (simp add: move_inv_def ms)
  next
    case False
    have "dest (ms0 ! i) \<noteq> dest (ms0 ! j)" "dest (ms0 ! i) \<notin> temps"
      using False resolvableD [OF ok i] j(1) allowed_no_temp by blast+
    then have "cell (machine_of m0 r') (dest (ms0 ! i)) = cell (machine_of m0 r) (dest (ms0 ! i))"
      using off by (simp add: same_off_def)
    then show ?thesis
      using resolver_invD(2) [OF inv i] keep [OF i False] False
      by (auto simp: move_inv_def ms split: if_splits)
  qed
  moreover have "chained ms0 ps (moves r')"
  proof (rule chained_cong [OF chained_tl [OF resolver_invD(5) [OF inv]]])
    fix k assume "Suc k < length ps"
    then have "ps ! k \<in> set ps" by simp
    then have "ps ! k \<noteq> j" using j(3) by blast
    then show "src (moves r' ! (ps ! k)) = src (moves r ! (ps ! k))" by (simp add: ms)
  qed
  moreover have "same_off (dest ` set ms0 \<union> temps) m0 (machine_of m0 r')"
    by (rule same_off_trans [OF resolver_invD(6) [OF inv] same_off_mono [OF off]])
      (use j(1) in auto)
  moreover have "sources_change ms0 (set ps) r r'"
    unfolding sources_change_def ms using j(1) len
    by (auto simp: nth_list_update)
  ultimately show ?thesis
    using inv len j(1) by (simp add: resolver_inv_def ms)
qed

text \<open>
  A move leaves the stack by a swap. Its source is the destination of the move below it, and the
  move that it is blocked on is the outermost pending one.
\<close>

lemma swap_ok:
  assumes ok: "resolvable narrow m0 ms0" and inv: "resolver_inv narrow m0 ms0 (j # ps) r"
    and none: "\<And>i. i < length ms0 \<Longrightarrow> i \<notin> set (j # ps) \<Longrightarrow> src (moves r ! i) \<noteq> dest (ms0 ! j)"
    and ps: "ps \<noteq> []" and s: "s = src (moves r ! j)" "s = dest (ms0 ! hd ps)" and d: "d = dest (ms0 ! j)"
    and ms: "moves r' = map (rename s d) ((moves r)[j := Eliminate mv])"
    and X: "\<And>l. l \<in> X \<Longrightarrow> IsFpuRegister l \<and> is_scratch ((moves r)[j := (moves r ! j)\<lparr>dest := d\<rparr>]) l"
    and val: "cell (machine_of m0 r') d = cell (machine_of m0 r) s"
      "cell (machine_of m0 r') s = cell (machine_of m0 r) d"
    and off: "same_off ({s, d} \<union> X \<union> temps) (machine_of m0 r) (machine_of m0 r')"
  shows "resolver_inv narrow m0 ms0 ps r' \<and> src (moves r' ! j) = NoLocation \<and>
    sources_change ms0 (set ps) r r'"
proof -
  note pj = pending_move [OF inv list.set_intros(1)]
  have j: "j < length ms0" "j \<notin> set ps" "distinct ps"
    using pj resolver_invD(3) [OF inv] by auto
  have len: "length (moves r) = length ms0" using inv by (rule resolver_invD)
  have hd: "hd ps < length ms0" "hd ps \<in> set ps" using ps resolver_invD(4) [OF inv] by auto
  have al: "allowed narrow s" "allowed narrow d" "word_class s = word_class d"
    using pj s(1) d resolvableD(1) [OF ok j(1)] by auto
  have nth: "moves r' ! i = rename s d (moves r ! i)" if "i < length ms0" "i \<noteq> j" for i
    using that len by (simp add: ms)
  have X1: "src (moves r ! i) \<notin> X" if "i < length ms0" for i
  proof
    assume "src (moves r ! i) \<in> X"
    then have "\<forall>m\<in>set ((moves r)[j := (moves r ! j)\<lparr>dest := d\<rparr>]). src m \<noteq> src (moves r ! i)"
      using X by (auto simp: is_scratch_def)
    moreover have "(moves r)[j := (moves r ! j)\<lparr>dest := d\<rparr>] ! i
        \<in> set ((moves r)[j := (moves r ! j)\<lparr>dest := d\<rparr>])"
      by (rule nth_mem) (simp add: len that)
    moreover have "src ((moves r)[j := (moves r ! j)\<lparr>dest := d\<rparr>] ! i) = src (moves r ! i)"
      using that by (cases "i = j") (simp_all add: len)
    ultimately show False by metis
  qed
  have X2: "\<exists>a<length ms0. src (moves r ! a) \<noteq> NoLocation \<and> l = dest (ms0 ! a)" if l: "l \<in> X" for l
  proof -
    obtain a where a: "a < length ms0" "dest ((moves r)[j := (moves r ! j)\<lparr>dest := d\<rparr>] ! a) = l"
      using X [OF l] len unfolding is_scratch_def by (auto simp: in_set_conv_nth)
    have "l \<noteq> NoLocation" using X [OF l] by auto
    then show ?thesis
      using a resolver_invD(2) [OF inv a(1)] pj d len
      by (cases "a = j") (auto simp: move_inv_def split: if_splits intro!: exI [of _ a])
  qed
  have keep: "cell (machine_of m0 r') l = cell (machine_of m0 r) l" if "l \<notin> {s, d} \<union> X \<union> temps" for l
    using off that by (simp add: same_off_def)
  have "rename s d (Eliminate mv) = Eliminate mv"
    using allowed_proper(1) [OF al(1)] allowed_proper(1) [OF al(2)] by (auto simp: rename_def)
  then have gone: "src (moves r' ! j) = NoLocation" "dest (moves r' ! j) = NoLocation"
    using j(1) len by (simp_all add: ms)
  have mv: "move_inv narrow m0 (machine_of m0 r') (i \<in> set ps) (ms0 ! i) (moves r' ! i)"
    if i: "i < length ms0" for i
  proof (cases "i = j")
    case True
    have "cell (machine_of m0 r') (dest (ms0 ! j)) = cell m0 (src (ms0 ! j))"
      using pj(7) val(1) unfolding s(1) d by metis
    then show ?thesis using True pj(4) gone j(2) by (simp add: move_inv_def)
  next
    case False
    note mi = resolver_invD(2) [OF inv i]
    have dd: "dest (ms0 ! i) \<noteq> d" using resolvableD(3) [OF ok i j(1)] False d by simp
    consider "src (moves r ! i) = NoLocation"
      | "src (moves r ! i) \<noteq> NoLocation" "IsConstant (src (ms0 ! i))"
      | "src (moves r ! i) = s" "\<not> IsConstant (src (ms0 ! i))"
      | "src (moves r ! i) = d" "\<not> IsConstant (src (ms0 ! i))"
      | "src (moves r ! i) \<noteq> NoLocation" "src (moves r ! i) \<noteq> s" "src (moves r ! i) \<noteq> d"
        "\<not> IsConstant (src (ms0 ! i))"
      by blast
    then show ?thesis
    proof cases
      case 1
      then have "i \<notin> set ps" using pending_move(2) [OF inv, of i] by auto
      then have "dest (ms0 ! i) \<noteq> s" using resolvableD(3) [OF ok i hd(1)] hd s(2) by auto
      moreover have "dest (ms0 ! i) \<notin> X" using X2 resolvableD(3) [OF ok i] 1 by metis
      ultimately have "cell (machine_of m0 r') (dest (ms0 ! i)) = cell (machine_of m0 r) (dest (ms0 ! i))"
        using dd allowed_no_temp [OF resolvableD(1) [OF ok i]] by (intro keep) auto
      then show ?thesis
        using 1 mi al False i by (auto simp: move_inv_def nth rename_def)
    next
      case 2
      then have "src (moves r ! i) = src (ms0 ! i)" using mi by (simp add: move_inv_def)
      then have "rename s d (moves r ! i) = moves r ! i" using 2 al by (auto simp: rename_def)
      then show ?thesis using mi False i 2 by (auto simp: move_inv_def nth)
    next
      case 3
      then show ?thesis
        using mi False i al val(1) dd by (auto simp: move_inv_def nth rename_def split: if_splits)
    next
      case 4
      then have "i \<in> set ps" using none [OF i] False d by auto
      with 4 show ?thesis
        using mi False i al val(2) by (auto simp: move_inv_def nth rename_def split: if_splits)
    next
      case 5
      have "allowed narrow (src (moves r ! i))" using 5 mi by (simp add: move_inv_def)
      then have "cell (machine_of m0 r') (src (moves r ! i)) = cell (machine_of m0 r) (src (moves r ! i))"
        using 5 X1 [OF i] allowed_no_temp by (intro keep) auto
      with 5 show ?thesis
        using mi False i by (auto simp: move_inv_def nth rename_def split: if_splits)
    qed
  qed
  have "chained ms0 ps (moves r')"
  proof (rule chained_cong [OF chained_tl [OF resolver_invD(5) [OF inv]]])
    fix k assume k: "Suc k < length ps"
    let ?i = "ps ! k" and ?n = "ps ! Suc k"
    have in_ps: "?i \<in> set ps" "?n \<in> set ps" using k by simp_all
    have n: "?n < length ms0" using in_ps resolver_invD(4) [OF inv] by auto
    have "src (moves r ! ?i) = dest (ms0 ! ?n)"
      using chained_tl [OF resolver_invD(5) [OF inv]] k by (simp add: chained_def)
    moreover have "?n \<noteq> j" using in_ps j(2) by auto
    moreover have "?n \<noteq> hd ps" using k j(3) by (simp add: hd_conv_nth ps nth_eq_iff_index_eq)
    ultimately have "src (moves r ! ?i) \<noteq> s" "src (moves r ! ?i) \<noteq> d"
      using resolvableD(3) [OF ok n] hd(1) j(1) s(2) d by auto
    moreover have "?i < length ms0" "?i \<noteq> j" using in_ps j(2) resolver_invD(4) [OF inv] by auto
    ultimately show "src (moves r' ! ?i) = src (moves r ! ?i)" by (simp add: nth rename_def)
  qed
  moreover have "same_off (dest ` set ms0 \<union> temps) m0 (machine_of m0 r')"
  proof (rule same_off_trans [OF resolver_invD(6) [OF inv] same_off_mono [OF off]])
    show "{s, d} \<union> X \<union> temps \<subseteq> dest ` set ms0 \<union> temps" using X2 s(2) d hd(1) j(1) by fastforce
  qed
  moreover have "sources_change ms0 (set ps) r r'"
    unfolding sources_change_def
  proof (intro allI impI)
    fix k assume k: "k < length ms0" "k \<notin> set ps"
    show "(src (moves r ! k) = NoLocation \<longrightarrow> src (moves r' ! k) = NoLocation) \<and>
        (src (moves r' ! k) = NoLocation \<or> src (moves r' ! k) = src (moves r ! k) \<or>
         (\<exists>j<length ms0. j \<notin> set ps \<and> src (moves r' ! k) = dest (ms0 ! j)))"
    proof (cases "k = j")
      case True
      then show ?thesis using gone by simp
    next
      case False
      then have "src (moves r ! k) \<noteq> d" using none [OF k(1)] k(2) d by auto
      then show ?thesis using k False al j d by (auto simp: nth rename_def)
    qed
  qed
  ultimately show ?thesis using mv gone len j inv by (simp add: resolver_inv_def ms)
qed

lemma machine_of_emitted [simp]:
  "emitted r' = emitted r @ c \<Longrightarrow> machine_of m0 r' = run_code c (machine_of m0 r)"
  by (simp add: machine_of_def)

lemma set_move_simps [simp]:
  "moves (set_move i m r) = (moves r)[i := m]" "emitted (set_move i m r) = emitted r"
  by (simp_all add: set_move_def)

lemma list_all_update: "list_all P xs \<Longrightarrow> P x \<Longrightarrow> list_all P (xs[i := x])"
  using set_update_subset_insert [of xs i x] by (auto simp: list_all_iff)

lemma end_move_emits_move:
  assumes ok: "resolvable narrow m0 ms0" and inv: "resolver_inv narrow m0 ms0 (j # ps) r"
    and r1: "moves r1 = (moves r)[j := (moves r ! j)\<lparr>dest := dest (ms0 ! j)\<rparr>]" "emitted r1 = emitted r"
    and free: "\<And>i. i < length ms0 \<Longrightarrow> i \<noteq> j \<Longrightarrow> src (moves r ! i) \<noteq> dest (ms0 ! j)"
  shows "\<exists>r'. EmitMove j r1 = Some r' \<and> resolver_inv narrow m0 ms0 ps r' \<and>
    src (moves r' ! j) = NoLocation \<and> sources_change ms0 (set ps) r r'"
proof -
  note pj = pending_move [OF inv list.set_intros(1)]
  let ?s = "src (moves r ! j)" and ?d = "dest (ms0 ! j)"
  have len: "length (moves r) = length ms0" using inv by (rule resolver_invD)
  have m1: "src (moves r1 ! j) = ?s" "dest (moves r1 ! j) = ?d" using pj(1) len by (simp_all add: r1)
  have "fits narrow ?s (cell (machine_of m0 r) ?s)"
    by (rule move_inv_fits [OF ok pj(1) resolver_invD(2) [OF inv pj(1)] pj(2,4)])
  then obtain c where c: "move_code ?s ?d = Some c"
    "cell (run_code c (machine_of m0 r)) ?d = cell (machine_of m0 r) ?s"
    "same_off (insert ?d temps) (machine_of m0 r) (run_code c (machine_of m0 r))"
    using move_code_effect [OF pj(5) resolvableD(1) [OF ok pj(1)] pj(6)] by blast
  let ?r = "set_move j (Eliminate (moves r1 ! j)) (r1\<lparr>emitted := emitted r1 @ c\<rparr>)"
  have run: "machine_of m0 ?r = run_code c (machine_of m0 r)"
    by (rule machine_of_emitted) (simp add: r1)
  have "EmitMove j r1 = Some ?r" using c(1) m1 by (simp add: EmitMove_def)
  moreover have "resolver_inv narrow m0 ms0 ps ?r \<and> src (moves ?r ! j) = NoLocation \<and>
    sources_change ms0 (set ps) r ?r"
  proof (rule eliminate_ok [OF ok inv])
    show "moves ?r = (moves r)[j := Eliminate (moves r1 ! j)]" by (simp add: r1)
    show "cell (machine_of m0 ?r) ?d = cell m0 (src (ms0 ! j))" using run c(2) pj(7) by metis
    show "same_off (insert ?d temps) (machine_of m0 r) (machine_of m0 ?r)" using run c(3) by metis
    show "cell (machine_of m0 ?r) (src (moves r ! i)) = cell (machine_of m0 r) (src (moves r ! i))"
      if "i < length ms0" "i \<noteq> j" "allowed narrow (src (moves r ! i))" for i
      using c(3) free [OF that(1,2)] allowed_no_temp [OF that(3)] unfolding run same_off_def by blast
  qed
  ultimately show ?thesis by blast
qed

lemma end_move_emits_swap:
  assumes ok: "resolvable narrow m0 ms0" and inv: "resolver_inv narrow m0 ms0 (j # ps) r"
    and r1: "moves r1 = (moves r)[j := (moves r ! j)\<lparr>dest := dest (ms0 ! j)\<rparr>]" "emitted r1 = emitted r"
    and none: "\<And>i. i < length ms0 \<Longrightarrow> i \<notin> set (j # ps) \<Longrightarrow> src (moves r ! i) \<noteq> dest (ms0 ! j)"
    and q: "q \<in> set ps" "src (moves r ! q) = dest (ms0 ! j)"
  shows "\<exists>r'. EmitSwap j r1 = Some r' \<and> resolver_inv narrow m0 ms0 ps r' \<and>
    src (moves r' ! j) = NoLocation \<and> sources_change ms0 (set ps) r r'"
proof -
  note pj = pending_move [OF inv list.set_intros(1)]
  note pq = pending_move [OF inv list.set_intros(2) [OF q(1)]]
  let ?s = "src (moves r ! j)" and ?d = "dest (ms0 ! j)" and ?m = "machine_of m0 r"
  have len: "length (moves r) = length ms0" using inv by (rule resolver_invD)
  have m1: "src (moves r1 ! j) = ?s" "dest (moves r1 ! j) = ?d" using pj(1) len by (simp_all add: r1)
  have ps: "ps \<noteq> []" using q by auto
  have s: "?s = dest (ms0 ! hd ps)"
    using resolver_invD(5) [OF inv] ps by (cases ps) (auto simp: chained_def)
  have "hd ps \<noteq> j" using ps resolver_invD(3) [OF inv] by (cases ps) auto
  moreover have "hd ps < length ms0" using ps resolver_invD(4) [OF inv] by auto
  ultimately have ne: "?s \<noteq> ?d" using s resolvableD(3) [OF ok pj(1)] by metis
  have ok1: "list_all operands_ok (moves r1)"
    unfolding r1 using resolver_inv_operands_ok [OF inv]
    by (rule list_all_update) (simp add: operands_ok_def pj(2))
  have fit_s: "fits narrow ?s (cell ?m ?s)"
    by (rule move_inv_fits [OF ok pj(1) resolver_invD(2) [OF inv pj(1)] pj(2,4)])
  have fit_d: "fits narrow ?d (cell ?m ?d)"
    using move_inv_fits [OF ok pq(1) resolver_invD(2) [OF inv pq(1)] pq(2,4)] q(2) by simp
  obtain c X where c: "swap_code (moves r1) ?s ?d = Some c"
    and X: "\<forall>l\<in>X. is_scratch (moves r1) l \<and> IsFpuRegister l"
    and val: "cell (run_code c ?m) ?d = cell ?m ?s" "cell (run_code c ?m) ?s = cell ?m ?d"
    and off: "same_off ({?s, ?d} \<union> X \<union> temps) ?m (run_code c ?m)"
    using swap_code_effect [OF ok1 pj(5) resolvableD(1) [OF ok pj(1)] pj(6) ne fit_s fit_d] by blast
  let ?ms = "map (rename ?s ?d) ((moves r1)[j := Eliminate (moves r1 ! j)])"
  let ?r = "r1\<lparr>moves := ?ms, emitted := emitted r1 @ c\<rparr>"
  have run: "machine_of m0 ?r = run_code c ?m" by (rule machine_of_emitted) (simp add: r1)
  have "list_all operands_ok ((moves r1)[j := Eliminate (moves r1 ! j)])"
    using ok1 by (rule list_all_update) simp
  then have "rename_sources ?s ?d ((moves r1)[j := Eliminate (moves r1 ! j)]) = Some ?ms"
    by (rule rename_sources_eq) (use pj(2) resolvableD(1) [OF ok pj(1)] in auto)
  then have "EmitSwap j r1 = Some ?r" using c m1 by (simp add: EmitSwap_def)
  moreover have "resolver_inv narrow m0 ms0 ps ?r \<and> src (moves ?r ! j) = NoLocation \<and>
    sources_change ms0 (set ps) r ?r"
  proof (rule swap_ok [OF ok inv none ps refl s refl])
    show "moves ?r = map (rename ?s ?d) ((moves r)[j := Eliminate (moves r1 ! j)])" by (simp add: r1)
    show "IsFpuRegister l \<and> is_scratch ((moves r)[j := (moves r ! j)\<lparr>dest := ?d\<rparr>]) l" if "l \<in> X" for l
      using X that r1 by simp
    show "cell (machine_of m0 ?r) ?d = cell ?m ?s" "cell (machine_of m0 ?r) ?s = cell ?m ?d"
      "same_off ({?s, ?d} \<union> X \<union> temps) ?m (machine_of m0 ?r)"
      using run val off by metis+
  qed
  ultimately show ?thesis by blast
qed

lemma end_move_ok:
  assumes ok: "resolvable narrow m0 ms0" and inv: "resolver_inv narrow m0 ms0 (j # ps) r"
    and none: "\<And>i. i < length ms0 \<Longrightarrow> i \<notin> set (j # ps) \<Longrightarrow> src (moves r ! i) \<noteq> dest (ms0 ! j)"
  shows "\<exists>r'. end_move j (dest (ms0 ! j)) r = Some r' \<and> resolver_inv narrow m0 ms0 ps r' \<and>
    src (moves r' ! j) = NoLocation \<and> sources_change ms0 (set ps) r r'"
proof -
  note pj = pending_move [OF inv list.set_intros(1)]
  let ?s = "src (moves r ! j)" and ?d = "dest (ms0 ! j)"
  let ?mv = "(moves r ! j)\<lparr>dest := ?d\<rparr>"
  let ?r1 = "set_move j ?mv r"
  have len: "length (moves r) = length ms0" using inv by (rule resolver_invD)
  have op: "operands_ok (moves r ! j)" using resolver_invD(2) [OF inv pj(1)] by (rule move_inv_operands_ok)
  have clear: "ClearPending ?d (moves r ! j) = Some ?mv"
    using op pj(2,3) by (simp add: ClearPending_def)
  have ok1: "list_all operands_ok (moves ?r1)"
    unfolding set_move_simps using resolver_inv_operands_ok [OF inv]
    by (rule list_all_update) (simp add: operands_ok_def pj(2))
  have blocked: "find_blocking ?d (moves ?r1) = Some (\<exists>m\<in>set (moves ?r1). src m = ?d)" if "?s \<noteq> ?d"
  proof (rule find_blocking_eq [OF ok1])
    show "?d \<noteq> NoLocation" using resolvableD(1) [OF ok pj(1)] by simp
    show "\<forall>m\<in>set (moves ?r1). src m = ?d \<longrightarrow> dest m = NoLocation"
    proof (intro ballI impI)
      fix m assume m: "m \<in> set (moves ?r1)" "src m = ?d"
      then obtain i where i: "i < length ms0" "m = moves ?r1 ! i" by (auto simp: in_set_conv_nth len)
      then have "i \<noteq> j" using m(2) that len by auto
      then have "m = moves r ! i" using i len by simp
      then show "dest m = NoLocation" using none [OF i(1)] \<open>i \<noteq> j\<close> m(2) pending_move(3) [OF inv] by auto
    qed
  qed
  consider (self) "?s = ?d" | (swap) "?s \<noteq> ?d" "\<exists>m\<in>set (moves ?r1). src m = ?d"
    | (move) "?s \<noteq> ?d" "\<not> (\<exists>m\<in>set (moves ?r1). src m = ?d)" by blast
  then show ?thesis
  proof cases
    case self
    let ?r = "set_move j (Eliminate ?mv) ?r1"
    have run: "machine_of m0 ?r = machine_of m0 r" by (simp add: machine_of_def)
    have "end_move j ?d r = Some ?r" using clear self by (simp add: end_move_def)
    moreover have "resolver_inv narrow m0 ms0 ps ?r \<and> src (moves ?r ! j) = NoLocation \<and>
      sources_change ms0 (set ps) r ?r"
      by (rule eliminate_ok [OF ok inv]) (use self pj(7) in \<open>simp_all add: run\<close>)
    ultimately show ?thesis by blast
  next
    case swap
    then obtain i where i: "i < length ms0" "src (moves ?r1 ! i) = ?d" by (auto simp: in_set_conv_nth len)
    have ij: "i \<noteq> j" using i swap(1) len by auto
    then have q: "src (moves r ! i) = ?d" using i by simp
    then have "i \<in> set ps" using none [OF i(1)] ij by auto
    then have "\<exists>r'. EmitSwap j ?r1 = Some r' \<and> resolver_inv narrow m0 ms0 ps r' \<and>
      src (moves r' ! j) = NoLocation \<and> sources_change ms0 (set ps) r r'"
      by (intro end_move_emits_swap [OF ok inv _ _ none _ q]) simp_all
    moreover have "end_move j ?d r = EmitSwap j ?r1"
      using clear swap blocked by (simp add: end_move_def del: set_move_simps)
    ultimately show ?thesis by simp
  next
    case move
    have "src (moves r ! i) \<noteq> ?d" if i: "i < length ms0" "i \<noteq> j" for i
    proof -
      have "moves ?r1 ! i \<in> set (moves ?r1)" using i len by (intro nth_mem) simp
      then show ?thesis using move(2) i by auto
    qed
    then have "\<exists>r'. EmitMove j ?r1 = Some r' \<and> resolver_inv narrow m0 ms0 ps r' \<and>
      src (moves r' ! j) = NoLocation \<and> sources_change ms0 (set ps) r r'"
      by (intro end_move_emits_move [OF ok inv]) simp_all
    moreover have "end_move j ?d r = EmitMove j ?r1"
      using clear move blocked by (simp add: end_move_def del: set_move_simps)
    ultimately show ?thesis by simp
  qed
qed

subsection \<open>The traversal\<close>

lemma sources_change_begin:
  "map src (moves r') = map src (moves r) \<Longrightarrow> length (moves r) = length ms0
    \<Longrightarrow> sources_change ms0 P r r'"
  unfolding sources_change_def by (metis length_map nth_map)

lemma sources_change_gone:
  assumes "sources_change ms0 (insert i P) a b" and "sources_change ms0 P b c"
    and "src (moves c ! i) = NoLocation"
  shows "sources_change ms0 P a c"
  unfolding sources_change_def
proof (intro allI impI)
  fix k assume "k < length ms0" "k \<notin> P"
  then show "(src (moves a ! k) = NoLocation \<longrightarrow> src (moves c ! k) = NoLocation) \<and>
      (src (moves c ! k) = NoLocation \<or> src (moves c ! k) = src (moves a ! k) \<or>
       (\<exists>j<length ms0. j \<notin> P \<and> src (moves c ! k) = dest (ms0 ! j)))"
    using assms unfolding sources_change_def by (cases "k = i") (simp, metis insert_iff)
qed

lemma sources_change_free:
  assumes "resolvable narrow m0 ms0" and "sources_change ms0 P r r'" and "p \<in> P"
    and "p < length ms0" and "k < length ms0" and "k \<notin> P" and "src (moves r ! k) \<noteq> dest (ms0 ! p)"
  shows "src (moves r' ! k) \<noteq> dest (ms0 ! p)"
proof
  assume eq: "src (moves r' ! k) = dest (ms0 ! p)"
  moreover have "dest (ms0 ! p) \<noteq> NoLocation" using resolvableD(1) [OF assms(1,4)] by simp
  ultimately obtain j where j: "j < length ms0" "j \<notin> P" "dest (ms0 ! p) = dest (ms0 ! j)"
    using assms(2,5-7) unfolding sources_change_def by metis
  then have "p = j" using resolvableD(3) [OF assms(1,4)] by blast
  then show False using j(2) assms(3) by blast
qed

definition unperformed :: "move_operands list \<Rightarrow> nat list \<Rightarrow> resolver \<Rightarrow> nat set" where
  "unperformed ms0 ps r = {i. i < length ms0 \<and> i \<notin> set ps \<and> src (moves r ! i) \<noteq> NoLocation}"

lemma finite_unperformed [simp]: "finite (unperformed ms0 ps r)"
  by (simp add: unperformed_def)

lemma unperformed_less:
  assumes "unperformed ms0 qs r' \<subseteq> unperformed ms0 ps r - {i}" and "i \<in> unperformed ms0 ps r"
  shows "card (unperformed ms0 qs r') * Suc n + (n - j) < card (unperformed ms0 ps r) * Suc n + x"
proof -
  have "card (unperformed ms0 qs r') < card (unperformed ms0 ps r)"
    using assms by (intro psubset_card_mono) auto
  then have "Suc (card (unperformed ms0 qs r')) * Suc n \<le> card (unperformed ms0 ps r) * Suc n"
    by (intro mult_le_mono1) simp
  then show ?thesis by simp
qed

lemma unperformed_shrinks:
  assumes "sources_change ms0 (set ps) r r'"
  shows "unperformed ms0 ps r' \<subseteq> unperformed ms0 ps r"
  using assms unfolding unperformed_def sources_change_def by blast

lemma block_loop_ok:
  assumes ok: "resolvable narrow m0 ms0"
    and "resolver_inv narrow m0 ms0 (p # ps) r"
    and "\<And>k. k < i \<Longrightarrow> k < length ms0 \<Longrightarrow> k \<notin> set (p # ps) \<Longrightarrow> src (moves r ! k) \<noteq> dest (ms0 ! p)"
  shows "\<exists>r'. block_loop (dest (ms0 ! p)) i r = Some r' \<and> resolver_inv narrow m0 ms0 (p # ps) r' \<and>
    sources_change ms0 (set (p # ps)) r r' \<and>
    (\<forall>k<length ms0. k \<notin> set (p # ps) \<longrightarrow> src (moves r' ! k) \<noteq> dest (ms0 ! p))"
  using assms(2,3)
proof (induction "card (unperformed ms0 (p # ps) r) * Suc (length ms0) + (length ms0 - i)"
    arbitrary: p ps i r rule: less_induct)
  case less
  note inv = less.prems(1) and before = less.prems(2)
  let ?d = "dest (ms0 ! p)" and ?m = "moves r ! i"
  have len: "length (moves r) = length ms0" using inv by (rule resolver_invD)
  have p: "p < length ms0" using resolver_invD(4) [OF inv] by simp
  have d: "?d \<noteq> NoLocation" "\<not> IsConstant ?d" using resolvableD(1) [OF ok p] by auto
  show ?case
  proof (cases "i < length ms0")
    case False
    then show ?thesis using inv before len by (auto simp: block_loop.simps [of ?d i r])
  next
    case i: True
    have op: "operands_ok ?m" using resolver_invD(2) [OF inv i] by (rule move_inv_operands_ok)
    have pend: "dest ?m = NoLocation \<longleftrightarrow> i \<in> set (p # ps)" if "src ?m = ?d"
      using resolver_invD(2) [OF inv i] that d resolvableD(1) [OF ok i]
      by (auto simp: move_inv_def split: if_splits)
    show ?thesis
    proof (cases "src ?m = ?d \<and> i \<notin> set (p # ps)")
      case False
      have "block_loop ?d i r = block_loop ?d (Suc i) r"
        using False op i len pend d by (subst block_loop.simps) auto
      moreover have "\<exists>r'. block_loop ?d (Suc i) r = Some r' \<and> resolver_inv narrow m0 ms0 (p # ps) r' \<and>
        sources_change ms0 (set (p # ps)) r r' \<and>
        (\<forall>k<length ms0. k \<notin> set (p # ps) \<longrightarrow> src (moves r' ! k) \<noteq> ?d)"
        by (rule less.hyps [OF _ inv]) (use i before False in \<open>auto simp: less_Suc_eq\<close>)
      ultimately show ?thesis by simp
    next
      case True
      then have act: "i \<in> unperformed ms0 (p # ps) r" using i d by (simp add: unperformed_def)
      obtain r1 where r1: "begin_move i r = Some (r1, dest (ms0 ! i))"
        "resolver_inv narrow m0 ms0 (i # p # ps) r1" "map src (moves r1) = map src (moves r)"
        using begin_move_ok [OF ok inv i] True d by auto
      have c1: "sources_change ms0 (set (i # p # ps)) r r1"
        by (rule sources_change_begin [OF r1(3) len])
      have "unperformed ms0 (i # p # ps) r1 \<subseteq> unperformed ms0 (p # ps) r - {i}"
        using unperformed_shrinks [OF c1] by (auto simp: unperformed_def)
      from less.hyps [OF unperformed_less [OF this act, where j = 0] r1(2)]
      obtain r2 where r2: "block_loop (dest (ms0 ! i)) 0 r1 = Some r2"
        "resolver_inv narrow m0 ms0 (i # p # ps) r2" "sources_change ms0 (set (i # p # ps)) r1 r2"
        "\<forall>k<length ms0. k \<notin> set (i # p # ps) \<longrightarrow> src (moves r2 ! k) \<noteq> dest (ms0 ! i)"
        by auto
      obtain r3 where r3: "end_move i (dest (ms0 ! i)) r2 = Some r3"
        "resolver_inv narrow m0 ms0 (p # ps) r3" "src (moves r3 ! i) = NoLocation"
        "sources_change ms0 (set (p # ps)) r2 r3"
        using end_move_ok [OF ok r2(2)] r2(4) by blast
      have c3: "sources_change ms0 (set (p # ps)) r r3"
        by (rule sources_change_gone [OF _ r3(4,3)])
          (use sources_change_trans [OF c1 r2(3)] in simp)
      have "unperformed ms0 (p # ps) r3 \<subseteq> unperformed ms0 (p # ps) r - {i}"
        using unperformed_shrinks [OF c3] r3(3) by (auto simp: unperformed_def)
      from less.hyps [OF unperformed_less [OF this act, where j = "Suc i"] r3(2)]
      obtain r4 where r4: "block_loop ?d (Suc i) r3 = Some r4"
        "resolver_inv narrow m0 ms0 (p # ps) r4" "sources_change ms0 (set (p # ps)) r3 r4"
        "\<forall>k<length ms0. k \<notin> set (p # ps) \<longrightarrow> src (moves r4 ! k) \<noteq> ?d"
        using sources_change_free [OF ok c3 list.set_intros(1) p] before r3(3) d
        by (metis less_Suc_eq)
      have "block_loop ?d i r = Some r4"
        using True op i len pend d r1(1) r2(1) r3(1) r4(1) by (subst block_loop.simps) auto
      then show ?thesis using r4 sources_change_trans [OF c3 r4(3)] by blast
    qed
  qed
qed

lemma PerformMove_ok:
  assumes ok: "resolvable narrow m0 ms0" and inv: "resolver_inv narrow m0 ms0 [] r"
    and i: "i < length ms0" and alive: "src (moves r ! i) \<noteq> NoLocation"
    and nonconst: "\<not> IsConstant (src (moves r ! i))"
  shows "\<exists>r'. PerformMove i r = Some r' \<and> resolver_inv narrow m0 ms0 [] r' \<and>
    src (moves r' ! i) = NoLocation \<and> sources_change ms0 {} r r'"
proof -
  obtain r1 where r1: "begin_move i r = Some (r1, dest (ms0 ! i))"
    "resolver_inv narrow m0 ms0 [i] r1" "map src (moves r1) = map src (moves r)"
    using begin_move_ok [OF ok inv i _ alive nonconst] by auto
  obtain r2 where r2: "block_loop (dest (ms0 ! i)) 0 r1 = Some r2"
    "resolver_inv narrow m0 ms0 [i] r2" "sources_change ms0 (set [i]) r1 r2"
    "\<forall>k<length ms0. k \<notin> set [i] \<longrightarrow> src (moves r2 ! k) \<noteq> dest (ms0 ! i)"
    using block_loop_ok [OF ok r1(2), of 0] by auto
  obtain r3 where r3: "end_move i (dest (ms0 ! i)) r2 = Some r3"
    "resolver_inv narrow m0 ms0 [] r3" "src (moves r3 ! i) = NoLocation"
    "sources_change ms0 (set []) r2 r3"
    using end_move_ok [OF ok r2(2)] r2(4) by blast
  have "sources_change ms0 {} r r3"
    using sources_change_gone [of ms0 i "{}" r r2 r3] r2(3) r3
      sources_change_trans [OF sources_change_begin [OF r1(3) resolver_invD(1) [OF inv]]] by simp
  then show ?thesis using r1(1) r2(1) r3 by (auto simp: PerformMove_def)
qed

lemma perform_moves_ok:
  assumes ok: "resolvable narrow m0 ms0" and "resolver_inv narrow m0 ms0 [] r"
    and "set is \<subseteq> {..<length ms0}"
  shows "\<exists>r'. perform_moves is r = Some r' \<and> resolver_inv narrow m0 ms0 [] r' \<and>
    sources_change ms0 {} r r' \<and>
    (\<forall>i\<in>set is. src (moves r' ! i) = NoLocation \<or> IsConstant (src (ms0 ! i)))"
  using assms(2,3)
proof (induction "is" arbitrary: r)
  case Nil
  then show ?case by simp
next
  case (Cons i "is")
  note inv = Cons.prems(1)
  have i: "i < length ms0" using Cons.prems(2) by simp
  note mi = resolver_invD(2) [OF inv i]
  have op: "operands_ok (moves r ! i)" using mi by (rule move_inv_operands_ok)
  have const: "IsConstant (src (moves r ! i)) \<longleftrightarrow> IsConstant (src (ms0 ! i))"
    if "src (moves r ! i) \<noteq> NoLocation"
    using mi that by (auto simp: move_inv_def split: if_splits)
  obtain r1 where r1: "(if src (moves r ! i) \<noteq> NoLocation \<and> \<not> IsConstant (src (moves r ! i))
      then PerformMove i r else Some r) = Some r1"
    "resolver_inv narrow m0 ms0 [] r1" "sources_change ms0 {} r r1"
    "src (moves r1 ! i) = NoLocation \<or> IsConstant (src (ms0 ! i))"
  proof (cases "src (moves r ! i) \<noteq> NoLocation \<and> \<not> IsConstant (src (moves r ! i))")
    case True
    then show ?thesis using PerformMove_ok [OF ok inv i] that by auto
  next
    case False
    then have "src (moves r ! i) = NoLocation \<or> IsConstant (src (ms0 ! i))" using const by blast
    then show ?thesis using that [of r] inv False by simp
  qed
  obtain r2 where r2: "perform_moves is r1 = Some r2" "resolver_inv narrow m0 ms0 [] r2"
    "sources_change ms0 {} r1 r2"
    "\<forall>i\<in>set is. src (moves r2 ! i) = NoLocation \<or> IsConstant (src (ms0 ! i))"
    using Cons.IH [OF r1(2)] Cons.prems(2) by auto
  have "src (moves r2 ! i) = NoLocation \<or> IsConstant (src (ms0 ! i))"
    using r1(4) r2(3) i unfolding sources_change_def by blast
  then show ?case
    using op r1(1) r2 sources_change_trans [OF r1(3) r2(3)] by auto
qed

subsection \<open>Constant sources\<close>

text \<open>
  The value a constant leaves in a destination. An unboxed 32-bit integer defines the lower half of
  a word only: the store to a stack slot leaves the upper half as it was. Loading a \<open>Double\<close> relies
  on the heap: the value field at the address of the object holds its bits.
\<close>

definition holds_constant :: "machine \<Rightarrow> constant_value \<Rightarrow> location \<Rightarrow> bool" where
  "holds_constant m c d \<longleftrightarrow>
     (if fpu_class d then Some (cell m d) = map_option ucast (double_bits c)
      else case unboxed_int32 c of
          Some v \<Rightarrow> take_bit 32 (cell m d) = take_bit 32 (word_of_int v)
        | None \<Rightarrow> cell m d = raw_word m c)"

definition doubles_in_heap :: "machine \<Rightarrow> bool" where
  "doubles_in_heap m \<longleftrightarrow>
     (\<forall>b. double_field m (object_word m (DoubleConstant b)) = b)"

lemma ucast_up_down [simp]: "ucast (ucast (x :: 64 word) :: 128 word) = x"
  by (simp add: ucast_up_ucast_id is_up)

lemma take_bit_ucast [simp]: "take_bit 64 (ucast (x :: 64 word) :: 128 word) = ucast x"
  by (rule bit_eqI) (auto simp: bit_simps dest: bit_imp_le_length)

lemma take_bit_push [simp]: "take_bit 32 (push_bit 32 b) = (0 :: 128 word)"
  by (rule bit_eqI) (auto simp: bit_simps)

lemma is_DoubleE:
  assumes "is_Double c" obtains b where "c = DoubleConstant b"
  using assms by (cases c) auto

lemma constant_code_fpu:
  assumes "allowed narrow d" and "fpu_class d" and "constant_fits c d" and "doubles_in_heap m"
  shows "\<exists>code. constant_code c d = Some code \<and> holds_constant (run_code code m) c d \<and>
    same_off (insert d temps) m (run_code code m)"
proof -
  obtain b where c: "c = DoubleConstant b"
    using assms(2,3) by (auto simp: constant_fits_def elim: is_DoubleE)
  show ?thesis
    using assms
    by (cases d; cases "b = 0")
      (auto simp: c constant_code_def constant_fits_def holds_constant_def machine_simps class_simps
        raw_word_def doubles_in_heap_def)
qed

lemma constant_code_word:
  assumes "allowed narrow d" and "\<not> fpu_class d" and "constant_fits c d"
  shows "\<exists>code. constant_code c d = Some code \<and> holds_constant (run_code code m) c d \<and>
    same_off (insert d temps) m (run_code code m)"
  using assms
  by (cases d; cases c)
    (auto simp: constant_code_def constant_fits_def holds_constant_def machine_simps class_simps
      raw_word_def movl_immediate_def is_smi_zero_def split: if_splits)

lemma constant_code_effect:
  assumes "allowed narrow d" and "constant_fits c d" and "doubles_in_heap m"
  shows "\<exists>code. constant_code c d = Some code \<and> holds_constant (run_code code m) c d \<and>
    same_off (insert d temps) m (run_code code m)"
  using constant_code_fpu constant_code_word assms by blast

lemma holds_constant_same_off:
  assumes "same_off X m m'" and "d \<notin> X"
  shows "holds_constant m' c d \<longleftrightarrow> holds_constant m c d"
  using assms
  by (auto simp: holds_constant_def same_off_def raw_word_def split: option.splits constant_value.splits)

text \<open>
  The state during the second loop of \<open>EmitNativeCode\<close>: \<open>performed m0 m mi\<close> is what a move \<open>mi\<close> of
  the initial list has to achieve.
\<close>

definition performed :: "machine \<Rightarrow> machine \<Rightarrow> move_operands \<Rightarrow> bool" where
  "performed m0 m mi \<longleftrightarrow> (case src mi of
       Constant c \<Rightarrow> holds_constant m c (dest mi)
     | s \<Rightarrow> cell m (dest mi) = cell m0 s)"

definition constants_inv ::
    "machine \<Rightarrow> move_operands list \<Rightarrow> nat set \<Rightarrow> resolver \<Rightarrow> bool" where
  "constants_inv m0 ms0 D r \<longleftrightarrow> length (moves r) = length ms0 \<and>
     (\<forall>i<length ms0.
        if IsConstant (src (ms0 ! i)) \<and> i \<notin> D
        then src (moves r ! i) = src (ms0 ! i) \<and> dest (moves r ! i) = dest (ms0 ! i)
        else src (moves r ! i) = NoLocation \<and> dest (moves r ! i) = NoLocation \<and>
          performed m0 (machine_of m0 r) (ms0 ! i)) \<and>
     same_off (dest ` set ms0 \<union> temps) m0 (machine_of m0 r)"

lemma performed_same_off:
  assumes "same_off X m m'" and "dest mi \<notin> X"
  shows "performed m0 m' mi \<longleftrightarrow> performed m0 m mi"
  using holds_constant_same_off [OF assms] assms
  by (auto simp: performed_def same_off_def split: location.splits)

lemma performed_nonconst:
  "\<not> IsConstant (src mi) \<Longrightarrow> performed m0 m mi \<longleftrightarrow> cell m (dest mi) = cell m0 (src mi)"
  by (cases "src mi") (simp_all add: performed_def)

lemma constants_inv_start:
  assumes ok: "resolvable narrow m0 ms0" and inv: "resolver_inv narrow m0 ms0 [] r"
    and elim: "\<forall>i<length ms0. src (moves r ! i) = NoLocation \<or> IsConstant (src (ms0 ! i))"
  shows "constants_inv m0 ms0 {} r"
proof -
  have "if IsConstant (src (ms0 ! i))
      then src (moves r ! i) = src (ms0 ! i) \<and> dest (moves r ! i) = dest (ms0 ! i)
      else src (moves r ! i) = NoLocation \<and> dest (moves r ! i) = NoLocation \<and>
        performed m0 (machine_of m0 r) (ms0 ! i)" if i: "i < length ms0" for i
    using resolver_invD(2) [OF inv i] elim i performed_nonconst [of "ms0 ! i"]
    by (auto simp: move_inv_def split: if_splits)
  then show ?thesis
    using resolver_invD(1,6) [OF inv] by (simp add: constants_inv_def)
qed

lemma emit_constant_ok:
  assumes ok: "resolvable narrow m0 ms0" and inv: "constants_inv m0 ms0 D r"
    and heap: "doubles_in_heap m0"
    and i: "i < length ms0" "i \<notin> D" and const: "src (ms0 ! i) = Constant c"
  shows "\<exists>r'. EmitMove i r = Some r' \<and> constants_inv m0 ms0 (insert i D) r'"
proof -
  let ?d = "dest (ms0 ! i)" and ?m = "machine_of m0 r"
  have len: "length (moves r) = length ms0" using inv by (simp add: constants_inv_def)
  have m: "src (moves r ! i) = Constant c" "dest (moves r ! i) = ?d"
    using inv i const by (auto simp: constants_inv_def)
  have "doubles_in_heap ?m"
    using heap inv by (simp add: constants_inv_def same_off_def doubles_in_heap_def)
  moreover have "constant_fits c ?d"
    using resolvableD(2) [OF ok i(1)] const by (simp add: source_fits_def)
  ultimately obtain code where code: "constant_code c ?d = Some code"
    "holds_constant (run_code code ?m) c ?d" "same_off (insert ?d temps) ?m (run_code code ?m)"
    using constant_code_effect [OF resolvableD(1) [OF ok i(1)]] by blast
  let ?r = "set_move i (Eliminate (moves r ! i)) (r\<lparr>emitted := emitted r @ code\<rparr>)"
  have run: "machine_of m0 ?r = run_code code ?m" by (rule machine_of_emitted) simp
  have "EmitMove i r = Some ?r" using m code(1) by (simp add: EmitMove_def move_code_def)
  moreover have "if IsConstant (src (ms0 ! k)) \<and> k \<notin> insert i D
      then src (moves ?r ! k) = src (ms0 ! k) \<and> dest (moves ?r ! k) = dest (ms0 ! k)
      else src (moves ?r ! k) = NoLocation \<and> dest (moves ?r ! k) = NoLocation \<and>
        performed m0 (machine_of m0 ?r) (ms0 ! k)" if k: "k < length ms0" for k
  proof (cases "k = i")
    case True
    then show ?thesis using code(2) i(1) len const run by (simp add: performed_def)
  next
    case False
    have "dest (ms0 ! k) \<notin> insert ?d temps"
      using False resolvableD [OF ok k] i(1) allowed_no_temp by blast
    then have "performed m0 (machine_of m0 ?r) (ms0 ! k) \<longleftrightarrow> performed m0 ?m (ms0 ! k)"
      unfolding run by (rule performed_same_off [OF code(3)])
    then show ?thesis using inv k False by (auto simp: constants_inv_def)
  qed
  moreover have "same_off (dest ` set ms0 \<union> temps) m0 (machine_of m0 ?r)"
    unfolding run
    by (rule same_off_trans [OF _ same_off_mono [OF code(3)]])
      (use inv i(1) in \<open>auto simp: constants_inv_def\<close>)
  moreover have "length (moves ?r) = length ms0" using len by simp
  ultimately show ?thesis unfolding constants_inv_def by blast
qed

lemma perform_constants_ok:
  assumes ok: "resolvable narrow m0 ms0" and heap: "doubles_in_heap m0"
    and "constants_inv m0 ms0 D r" and "set is \<subseteq> {..<length ms0}" and "distinct is"
    and "set is \<inter> D = {}"
  shows "\<exists>r'. perform_constants is r = Some r' \<and> constants_inv m0 ms0 (D \<union> set is) r'"
  using assms(3-6)
proof (induction "is" arbitrary: D r)
  case Nil
  then show ?case by simp
next
  case (Cons i "is")
  note inv = Cons.prems(1)
  have i: "i < length ms0" "i \<notin> D" using Cons.prems by auto
  obtain r1 where r1: "(if src (moves r ! i) \<noteq> NoLocation
      then do { ASSERT (IsConstant (src (moves r ! i))); EmitMove i r } else Some r) = Some r1"
    "constants_inv m0 ms0 (insert i D) r1"
  proof (cases "IsConstant (src (ms0 ! i))")
    case True
    then obtain c where c: "src (ms0 ! i) = Constant c" by (cases "src (ms0 ! i)") auto
    moreover have "src (moves r ! i) = src (ms0 ! i)" using inv i True by (auto simp: constants_inv_def)
    ultimately show ?thesis using emit_constant_ok [OF ok inv heap i c] that by auto
  next
    case False
    then have "src (moves r ! i) = NoLocation" using inv i by (auto simp: constants_inv_def)
    moreover have "constants_inv m0 ms0 (insert i D) r"
      using inv False unfolding constants_inv_def by (metis insert_iff)
    ultimately show ?thesis using that by simp
  qed
  have "operands_ok (moves r ! i)"
    using inv i resolvableD [OF ok i(1)] source_fits_proper(1)
    unfolding constants_inv_def operands_ok_def by (metis IsInvalid_iff)
  moreover have "\<exists>r'. perform_constants is r1 = Some r' \<and> constants_inv m0 ms0 (insert i D \<union> set is) r'"
    by (rule Cons.IH [OF r1(2)]) (use Cons.prems in auto)
  ultimately show ?case using r1(1) by auto
qed

end
