(* ===== verification/Parallel_Move_Properties.thy ===== *)
theory Parallel_Move_Properties
  imports Parallel_Move_Correct
begin

text \<open>
  The properties of the parallel move resolver: the emitted code performs the moves at once, a cycle
  through a double stack slot is an exception to it, and every emitted instruction is well typed.
\<close>

subsection \<open>The whole set of moves\<close>

lemma BuildInitialMoveList_eq:
  assumes "list_all operands_ok ms"
  shows "BuildInitialMoveList ms = Some (filter (\<lambda>m. dest m \<noteq> NoLocation \<and> src m \<noteq> dest m) ms)"
  using assms by (induction ms) (auto simp: operands_ok_def)

lemma resolvable_filter:
  "resolvable narrow m ms \<Longrightarrow> resolvable narrow m (filter P ms)"
  by (auto simp: resolvable_def distinct_map_filter)

lemma resolver_inv_start:
  assumes ok: "resolvable narrow m0 ms0" and proper: "\<forall>m\<in>set ms0. src m \<noteq> dest m"
  shows "resolver_inv narrow m0 ms0 [] \<lparr>moves = ms0, emitted = []\<rparr>"
proof -
  have "move_inv narrow m0 m0 False (ms0 ! i) (ms0 ! i)" if i: "i < length ms0" for i
    using source_fits_proper [OF resolvableD(2) [OF ok i]] proper i by (auto simp: move_inv_def)
  then show ?thesis by (simp add: resolver_inv_def machine_of_def chained_def)
qed

lemma resolve_list_ok:
  assumes ok: "resolvable narrow m0 ms0" and proper: "\<forall>m\<in>set ms0. src m \<noteq> dest m"
    and heap: "doubles_in_heap m0"
  shows "\<exists>r r'. perform_moves [0..<length ms0] \<lparr>moves = ms0, emitted = []\<rparr> = Some r \<and>
    perform_constants [0..<length ms0] r = Some r' \<and>
    (\<forall>m\<in>set ms0. performed m0 (machine_of m0 r') m) \<and>
    same_off (dest ` set ms0 \<union> temps) m0 (machine_of m0 r')"
proof -
  obtain r where r: "perform_moves [0..<length ms0] \<lparr>moves = ms0, emitted = []\<rparr> = Some r"
    "resolver_inv narrow m0 ms0 [] r"
    "\<forall>i<length ms0. src (moves r ! i) = NoLocation \<or> IsConstant (src (ms0 ! i))"
    using perform_moves_ok [OF ok resolver_inv_start [OF ok proper], of "[0..<length ms0]"]
    by (auto simp: atLeast0LessThan)
  obtain r' where r': "perform_constants [0..<length ms0] r = Some r'"
    "constants_inv m0 ms0 {0..<length ms0} r'"
    using perform_constants_ok [OF ok heap constants_inv_start [OF ok r(2,3)], of "[0..<length ms0]"]
    by (auto simp: atLeast0LessThan)
  then show ?thesis using r(1) by (auto simp: constants_inv_def all_set_conv_all_nth)
qed

definition wanted :: "move_operands list \<Rightarrow> move_operands list" where
  "wanted ms = filter (\<lambda>m. dest m \<noteq> NoLocation) ms"

text \<open>
  C2: \<open>EmitNativeCode\<close> implements the parallel assignment. For moves with distinct destinations,
  whose operands are of one class (general or floating point) and which avoid the two registers
  reserved for the assembler, the resolver returns: no assertion fails and the traversal ends, for
  every graph of moves, cycles included. After the emitted code every wanted destination holds the
  value its source had before, or the constant; and no other register or stack slot has changed. Either no
  double stack slot takes part, or no quad stack slot does and all values are of 64 bits.
\<close>

theorem EmitNativeCode_correct:
  assumes "list_all operands_ok parallel_move" and "resolvable narrow m (wanted parallel_move)"
    and "doubles_in_heap m"
  shows "\<exists>code. EmitNativeCode parallel_move = Some code \<and>
    (\<forall>mv\<in>set (wanted parallel_move). performed m (run_code code m) mv) \<and>
    same_off (dest ` set (wanted parallel_move) \<union> temps) m (run_code code m)"
proof -
  let ?ms = "filter (\<lambda>m. src m \<noteq> dest m) (wanted parallel_move)"
  have ok: "resolvable narrow m ?ms" using assms(2) by (rule resolvable_filter)
  have ms: "BuildInitialMoveList parallel_move = Some ?ms"
    using BuildInitialMoveList_eq [OF assms(1)] by (simp add: wanted_def conj_commute)
  obtain r r' where r: "perform_moves [0..<length ?ms] \<lparr>moves = ?ms, emitted = []\<rparr> = Some r"
    "perform_constants [0..<length ?ms] r = Some r'"
    and perf: "\<forall>mv\<in>set ?ms. performed m (machine_of m r') mv"
    and off: "same_off (dest ` set ?ms \<union> temps) m (machine_of m r')"
    using resolve_list_ok [OF ok _ assms(3)] by auto
  have "performed m (machine_of m r') mv" if mv: "mv \<in> set (wanted parallel_move)" for mv
  proof (cases "src mv = dest mv")
    case True
    have al: "allowed narrow (dest mv)" using assms(2) mv by (simp add: resolvable_def)
    have "dest mv \<notin> dest ` set ?ms"
    proof
      assume "dest mv \<in> dest ` set ?ms"
      then obtain mv' where mv': "mv' \<in> set ?ms" "dest mv = dest mv'" by blast
      have "inj_on dest (set (wanted parallel_move))"
        using assms(2) by (simp add: resolvable_def distinct_map)
      then have "mv = mv'" using mv mv' by (auto dest: inj_onD)
      then show False using mv' True by simp
    qed
    then have "cell (machine_of m r') (dest mv) = cell m (dest mv)"
      using off allowed_no_temp [OF al] unfolding same_off_def by blast
    then show ?thesis using performed_nonconst [of mv] allowed_proper(2) [OF al] unfolding True by blast
  next
    case False
    then show ?thesis using perf mv by simp
  qed
  moreover have "same_off (dest ` set (wanted parallel_move) \<union> temps) m (machine_of m r')"
    by (rule same_off_mono [OF off]) auto
  moreover have "EmitNativeCode parallel_move = Some (emitted r')"
    using ms r by (simp add: EmitNativeCode_def)
  ultimately show ?thesis by (auto simp: machine_of_def)
qed

definition move_to :: "location \<Rightarrow> location \<Rightarrow> move_operands" where
  "move_to d s = \<lparr>dest = d, src = s\<rparr>"

definition sample_machine :: machine where
  "sample_machine = \<lparr>cell = (\<lambda>l. case l of Register n \<Rightarrow> of_nat n + 100 | _ \<Rightarrow> 7), pushed = [],
     object_word = (\<lambda>c. case c of DoubleConstant b \<Rightarrow> b | _ \<Rightarrow> 1), double_field = (\<lambda>w. w)\<rparr>"

definition sample_moves :: "move_operands list" where
  "sample_moves =
     [move_to (Register 1) (Register 0), move_to (Register 2) (Constant (SmiConstant 5 False)),
      move_to (StackSlot 5 1) (Register 1), move_to (Register 0) (StackSlot 5 1),
      move_to (Register 3) (Register 1)]"

theorem EmitNativeCode_correct_witness:
  "resolvable True sample_machine (wanted sample_moves) \<and>
   (\<exists>code. EmitNativeCode sample_moves = Some code \<and>
      performed sample_machine (run_code code sample_machine) (move_to (StackSlot 5 1) (Register 1)) \<and>
      cell (run_code code sample_machine) (StackSlot 5 1) = 101)"
proof -
  have res: "resolvable True sample_machine (wanted sample_moves)"
    by (simp add: resolvable_def wanted_def sample_moves_def move_to_def sample_machine_def
        class_simps source_fits_def constant_fits_def temps_def TMP_def FpuTMP_def)
  have "list_all operands_ok sample_moves" "doubles_in_heap sample_machine"
    by (simp_all add: sample_moves_def move_to_def operands_ok_def doubles_in_heap_def sample_machine_def)
  from EmitNativeCode_correct [OF this(1) res this(2)]
  obtain code where code: "EmitNativeCode sample_moves = Some code"
    "\<forall>mv\<in>set (wanted sample_moves). performed sample_machine (run_code code sample_machine) mv"
    by blast
  have "move_to (StackSlot 5 1) (Register 1) \<in> set (wanted sample_moves)"
    by (simp add: wanted_def sample_moves_def move_to_def)
  then have p: "performed sample_machine (run_code code sample_machine) (move_to (StackSlot 5 1) (Register 1))"
    using code(2) by blast
  then have "cell (run_code code sample_machine) (StackSlot 5 1) = 101"
    by (simp add: performed_def move_to_def sample_machine_def)
  then show ?thesis using res code(1) p by blast
qed

lemmas resolver_simps =
  EmitNativeCode_def PerformMove_def begin_move_def end_move_def EmitMove_def
  EmitSwap_def MarkPending_def ClearPending_def Eliminate_def operands_ok_def move_to_def
  move_code_def swap_code_def MoveMemoryToMemory_def TMP_def FpuTMP_def set_move_def upt_rec nth_Cons' numeral_2_eq_2 Let_def

text \<open>
  C39: The cycle through a double stack slot. The moves \<open>F1 \<rightarrow> F2\<close>, \<open>F2 \<rightarrow> D\<close>, \<open>D \<rightarrow> F1\<close> are resolved
  by two swaps of a register with the slot, which copy 64 bits, so the value that goes from one
  register to the other loses its upper half on the way, although both of its operands hold 128
  bits. With the moves in another order the same set of moves swaps the registers and keeps it.
\<close>

theorem EmitSwap_truncates:
  "\<exists>code code'. EmitNativeCode
      [move_to (FpuRegister 2) (FpuRegister 1), move_to (DoubleStackSlot 0) (FpuRegister 2),
       move_to (FpuRegister 1) (DoubleStackSlot 0)] = Some code \<and>
    cell (run_code code m) (FpuRegister 2) = take_bit 64 (cell m (FpuRegister 1)) \<and>
    EmitNativeCode
      [move_to (FpuRegister 1) (DoubleStackSlot 0), move_to (FpuRegister 2) (FpuRegister 1),
       move_to (DoubleStackSlot 0) (FpuRegister 2)] = Some code' \<and>
    cell (run_code code' m) (FpuRegister 2) = cell m (FpuRegister 1)"
proof -
  let ?swap = "[Movsd (FpuRegister 0) (DoubleStackSlot 0), Movsd (DoubleStackSlot 0) (FpuRegister 1),
    Movaps (FpuRegister 1) (FpuRegister 0), Movsd (FpuRegister 0) (DoubleStackSlot 0),
    Movsd (DoubleStackSlot 0) (FpuRegister 2), Movaps (FpuRegister 2) (FpuRegister 0)]"
  let ?keep = "[Movsd (FpuRegister 0) (DoubleStackSlot 0), Movsd (DoubleStackSlot 0) (FpuRegister 2),
    Movaps (FpuRegister 2) (FpuRegister 0), Movaps (FpuRegister 0) (FpuRegister 1),
    Movaps (FpuRegister 1) (FpuRegister 2), Movaps (FpuRegister 2) (FpuRegister 0)]"
  have "EmitNativeCode
      [move_to (FpuRegister 2) (FpuRegister 1), move_to (DoubleStackSlot 0) (FpuRegister 2),
       move_to (FpuRegister 1) (DoubleStackSlot 0)] = Some ?swap"
    by (simp add: resolver_simps, (subst block_loop.simps, simp add: resolver_simps)+)
  moreover have "cell (run_code ?swap m) (FpuRegister 2) = take_bit 64 (cell m (FpuRegister 1))"
    by (simp add: run_code_def write_cell_def)
  moreover have "EmitNativeCode
      [move_to (FpuRegister 1) (DoubleStackSlot 0), move_to (FpuRegister 2) (FpuRegister 1),
       move_to (DoubleStackSlot 0) (FpuRegister 2)] = Some ?keep"
    by (simp add: resolver_simps, (subst block_loop.simps, simp add: resolver_simps)+)
  moreover have "cell (run_code ?keep m) (FpuRegister 2) = cell m (FpuRegister 1)"
    by (simp add: run_code_def write_cell_def)
  ultimately show ?thesis by blast
qed

subsection \<open>Types of the emitted instructions\<close>

text \<open>
  The operands an x64 instruction accepts: a move of the integer unit has a general register on one
  side at least, an exchange and an aligned move have registers on both, and a scalar or unaligned
  move of the floating point unit transfers between a register and a slot of its width.
\<close>

fun well_typed :: "instr \<Rightarrow> bool" where
  "well_typed (Movq d s) \<longleftrightarrow> word_class d \<and> word_class s \<and> (IsRegister d \<or> IsRegister s)"
| "well_typed (Xorq d s) \<longleftrightarrow> word_class d \<and> word_class s \<and> (IsRegister d \<or> IsRegister s)"
| "well_typed (Xchgq a b) \<longleftrightarrow> IsRegister a \<and> IsRegister b"
| "well_typed (Movaps d s) \<longleftrightarrow> IsFpuRegister d \<and> IsFpuRegister s"
| "well_typed (Movsd d s) \<longleftrightarrow>
     IsFpuRegister d \<and> IsDoubleStackSlot s \<or> IsDoubleStackSlot d \<and> IsFpuRegister s"
| "well_typed (Movups d s) \<longleftrightarrow>
     IsFpuRegister d \<and> IsQuadStackSlot s \<or> IsQuadStackSlot d \<and> IsFpuRegister s"
| "well_typed (Xorps d s) \<longleftrightarrow> IsFpuRegister d \<and> IsFpuRegister s"
| "well_typed (MovlImm d v) \<longleftrightarrow> IsRegister d \<and> kMinInt32 \<le> v \<and> v \<le> kMaxInt32"
| "well_typed (Movl d s) \<longleftrightarrow> IsStackSlot d \<and> IsRegister s"
| "well_typed (LoadObject d c) \<longleftrightarrow> IsRegister d"
| "well_typed (StoreObject d c) \<longleftrightarrow> IsStackSlot d"
| "well_typed (MovsdField d) \<longleftrightarrow> IsFpuRegister d"
| "well_typed (SpillFpu s) \<longleftrightarrow> IsFpuRegister s"
| "well_typed (RestoreFpu d) \<longleftrightarrow> IsFpuRegister d"

lemma constant_code_typed: "constant_code c d = Some code \<Longrightarrow> list_all well_typed code"
  by (auto simp: constant_code_def movl_immediate_def word_class_def TMP_def FpuTMP_def
      split: if_splits option.splits)

lemma move_code_typed:
  assumes "move_code s d = Some code" shows "list_all well_typed code"
proof (cases s)
  case (Constant c)
  then show ?thesis using assms constant_code_typed by (simp add: move_code_def)
qed (use assms in \<open>auto simp: move_code_def MoveMemoryToMemory_def word_class_def TMP_def FpuTMP_def
       split: if_splits\<close>)

lemma with_scratch_fpu_typed:
  assumes "with_scratch_fpu ms b body = Some code"
    and "\<And>reg. IsFpuRegister reg \<Longrightarrow> list_all well_typed (body reg)"
  shows "list_all well_typed code"
  using assms by (auto simp: with_scratch_fpu_def split: if_splits)

lemma swap_code_typed:
  assumes "swap_code ms s d = Some code" shows "list_all well_typed code"
  using assms
  by (cases s; cases d)
    (auto simp: swap_code_def ExchangeRegister_def ExchangeMemory_def word_class_def TMP_def
      FpuTMP_def Let_def elim!: with_scratch_fpu_typed)

definition emits_typed :: "resolver \<Rightarrow> resolver \<Rightarrow> bool" where
  "emits_typed r r' \<longleftrightarrow> list_all well_typed (emitted r) \<longrightarrow> list_all well_typed (emitted r')"

lemma emits_typed_refl [simp]: "emits_typed r r"
  by (simp add: emits_typed_def)

lemma emits_typed_trans: "emits_typed a b \<Longrightarrow> emits_typed b c \<Longrightarrow> emits_typed a c"
  by (simp add: emits_typed_def)

lemma EmitMove_typed: "EmitMove i r = Some r' \<Longrightarrow> emits_typed r r'"
  by (auto simp: EmitMove_def Let_def emits_typed_def dest: move_code_typed)

lemma EmitSwap_typed: "EmitSwap i r = Some r' \<Longrightarrow> emits_typed r r'"
  by (auto simp: EmitSwap_def Let_def emits_typed_def dest: swap_code_typed)

lemma begin_move_typed: "begin_move i r = Some (r', d) \<Longrightarrow> emits_typed r r'"
  by (auto simp: begin_move_def Let_def emits_typed_def)

lemma set_move_typed [simp]: "emits_typed (set_move i m r) r' \<longleftrightarrow> emits_typed r r'"
  by (simp add: emits_typed_def)

lemma end_move_typed:
  assumes "end_move i d r = Some r'" shows "emits_typed r r'"
proof -
  have "\<exists>m. r' = set_move i (Eliminate m) (set_move i m r) \<or>
      EmitSwap i (set_move i m r) = Some r' \<or> EmitMove i (set_move i m r) = Some r'"
    using assms by (auto simp: end_move_def Let_def split: if_splits) blast+
  then obtain m where "emits_typed (set_move i m r) r'"
    using EmitMove_typed EmitSwap_typed by (auto simp: emits_typed_def)
  then show ?thesis by simp
qed

lemmas step_typed = EmitMove_typed begin_move_typed end_move_typed

lemma block_loop_typed: "block_loop d i r = Some r' \<Longrightarrow> emits_typed r r'"
proof (induction rule: block_loop.raw_induct [rotated, consumes 1, case_names step])
  case (step loop d i r r')
  note IH = step(1) and call = step(2)
  from call show ?case
    by (auto split: if_splits dest!: step_typed IH) (meson emits_typed_trans)
qed

lemma PerformMove_typed: "PerformMove i r = Some r' \<Longrightarrow> emits_typed r r'"
  by (auto simp: PerformMove_def dest!: step_typed block_loop_typed intro: emits_typed_trans)

lemma perform_moves_typed: "perform_moves is r = Some r' \<Longrightarrow> emits_typed r r'"
proof (induction "is" arbitrary: r)
  case (Cons i "is")
  from Cons.prems show ?case
    by (auto split: if_splits dest!: PerformMove_typed Cons.IH intro: emits_typed_trans)
qed simp

lemma perform_constants_typed: "perform_constants is r = Some r' \<Longrightarrow> emits_typed r r'"
proof (induction "is" arbitrary: r)
  case (Cons i "is")
  from Cons.prems show ?case
    by (auto split: if_splits dest!: step_typed Cons.IH intro: emits_typed_trans)
qed simp

text \<open>
  C40: The code that \<open>EmitNativeCode\<close> returns is well typed, for every set of moves: each
  instruction has operands that x64 can encode, in particular none has two memory operands, and the
  width of a floating point transfer is that of its slot.
\<close>

theorem EmitNativeCode_well_typed:
  assumes "EmitNativeCode parallel_move = Some code"
  shows "list_all well_typed code"
  using assms
  by (auto simp: EmitNativeCode_def emits_typed_def dest!: perform_moves_typed perform_constants_typed)

theorem EmitNativeCode_well_typed_witness:
  "EmitNativeCode [move_to (StackSlot 5 1) (StackSlot 5 2)]
     = Some [Movq (Register 11) (StackSlot 5 2), Movq (StackSlot 5 1) (Register 11)] \<and>
   list_all well_typed [Movq (Register 11) (StackSlot 5 2), Movq (StackSlot 5 1) (Register 11)]"
proof -
  have "EmitNativeCode [move_to (StackSlot 5 1) (StackSlot 5 2)]
     = Some [Movq (Register 11) (StackSlot 5 2), Movq (StackSlot 5 1) (Register 11)]"
    by (simp add: resolver_simps, (subst block_loop.simps, simp add: resolver_simps)+)
  then show ?thesis using EmitNativeCode_well_typed by blast
qed

end
