(* ===== verification/Bit_Set.thy ===== *)
theory Bit_Set
  imports Dart_Utils
begin

text \<open>
  The bit set of \<open>vm/bit_set.h\<close>, with the bit counts of \<open>platform/utils_linux.h\<close>. A \<open>BitSet<N>\<close> is an
  array of 64-bit words. The operations are shown to be those of a set of indices, among them the
  search of the next element and of the greatest one.
\<close>

unbundle bit_operations_syntax

subsection \<open>Operations\<close>

text \<open>The compiler builtins are not defined for 0.\<close>

definition CountTrailingZeros :: "uword \<Rightarrow> int option" where
  "CountTrailingZeros x = map_option int (find (bit x) [0..<64])"

definition CountLeadingZeros :: "uword \<Rightarrow> int option" where
  "CountLeadingZeros x = map_option int (find (\<lambda>i. bit x (63 - i)) [0..<64])"

type_synonym bit_set = "uword list"

definition kBitsPerWordLog2 :: nat where
  "kBitsPerWordLog2 = 6"

definition kLengthInWords :: "int \<Rightarrow> int" where
  "kLengthInWords n = 1 + (n - 1) div 64"

definition word_index :: "int \<Rightarrow> int" where
  "word_index i = drop_bit kBitsPerWordLog2 i"

definition bit_index :: "int \<Rightarrow> nat" where
  "bit_index i = nat (i AND 63)"

definition BitSet_Reset :: "int \<Rightarrow> bit_set" where
  "BitSet_Reset n = replicate (nat (kLengthInWords n)) 0"

definition BitSet_Set :: "int \<Rightarrow> int \<Rightarrow> bool \<Rightarrow> bit_set \<Rightarrow> bit_set option" where
  "BitSet_Set n i v xs = do {
     ASSERT (i \<ge> 0);
     ASSERT (i < n);
     let m = push_bit (bit_index i) 1;
     d \<leftarrow> read_at xs (word_index i);
     write_at xs (word_index i) (if v then d OR m else d AND NOT m) }"

definition BitSet_Test :: "int \<Rightarrow> int \<Rightarrow> bit_set \<Rightarrow> bool option" where
  "BitSet_Test n i xs = do {
     ASSERT (i \<ge> 0);
     ASSERT (i < n);
     let m = push_bit (bit_index i) 1;
     d \<leftarrow> read_at xs (word_index i);
     Some (d AND m \<noteq> 0) }"

function next_word_loop :: "int \<Rightarrow> int \<Rightarrow> bit_set \<Rightarrow> int option" where
  "next_word_loop n w xs =
     (if w < kLengthInWords n then do {
        d \<leftarrow> read_at xs w;
        if d \<noteq> 0 then do {
          tz \<leftarrow> CountTrailingZeros d;
          Some (push_bit kBitsPerWordLog2 w + tz) }
        else next_word_loop n (w + 1) xs }
      else Some (- 1))"
  by pat_completeness auto

termination
  by (relation "measure (\<lambda>(n, w, xs). nat (kLengthInWords n - w))") auto

definition BitSet_Next :: "int \<Rightarrow> int \<Rightarrow> bit_set \<Rightarrow> int option" where
  "BitSet_Next n i xs = do {
     ASSERT (i \<ge> 0);
     ASSERT (i < n);
     let w = word_index i;
     let m = push_bit (bit_index i) (NOT 0);
     d \<leftarrow> read_at xs w;
     if d AND m \<noteq> 0 then do {
       tz \<leftarrow> CountTrailingZeros (d AND m);
       Some (push_bit kBitsPerWordLog2 w + tz) }
     else next_word_loop n (w + 1) xs }"

function last_word_loop :: "int \<Rightarrow> bit_set \<Rightarrow> int option" where
  "last_word_loop w xs =
     (if w \<ge> 0 then do {
        d \<leftarrow> read_at xs w;
        if d \<noteq> 0 then do {
          lz \<leftarrow> CountLeadingZeros d;
          Some (push_bit kBitsPerWordLog2 (w + 1) - lz - 1) }
        else last_word_loop (w - 1) xs }
      else Some (- 1))"
  by pat_completeness auto

termination
  by (relation "measure (\<lambda>(w, xs). nat (w + 1))") auto

definition BitSet_Last :: "int \<Rightarrow> bit_set \<Rightarrow> int option" where
  "BitSet_Last n xs = last_word_loop (kLengthInWords n - 1) xs"

function previous_word_loop :: "uword \<Rightarrow> int \<Rightarrow> bit_set \<Rightarrow> (uword \<times> int) option" where
  "previous_word_loop bits w xs =
     (if bits = 0 \<and> w > 0 then do {
        bits \<leftarrow> read_at xs (w - 1);
        previous_word_loop bits (w - 1) xs }
      else Some (bits, w))"
  by pat_completeness auto

termination
  by (relation "measure (\<lambda>(bits, w, xs). nat w)") auto

definition ClearLastAndFindPrevious :: "int \<Rightarrow> int \<Rightarrow> bit_set \<Rightarrow> (bit_set \<times> int) option" where
  "ClearLastAndFindPrevious n current_last xs = do {
     t \<leftarrow> BitSet_Test n current_last xs;
     ASSERT t;
     l \<leftarrow> BitSet_Last n xs;
     ASSERT (l = current_last);
     let w = word_index current_last;
     bits \<leftarrow> read_at xs w;
     let bits = bits XOR push_bit (bit_index current_last) 1;
     xs \<leftarrow> write_at xs w bits;
     (bits, w) \<leftarrow> previous_word_loop bits w xs;
     if bits = 0 then Some (xs, - 1)
     else do {
       lz \<leftarrow> CountLeadingZeros bits;
       Some (xs, push_bit kBitsPerWordLog2 (w + 1) - lz - 1) } }"

subsection \<open>The set of indices\<close>

definition elems :: "bit_set \<Rightarrow> nat set" where
  "elems xs = {i. i < 64 * length xs \<and> bit (xs ! (i div 64)) (i mod 64)}"

definition bit_set_ok :: "int \<Rightarrow> bit_set \<Rightarrow> bool" where
  "bit_set_ok n xs \<longleftrightarrow> 0 < n \<and> int (length xs) = kLengthInWords n \<and> (\<forall>i\<in>elems xs. int i < n)"

declare next_word_loop.simps [simp del] last_word_loop.simps [simp del] previous_word_loop.simps [simp del]

definition least_from :: "nat set \<Rightarrow> nat \<Rightarrow> int" where
  "least_from A i = (if \<exists>j\<in>A. i \<le> j then int (LEAST j. j \<in> A \<and> i \<le> j) else - 1)"

definition greatest :: "nat set \<Rightarrow> int" where
  "greatest A = (if A = {} then - 1 else int (Max A))"

lemma least_fromI: "j \<in> A \<Longrightarrow> i \<le> j \<Longrightarrow> (\<And>k. k \<in> A \<Longrightarrow> i \<le> k \<Longrightarrow> j \<le> k) \<Longrightarrow> least_from A i = int j"
  unfolding least_from_def by (auto intro!: Least_equality)

lemma least_from_none: "(\<And>j. j \<in> A \<Longrightarrow> j < i) \<Longrightarrow> least_from A i = - 1"
  unfolding least_from_def by (auto simp: not_le dest: less_le_not_le [THEN iffD1])

lemma least_from_cases:
  obtains (none) "least_from A i = - 1" "\<And>j. j \<in> A \<Longrightarrow> j < i"
  | (least) j where "least_from A i = int j" "j \<in> A" "i \<le> j" "\<And>k. k \<in> A \<Longrightarrow> i \<le> k \<Longrightarrow> j \<le> k"
proof (cases "\<exists>j. j \<in> A \<and> i \<le> j")
  case True
  then have "(LEAST j. j \<in> A \<and> i \<le> j) \<in> A \<and> i \<le> (LEAST j. j \<in> A \<and> i \<le> j)" by (rule LeastI_ex)
  moreover have "least_from A i = int (LEAST j. j \<in> A \<and> i \<le> j)" using True by (auto simp: least_from_def)
  moreover have "(LEAST j. j \<in> A \<and> i \<le> j) \<le> k" if "k \<in> A" "i \<le> k" for k
    using that by (intro Least_le) simp
  ultimately show ?thesis using least by blast
next
  case False
  then show ?thesis by (intro none) (auto simp: least_from_def not_le)
qed

lemma finite_elems [simp]: "finite (elems xs)"
  by (rule finite_subset [of _ "{..<64 * length xs}"]) (auto simp: elems_def)

lemma greatestI:
  assumes "finite A" "j \<in> A" "\<And>k. k \<in> A \<Longrightarrow> k \<le> j"
  shows "greatest A = int j"
  using assms Max_eqI [of A j] by (auto simp: greatest_def)

lemma greatest_eq_iff:
  assumes "finite A" "i \<in> A"
  shows "greatest A = int i \<longleftrightarrow> (\<forall>k\<in>A. k \<le> i)"
proof -
  have "greatest A = int (Max A)" using assms(2) by (auto simp: greatest_def)
  moreover have "Max A = i \<longleftrightarrow> (\<forall>k\<in>A. k \<le> i)"
    using assms Max_eq_iff [of A i] by auto
  ultimately show ?thesis by simp
qed

lemma CountTrailingZeros_nonzero:
  fixes x :: uword
  assumes "x \<noteq> 0"
  obtains k where "CountTrailingZeros x = Some (int k)" "k < 64" "bit x k" "\<forall>j<k. \<not> bit x j"
proof -
  have "\<exists>k<64. bit x k" using assms by (auto simp: bit_eq_iff dest: bit_imp_le_length)
  then have "find (bit x) [0..<64] \<noteq> None" by (auto simp: find_None_iff)
  then obtain k where k: "find (bit x) [0..<64] = Some k" by auto
  then show ?thesis using that [of k] by (auto simp: CountTrailingZeros_def find_Some_iff)
qed

lemma CountLeadingZeros_nonzero:
  fixes x :: uword
  assumes "x \<noteq> 0"
  obtains k where "CountLeadingZeros x = Some (63 - int k)" "k < 64" "bit x k"
    "\<forall>j>k. \<not> bit x j"
proof -
  obtain b where b: "b < 64" "bit x b" using assms by (auto simp: bit_eq_iff dest: bit_imp_le_length)
  have "find (\<lambda>i. bit x (63 - i)) [0..<64] \<noteq> None"
    using b by (auto simp: find_None_iff intro!: exI [of _ "63 - b"])
  then obtain k where k: "find (\<lambda>i. bit x (63 - i)) [0..<64] = Some k" by auto
  then have k2: "k < 64" "bit x (63 - k)" "\<forall>j<k. \<not> bit x (63 - j)" by (auto simp: find_Some_iff)
  have "\<not> bit x j" if "63 - k < j" for j
  proof
    assume j: "bit x j"
    then have "j < 64" by (auto dest: bit_imp_le_length)
    then have "63 - j < k" "63 - (63 - j) = j" using that k2(1) by simp_all
    then show False using k2(3) j by metis
  qed
  then show ?thesis using that [of "63 - k"] k k2 by (simp add: CountLeadingZeros_def)
qed

lemma word_index_int [simp]: "word_index (int i) = int (i div 64)"
  by (simp add: word_index_def kBitsPerWordLog2_def drop_bit_eq_div zdiv_int)

lemma bit_index_int [simp]: "bit_index (int i) = i mod 64"
proof -
  have "int i AND 63 = take_bit 6 (int i)" by (simp add: take_bit_eq_mask mask_eq_exp_minus_1)
  then show ?thesis by (simp add: bit_index_def take_bit_eq_mod nat_mod_as_int)
qed

lemma push_index [simp]: "push_bit kBitsPerWordLog2 w = 64 * w" for w :: int
  by (simp add: kBitsPerWordLog2_def push_bit_eq_mult)

lemma elems_word: "k < 64 \<Longrightarrow> 64 * w + k \<in> elems xs \<longleftrightarrow> w < length xs \<and> bit (xs ! w) k"
  by (auto simp: elems_def)

lemma elems_split:
  assumes "i \<in> elems xs"
  obtains w k where "i = 64 * w + k" "k < 64" "w < length xs" "bit (xs ! w) k"
  using assms that [of "i div 64" "i mod 64"] by (auto simp: elems_def)

lemma least_from_cong:
  "(\<And>j. j \<in> A \<Longrightarrow> i \<le> j \<longleftrightarrow> i' \<le> j) \<Longrightarrow> least_from A i = least_from A i'"
  unfolding least_from_def by (simp cong: conj_cong bex_cong)

lemma elems_zero_word: "i \<in> elems xs \<Longrightarrow> xs ! w = 0 \<Longrightarrow> 64 * w \<le> i \<longleftrightarrow> 64 * Suc w \<le> i"
proof (erule elems_split)
  fix v k assume v: "i = 64 * v + k" "k < 64" "bit (xs ! v) k" and "xs ! w = 0"
  then have "v < w \<or> w < v" by (metis bit_0_eq bot_apply bot_bool_def nat_neq_iff)
  then show ?thesis using v by auto
qed

lemma next_word_loop_eq:
  assumes len: "int (length xs) = kLengthInWords n" and "w \<le> length xs"
  shows "next_word_loop n (int w) xs = Some (least_from (elems xs) (64 * w))"
  using assms(2)
proof (induction "length xs - w" arbitrary: w)
  case 0
  then have "least_from (elems xs) (64 * w) = - 1" by (intro least_from_none) (auto simp: elems_def)
  then show ?case using 0 len by (simp add: next_word_loop.simps)
next
  case (Suc d)
  then have w: "w < length xs" by simp
  have un: "next_word_loop n (int w) xs = (if xs ! w \<noteq> 0
      then do { tz \<leftarrow> CountTrailingZeros (xs ! w); Some (64 * int w + tz) }
      else next_word_loop n (int (Suc w)) xs)"
    using w len by (subst next_word_loop.simps) (simp add: add.commute)
  show ?case
  proof (cases "xs ! w = 0")
    case True
    have "least_from (elems xs) (64 * w) = least_from (elems xs) (64 * Suc w)"
      using elems_zero_word [OF _ True] by (intro least_from_cong) auto
    moreover have "next_word_loop n (int (Suc w)) xs = Some (least_from (elems xs) (64 * Suc w))"
      by (rule Suc.hyps(1)) (use Suc.hyps(2) w in auto)
    ultimately show ?thesis using un True by simp
  next
    case False
    then obtain k where k: "CountTrailingZeros (xs ! w) = Some (int k)" "k < 64" "bit (xs ! w) k"
      "\<forall>j<k. \<not> bit (xs ! w) j" by (rule CountTrailingZeros_nonzero)
    have "least_from (elems xs) (64 * w) = int (64 * w + k)"
    proof (rule least_fromI)
      show "64 * w + k \<in> elems xs" using k w by (simp add: elems_word)
      fix i assume i: "i \<in> elems xs" "64 * w \<le> i"
      from i(1) show "64 * w + k \<le> i"
      proof (rule elems_split)
        fix v b assume v: "i = 64 * v + b" "b < 64" "v < length xs" "bit (xs ! v) b"
        then have "v = w \<Longrightarrow> k \<le> b" using k(4) by (auto simp: not_less [symmetric])
        then show ?thesis using v i(2) k(2) by (cases "v = w") auto
      qed
    qed simp
    then show ?thesis using un False k(1) by simp
  qed
qed

lemma bit_set_okD:
  assumes "bit_set_ok n xs"
  shows "int (length xs) = kLengthInWords n" and "i \<in> elems xs \<Longrightarrow> int i < n"
    and "0 \<le> j \<Longrightarrow> j < n \<Longrightarrow> nat j div 64 < length xs"
proof -
  show len: "int (length xs) = kLengthInWords n" and "i \<in> elems xs \<Longrightarrow> int i < n"
    using assms by (auto simp: bit_set_ok_def)
  assume "0 \<le> j" "j < n"
  then have "int (nat j div 64) \<le> (n - 1) div 64" by (simp add: zdiv_int zdiv_mono1)
  then show "nat j div 64 < length xs" using len by (simp add: kLengthInWords_def)
qed

lemma BitSet_Test_eq:
  assumes "bit_set_ok n xs" and "int i < n"
  shows "BitSet_Test n (int i) xs = Some (i \<in> elems xs)"
proof -
  have w: "i div 64 < length xs" using bit_set_okD(3) [OF assms(1), of "int i"] assms(2) by simp
  have "xs ! (i div 64) AND push_bit (i mod 64) 1 \<noteq> 0 \<longleftrightarrow> bit (xs ! (i div 64)) (i mod 64)"
    by (simp add: bit_iff_and_push_bit_not_eq_0)
  moreover have "i < 64 * length xs" using w by linarith
  ultimately show ?thesis using w assms(2) by (simp add: BitSet_Test_def elems_def)
qed

lemma elems_update:
  assumes "w < length xs" and "k < 64"
  shows "64 * v + k \<in> elems (xs[w := d]) \<longleftrightarrow>
    (if v = w then bit d k else 64 * v + k \<in> elems xs)"
  using assms by (auto simp: elems_word)

lemma BitSet_Set_eq:
  assumes ok: "bit_set_ok n xs" and i: "int i < n"
  shows "\<exists>ys. BitSet_Set n (int i) v xs = Some ys \<and> bit_set_ok n ys \<and>
    elems ys = (if v then insert i (elems xs) else elems xs - {i})"
proof -
  let ?w = "i div 64" and ?k = "i mod 64"
  let ?d = "if v then xs ! ?w OR push_bit ?k 1 else xs ! ?w AND NOT (push_bit ?k 1)"
  have w: "?w < length xs" using bit_set_okD(3) [OF ok, of "int i"] i by simp
  have "BitSet_Set n (int i) v xs = Some (xs[?w := ?d])"
    using w i by (simp add: BitSet_Set_def)
  moreover have el: "j \<in> elems (xs[?w := ?d]) \<longleftrightarrow> (if v then j = i \<or> j \<in> elems xs else j \<in> elems xs \<and> j \<noteq> i)" for j
  proof -
    have j: "64 * (j div 64) + j mod 64 = j" by simp
    have "j = i \<longleftrightarrow> j div 64 = ?w \<and> j mod 64 = ?k" by (metis div_mult_mod_eq)
    moreover have "bit ?d (j mod 64) \<longleftrightarrow> (if v then bit (xs ! ?w) (j mod 64) \<or> j mod 64 = ?k
        else bit (xs ! ?w) (j mod 64) \<and> j mod 64 \<noteq> ?k)"
      by (auto simp: bit_simps)
    moreover have "j \<in> elems xs \<longleftrightarrow> j div 64 < length xs \<and> bit (xs ! (j div 64)) (j mod 64)"
      using elems_word [of "j mod 64" "j div 64" xs] by simp
    ultimately show ?thesis
      using elems_update [OF w, of "j mod 64" "j div 64" ?d] w unfolding j by auto
  qed
  moreover have "elems (xs[?w := ?d]) = (if v then insert i (elems xs) else elems xs - {i})"
    using el by auto
  moreover have "bit_set_ok n (xs[?w := ?d])"
    using ok i el unfolding bit_set_ok_def by (auto split: if_splits)
  ultimately show ?thesis by blast
qed

lemma word_order:
  "i = 64 * w + k \<Longrightarrow> k < 64 \<Longrightarrow> (v = w \<Longrightarrow> b < k) \<Longrightarrow> j = 64 * v + b \<Longrightarrow> b < 64
    \<Longrightarrow> i \<le> j \<longleftrightarrow> 64 * Suc w \<le> j" for i j :: nat
  by (cases v w rule: linorder_cases) auto

lemma BitSet_Next_eq:
  assumes ok: "bit_set_ok n xs" and i: "int i < n"
  shows "BitSet_Next n (int i) xs = Some (least_from (elems xs) i)"
proof -
  let ?w = "i div 64" and ?k = "i mod 64"
  let ?m = "xs ! ?w AND push_bit ?k (NOT 0)"
  have w: "?w < length xs" using bit_set_okD(3) [OF ok, of "int i"] i by simp
  have bit: "bit ?m j \<longleftrightarrow> bit (xs ! ?w) j \<and> ?k \<le> j" for j
    using bit_imp_le_length [of "xs ! ?w" j] by (auto simp: bit_simps)
  have un: "BitSet_Next n (int i) xs = (if ?m \<noteq> 0
      then do { tz \<leftarrow> CountTrailingZeros ?m; Some (64 * int ?w + tz) }
      else next_word_loop n (int (Suc ?w)) xs)"
    using w i by (simp add: BitSet_Next_def add.commute)
  show ?thesis
  proof (cases "?m = 0")
    case True
    have "i \<le> j \<longleftrightarrow> 64 * Suc ?w \<le> j" if "j \<in> elems xs" for j
      using that
    proof (rule elems_split)
      fix v b assume v: "j = 64 * v + b" "b < 64" "v < length xs" "bit (xs ! v) b"
      have "v = ?w \<Longrightarrow> b < ?k" using bit [of b] True v by (auto simp: not_le)
      moreover have "i = 64 * ?w + ?k" "?k < 64" by simp_all
      ultimately show ?thesis using v(1,2) word_order by metis
    qed
    then have "least_from (elems xs) i = least_from (elems xs) (64 * Suc ?w)" by (rule least_from_cong)
    moreover have "next_word_loop n (int (Suc ?w)) xs = Some (least_from (elems xs) (64 * Suc ?w))"
      by (rule next_word_loop_eq [OF bit_set_okD(1) [OF ok]]) (use w in simp)
    ultimately show ?thesis using un True by simp
  next
    case False
    then obtain k where k: "CountTrailingZeros ?m = Some (int k)" "k < 64" "bit ?m k"
      "\<forall>j<k. \<not> bit ?m j" by (rule CountTrailingZeros_nonzero)
    have "least_from (elems xs) i = int (64 * ?w + k)"
    proof (rule least_fromI)
      show "64 * ?w + k \<in> elems xs" using k bit w by (simp add: elems_word)
      have "i = 64 * ?w + ?k" by simp
      then show "i \<le> 64 * ?w + k" using k(3) bit by (metis add_le_cancel_left)
      fix j assume j: "j \<in> elems xs" "i \<le> j"
      from j(1) show "64 * ?w + k \<le> j"
      proof (rule elems_split)
        fix v b assume v: "j = 64 * v + b" "b < 64" "v < length xs" "bit (xs ! v) b"
        have i: "i = 64 * ?w + ?k" by simp
        show ?thesis
        proof (cases "v = ?w")
          case True
          then have "?k \<le> b" using j(2) v(1) i by linarith
          then have "k \<le> b" using k(4) bit v(4) True by (auto simp: not_less [symmetric])
          then show ?thesis using v(1) True by simp
        next
          case False
          then have "?w < v" using j(2) v(1,2) i by linarith
          then show ?thesis using v(1) k(2) by simp
        qed
      qed
    qed
    then show ?thesis using un False k(1) by simp
  qed
qed

lemma greatest_word:
  assumes "w < length xs" and "xs ! w \<noteq> 0" and "\<forall>v<length xs. w < v \<longrightarrow> xs ! v = 0"
  shows "\<exists>lz. CountLeadingZeros (xs ! w) = Some lz \<and> 64 * (int w + 1) - lz - 1 = greatest (elems xs)"
proof -
  obtain k where k: "CountLeadingZeros (xs ! w) = Some (63 - int k)" "k < 64" "bit (xs ! w) k"
    "\<forall>j>k. \<not> bit (xs ! w) j" using assms(2) by (rule CountLeadingZeros_nonzero)
  have "greatest (elems xs) = int (64 * w + k)"
  proof (rule greatestI)
    show "64 * w + k \<in> elems xs" using k assms(1) by (simp add: elems_word)
    fix i assume "i \<in> elems xs"
    then show "i \<le> 64 * w + k"
    proof (rule elems_split)
      fix v b assume v: "i = 64 * v + b" "b < 64" "v < length xs" "bit (xs ! v) b"
      have "v \<le> w" using v assms(3) by (metis bit_0_eq bot_apply bot_bool_def not_le)
      moreover have "v = w \<Longrightarrow> b \<le> k" using k(4) v(4) by (auto simp: not_less [symmetric])
      ultimately show ?thesis using v(1,2) by (cases "v = w") auto
    qed
  qed simp
  then show ?thesis using k(1) by simp
qed

lemma elems_all_zero: "(\<forall>v<length xs. xs ! v = 0) \<Longrightarrow> elems xs = {}"
  by (auto elim: elems_split)

lemma last_word_loop_eq:
  assumes "w \<le> length xs" and "\<forall>v<length xs. w \<le> v \<longrightarrow> xs ! v = 0"
  shows "last_word_loop (int w - 1) xs = Some (greatest (elems xs))"
  using assms
proof (induction w)
  case 0
  then show ?case by (simp add: last_word_loop.simps elems_all_zero greatest_def)
next
  case (Suc w)
  have un: "last_word_loop (int w) xs = (if xs ! w \<noteq> 0
      then do { lz \<leftarrow> CountLeadingZeros (xs ! w); Some (64 * (int w + 1) - lz - 1) }
      else last_word_loop (int w - 1) xs)"
    using Suc.prems(1) by (subst last_word_loop.simps) (simp add: algebra_simps)
  show ?case
  proof (cases "xs ! w = 0")
    case True
    then have "\<forall>v<length xs. w \<le> v \<longrightarrow> xs ! v = 0" using Suc.prems(2) by (metis Suc_leI le_neq_implies_less)
    then show ?thesis using un True Suc by simp
  next
    case False
    then obtain lz where "CountLeadingZeros (xs ! w) = Some lz"
      "64 * (int w + 1) - lz - 1 = greatest (elems xs)"
      using greatest_word [of w xs] Suc.prems by auto
    then show ?thesis using un False by simp
  qed
qed

lemma BitSet_Last_eq:
  assumes "bit_set_ok n xs"
  shows "BitSet_Last n xs = Some (greatest (elems xs))"
  unfolding BitSet_Last_def bit_set_okD(1) [OF assms, symmetric]
  by (rule last_word_loop_eq) auto

lemma previous_word_loop_eq:
  assumes "w < length xs" and "\<forall>v<length xs. w < v \<longrightarrow> xs ! v = 0"
  shows "\<exists>bits v. previous_word_loop (xs ! w) (int w) xs = Some (bits, int v) \<and> v < length xs \<and>
    bits = xs ! v \<and> (\<forall>u<length xs. v < u \<longrightarrow> xs ! u = 0) \<and> (bits = 0 \<longrightarrow> v = 0)"
  using assms
proof (induction w)
  case 0
  then show ?case by (auto simp: previous_word_loop.simps intro!: exI [of _ 0])
next
  case (Suc w)
  show ?case
  proof (cases "xs ! Suc w = 0")
    case True
    then have "previous_word_loop (xs ! Suc w) (int (Suc w)) xs = previous_word_loop (xs ! w) (int w) xs"
      using Suc.prems(1) by (subst previous_word_loop.simps) simp
    moreover have "\<forall>v<length xs. w < v \<longrightarrow> xs ! v = 0"
      using Suc.prems(2) True by (metis Suc_lessI)
    ultimately show ?thesis using Suc by simp
  next
    case False
    then show ?thesis
      using Suc.prems by (subst previous_word_loop.simps) (auto intro!: exI [of _ "Suc w"])
  qed
qed

lemma ClearLastAndFindPrevious_eq:
  assumes ok: "bit_set_ok n xs" and i: "i \<in> elems xs" "\<forall>j\<in>elems xs. j \<le> i"
  shows "\<exists>ys. ClearLastAndFindPrevious n (int i) xs = Some (ys, greatest (elems ys)) \<and>
    bit_set_ok n ys \<and> elems ys = elems xs - {i}"
proof -
  let ?w = "i div 64" and ?k = "i mod 64"
  have n: "int i < n" using bit_set_okD(2) [OF ok i(1)] .
  have w: "?w < length xs" using bit_set_okD(3) [OF ok, of "int i"] n by simp
  obtain ys where ys: "BitSet_Set n (int i) False xs = Some ys" "bit_set_ok n ys" "elems ys = elems xs - {i}"
    using BitSet_Set_eq [OF ok n, of False] by auto
  have bit: "bit (xs ! ?w) ?k" using i(1) by (simp add: elems_def)
  have "xs ! ?w XOR push_bit ?k 1 = xs ! ?w AND NOT (push_bit ?k 1)"
    by (rule bit_eqI) (use bit in \<open>auto simp: bit_simps\<close>)
  then have upd: "ys = xs[?w := xs ! ?w XOR push_bit ?k 1]"
    using ys(1) w n by (simp add: BitSet_Set_def)
  have high: "\<forall>v<length xs. ?w < v \<longrightarrow> xs ! v = 0"
  proof (intro allI impI)
    fix v assume v: "v < length xs" "?w < v"
    show "xs ! v = 0"
    proof (rule ccontr)
      assume "xs ! v \<noteq> 0"
      then obtain b where b: "b < 64" "bit (xs ! v) b" by (auto simp: bit_eq_iff dest: bit_imp_le_length)
      then have "64 * v + b \<le> i" using i(2) v(1) by (simp add: elems_word)
      then show False using v(2) by linarith
    qed
  qed
  then have high': "\<forall>v<length ys. ?w < v \<longrightarrow> ys ! v = 0" by (simp add: upd)
  have wy: "?w < length ys" "xs ! ?w XOR 2 ^ ?k = ys ! ?w" "xs[?w := ys ! ?w] = ys"
    using w by (simp_all add: upd)
  obtain bits v where loop: "previous_word_loop (ys ! ?w) (int ?w) ys = Some (bits, int v)"
    and v: "v < length ys" "bits = ys ! v" "\<forall>u<length ys. v < u \<longrightarrow> ys ! u = 0" "bits = 0 \<longrightarrow> v = 0"
    using previous_word_loop_eq [OF wy(1) high'] by blast
  have res: "(if bits = 0 then Some (ys, - 1) else do { lz \<leftarrow> CountLeadingZeros bits;
      Some (ys, 64 * (int v + 1) - lz - 1) }) = Some (ys, greatest (elems ys))"
  proof (cases "bits = 0")
    case True
    then have "\<forall>u<length ys. ys ! u = 0" using v by (metis gr0I)
    then show ?thesis using True by (simp add: elems_all_zero greatest_def)
  next
    case False
    then show ?thesis using greatest_word [OF v(1) _ v(3)] v(2) by auto
  qed
  have "greatest (elems xs) = int i" using greatest_eq_iff i by simp
  then have "ClearLastAndFindPrevious n (int i) xs = Some (ys, greatest (elems ys))"
    using BitSet_Test_eq [OF ok n] BitSet_Last_eq [OF ok] i(1) w loop res
    by (auto simp: ClearLastAndFindPrevious_def Let_def wy split: if_splits)
  then show ?thesis using ys by blast
qed

lemma BitSet_Reset_ok:
  assumes "0 < n"
  shows "bit_set_ok n (BitSet_Reset n) \<and> elems (BitSet_Reset n) = {}"
proof -
  have "0 \<le> (n - 1) div 64" using assms by (intro pos_imp_zdiv_nonneg_iff [THEN iffD2]) auto
  then have "0 \<le> kLengthInWords n" by (simp add: kLengthInWords_def)
  moreover have "elems (BitSet_Reset n) = {}" by (rule elems_all_zero) (simp add: BitSet_Reset_def)
  ultimately show ?thesis using assms by (simp add: bit_set_ok_def BitSet_Reset_def)
qed

subsection \<open>The interface of a searchable set of indices\<close>

text \<open>
  What the free lists use of the set: a test of one index and the search of the next one. From both
  they find the first list, at an index or above, that is not empty.
\<close>

locale index_set =
  fixes n :: int
    and invar :: "'s \<Rightarrow> bool"
    and members :: "'s \<Rightarrow> nat set"
    and test :: "int \<Rightarrow> 's \<Rightarrow> bool option"
    and next_index :: "int \<Rightarrow> 's \<Rightarrow> int option"
  assumes member_bound: "invar s \<Longrightarrow> i \<in> members s \<Longrightarrow> int i < n"
    and test_eq: "invar s \<Longrightarrow> int i < n \<Longrightarrow> test (int i) s = Some (i \<in> members s)"
    and next_eq: "invar s \<Longrightarrow> int i < n \<Longrightarrow> next_index (int i) s = Some (least_from (members s) i)"
begin

lemma test_cases:
  assumes "invar s" and "int i < n"
  obtains (found) "test (int i) s = Some True" "i \<in> members s" "least_from (members s) i = int i"
  | (above) "test (int i) s = Some False" "i \<notin> members s"
      "least_from (members s) i = least_from (members s) (Suc i)"
proof (cases "i \<in> members s")
  case True
  then show ?thesis using found assms test_eq by (simp add: least_fromI)
next
  case False
  then have "least_from (members s) i = least_from (members s) (Suc i)"
    by (intro least_from_cong) (metis Suc_leI Suc_leD le_neq_implies_less)
  then show ?thesis using above assms test_eq False by simp
qed

lemma none_above: "invar s \<Longrightarrow> n \<le> int i \<Longrightarrow> least_from (members s) i = - 1"
  by (rule least_from_none) (use member_bound in force)

lemma next_bound:
  assumes "invar s" and "least_from (members s) i \<noteq> - 1"
  obtains j where "least_from (members s) i = int j" "j \<in> members s" "i \<le> j" "int j < n"
  using least_from_cases [of "members s" i] member_bound [OF assms(1)] assms(2) by metis

end

interpretation bits: index_set n "bit_set_ok n" elems "BitSet_Test n" "BitSet_Next n" for n
  by unfold_locales (simp_all add: bit_set_okD(2) BitSet_Test_eq BitSet_Next_eq)

text \<open>
  C1: A \<open>BitSet<N>\<close> is a set of indices below \<open>N\<close>. On every set the operations return: \<open>Set\<close> inserts or
  removes an index, \<open>Test\<close> decides membership, \<open>Next\<close> finds the least element from an index on,
  \<open>Last\<close> the greatest one, and \<open>ClearLastAndFindPrevious\<close> removes the greatest element and returns the
  greatest one that is left; a search without a result yields \<open>- 1\<close>.
\<close>

theorem BitSet_refines_set:
  assumes "bit_set_ok n xs" and "int i < n"
  shows "BitSet_Test n (int i) xs = Some (i \<in> elems xs) \<and>
    BitSet_Next n (int i) xs = Some (least_from (elems xs) i) \<and>
    BitSet_Last n xs = Some (greatest (elems xs)) \<and>
    (\<exists>ys. BitSet_Set n (int i) True xs = Some ys \<and> bit_set_ok n ys \<and> elems ys = insert i (elems xs)) \<and>
    (\<exists>ys. BitSet_Set n (int i) False xs = Some ys \<and> bit_set_ok n ys \<and> elems ys = elems xs - {i}) \<and>
    (greatest (elems xs) = int i \<longrightarrow>
      (\<exists>ys. ClearLastAndFindPrevious n (int i) xs = Some (ys, greatest (elems ys)) \<and> bit_set_ok n ys \<and>
        elems ys = elems xs - {i}))"
proof -
  have "i \<in> elems xs \<and> (\<forall>j\<in>elems xs. j \<le> i)" if "greatest (elems xs) = int i"
  proof -
    have ne: "elems xs \<noteq> {}" and i: "i = Max (elems xs)" using that by (auto simp: greatest_def split: if_splits)
    show ?thesis unfolding i using Max_in [OF finite_elems ne] by simp
  qed
  then show ?thesis
    using BitSet_Test_eq [OF assms] BitSet_Next_eq [OF assms] BitSet_Last_eq [OF assms(1)]
      BitSet_Set_eq [OF assms, of True] BitSet_Set_eq [OF assms, of False]
      ClearLastAndFindPrevious_eq [OF assms(1), of i] by auto
qed

theorem BitSet_refines_set_witness:
  "bit_set_ok 128 [5, 1] \<and> elems [5, 1] = {0, 2, 64} \<and>
   BitSet_Next 128 3 [5, 1] = Some 64 \<and>
   (\<exists>ys. ClearLastAndFindPrevious 128 64 [5, 1] = Some (ys, 2))"
proof -
  have e: "elems [5, 1] = {0, 2, 64}"
  proof -
    have "i < 128 \<longleftrightarrow> i \<in> set [0..<128]" for i :: nat by auto
    then have "elems [5, 1] = set (filter (\<lambda>i. bit ([5, 1 :: uword] ! (i div 64)) (i mod 64)) [0..<128])"
      by (auto simp: elems_def)
    also have "\<dots> = {0, 2, 64}" by code_simp
    finally show ?thesis .
  qed
  have ok: "bit_set_ok 128 [5, 1]" by (simp add: bit_set_ok_def kLengthInWords_def e)
  have l: "least_from {0, 2, 64} 3 = 64" by (rule least_fromI [of 64, simplified]) auto
  have g: "greatest (elems [5, 1]) = int 64" "greatest ({0, 2, 64} - {64}) = 2"
    by (simp_all add: e greatest_def insert_Diff_if)
  show ?thesis
    using BitSet_refines_set [OF ok, of 3] BitSet_refines_set [OF ok, of 64] ok e l g by auto
qed

end
