(* ===== verification/Free_List.thy ===== *)
theory Free_List
  imports Bit_Set
begin

text \<open>
  The free lists of the old generation (\<open>vm/freelist.h/.cc\<close>), with the tag word of a heap object
  (\<open>vm/raw_object.h\<close>, \<open>vm/bitfield.h\<close>) and the protection of pages (\<open>vm/virtual_memory.cc\<close>,
  \<open>vm/virtual_memory_linux.cc\<close>) they use.

  A free block of memory is its own list element: its first words hold the tags with the sz, the
  pointer to the next element and, for large blocks, the sz. Addresses are integers below
  \<open>2 ^ 64\<close>, 0 is \<open>NULL\<close>. The memory maps the address of a word to its contents; a store to a page that
  is not writable faults.
\<close>

unbundle bit_operations_syntax

subsection \<open>Memory and page protection\<close>

record memory =
  word_at :: "int \<Rightarrow> uword"
  writable :: "int \<Rightarrow> bool"
  page_size :: uword

definition page :: "memory \<Rightarrow> int \<Rightarrow> int" where
  "page m a = a div uint (page_size m)"

definition store :: "int \<Rightarrow> uword \<Rightarrow> memory \<Rightarrow> memory option" where
  "store a v m = (if writable m (page m a) then Some (m\<lparr>word_at := (word_at m)(a := v)\<rparr>) else None)"

definition uword_add :: "int \<Rightarrow> int \<Rightarrow> int" where
  "uword_add a b = (a + b) mod 2 ^ 64"

datatype protection = kReadExecute | kReadWrite

text \<open>
  \<open>mprotect\<close> sets the protection of every page that has a byte in the range. The range is memory that
  was mapped before, for which it succeeds.
\<close>

definition mprotect :: "int \<Rightarrow> int \<Rightarrow> bool \<Rightarrow> memory \<Rightarrow> memory" where
  "mprotect start len w m = m\<lparr>writable := (\<lambda>p.
     if page m start \<le> p \<and> p * uint (page_size m) < start + len then w else writable m p)\<rparr>"

definition Protect :: "int \<Rightarrow> int \<Rightarrow> protection \<Rightarrow> memory \<Rightarrow> memory option" where
  "Protect start_address sz mode m = do {
     let end_address = uword_add start_address sz;
     page_address \<leftarrow> RoundDown (word_of_int start_address) (page_size m);
     Some (mprotect (uint page_address) (end_address - uint page_address) (mode = kReadWrite) m) }"

definition InSamePage :: "memory \<Rightarrow> int \<Rightarrow> int \<Rightarrow> bool option" where
  "InSamePage m address0 address1 = do {
     p0 \<leftarrow> RoundDown (word_of_int address0) (page_size m);
     p1 \<leftarrow> RoundDown (word_of_int address1) (page_size m);
     Some (p0 = p1) }"

subsection \<open>Tags\<close>

definition kWordSize :: int where [konst]: "kWordSize = 8"
definition kObjectAlignment :: int where [konst]: "kObjectAlignment = 16"
definition kObjectAlignmentLog2 :: nat where [konst]: "kObjectAlignmentLog2 = 4"
definition kSizeTagPos :: nat where [konst]: "kSizeTagPos = 16"
definition kSizeTagSize :: nat where [konst]: "kSizeTagSize = 16"
definition kClassIdTagPos :: nat where [konst]: "kClassIdTagPos = 32"
definition kClassIdTagSize :: nat where [konst]: "kClassIdTagSize = 32"
definition kFreeListElement :: int where [konst]: "kFreeListElement = 116"
definition kMaxSizeTag :: int where [konst]: "kMaxSizeTag = 1048560"

definition BitField_is_valid :: "nat \<Rightarrow> int \<Rightarrow> bool" where
  "BitField_is_valid sz v \<longleftrightarrow> (word_of_int v :: uword) AND NOT (push_bit sz 1 - 1) = 0"

definition BitField_decode :: "nat \<Rightarrow> nat \<Rightarrow> uword \<Rightarrow> int" where
  "BitField_decode pos sz v = sint (drop_bit pos v AND (push_bit sz 1 - 1))"

definition BitField_update :: "nat \<Rightarrow> nat \<Rightarrow> int \<Rightarrow> uword \<Rightarrow> uword option" where
  "BitField_update pos sz v original = do {
     ASSERT (BitField_is_valid sz v);
     Some (push_bit pos (word_of_int v) OR (NOT (push_bit pos (push_bit sz 1 - 1)) AND original)) }"

definition SizeToTagValue :: "int \<Rightarrow> int option" where
  "SizeToTagValue sz = do {
     aligned \<leftarrow> IsAligned (word_of_int sz) (word_of_int kObjectAlignment);
     ASSERT aligned;
     Some (if sz > kMaxSizeTag then 0 else drop_bit kObjectAlignmentLog2 sz) }"

definition SizeTag_update :: "int \<Rightarrow> uword \<Rightarrow> uword option" where
  "SizeTag_update sz tag = do {
     v \<leftarrow> SizeToTagValue sz;
     BitField_update kSizeTagPos kSizeTagSize v tag }"

definition SizeTag_decode :: "uword \<Rightarrow> int" where
  "SizeTag_decode tag = push_bit kObjectAlignmentLog2 (BitField_decode kSizeTagPos kSizeTagSize tag)"

definition IsWellFormed :: "uword \<Rightarrow> bool option" where
  "IsWellFormed v = (if v AND 1 = 0 then Some True else IsAligned (v - 1) (word_of_int kWordSize))"

definition IsHeapObject :: "uword \<Rightarrow> bool option" where
  "IsHeapObject v = do {
     w \<leftarrow> IsWellFormed v;
     ASSERT w;
     Some (v AND 1 = 1) }"

subsection \<open>Elements\<close>

definition SizeAddress :: "int \<Rightarrow> int" where
  "SizeAddress e = e + 2 * kWordSize"

definition next_address :: "int \<Rightarrow> int" where
  "next_address e = e + kWordSize"

definition element_next :: "memory \<Rightarrow> int \<Rightarrow> int" where
  "element_next m e = uint (word_at m (next_address e))"

definition element_set_next :: "int \<Rightarrow> int \<Rightarrow> memory \<Rightarrow> memory option" where
  "element_set_next e next m = store (next_address e) (word_of_int next) m"

definition Size :: "memory \<Rightarrow> int \<Rightarrow> int" where
  "Size m e = (let sz = SizeTag_decode (word_at m e) in
     if sz \<noteq> 0 then sz else sint (word_at m (SizeAddress e)))"

definition AsElement :: "int \<Rightarrow> int \<Rightarrow> memory \<Rightarrow> memory option" where
  "AsElement addr sz m = do {
     ASSERT (sz \<ge> kObjectAlignment);
     aligned \<leftarrow> IsAligned (word_of_int sz) (word_of_int kObjectAlignment);
     ASSERT aligned;
     tags \<leftarrow> SizeTag_update sz 0;
     tags \<leftarrow> BitField_update kClassIdTagPos kClassIdTagSize kFreeListElement tags;
     heap_object \<leftarrow> IsHeapObject tags;
     ASSERT (\<not> heap_object);
     m \<leftarrow> store addr tags m;
     m \<leftarrow> (if sz > kMaxSizeTag then store (SizeAddress addr) (word_of_int sz) m else Some m);
     element_set_next addr 0 m }"

definition HeaderSizeFor :: "int \<Rightarrow> int" where
  "HeaderSizeFor sz = (if sz = 0 then 0 else (if sz > kMaxSizeTag then 3 else 2) * kWordSize)"

subsection \<open>The lists\<close>

definition kNumLists :: int where [konst]: "kNumLists = 128"

record free_list =
  free_map :: bit_set
  free_lists :: "int list"
  last_free_small_size :: int
  mem :: memory

definition Reset :: "free_list \<Rightarrow> free_list" where
  "Reset s = s\<lparr>free_map := BitSet_Reset kNumLists, last_free_small_size := - 1,
     free_lists := replicate (nat (kNumLists + 1)) 0\<rparr>"

definition IndexForSize :: "int \<Rightarrow> int option" where
  "IndexForSize sz = do {
     ASSERT (sz \<ge> kObjectAlignment);
     aligned \<leftarrow> IsAligned (word_of_int sz) (word_of_int kObjectAlignment);
     ASSERT aligned;
     let index = drop_bit kObjectAlignmentLog2 sz;
     Some (if index \<ge> kNumLists then kNumLists else index) }"

text \<open>
  The branches of \<open>EnqueueElement\<close> and \<open>DequeueElement\<close> that keep the map of the lists that are not empty,
  and the largest size they offer.
\<close>

definition mark_nonempty :: "int \<Rightarrow> int \<Rightarrow> free_list \<Rightarrow> free_list option" where
  "mark_nonempty next index s =
     (if next = 0 \<and> index \<noteq> kNumLists then do {
        fm \<leftarrow> BitSet_Set kNumLists index True (free_map s);
        Some (s\<lparr>free_map := fm, last_free_small_size :=
          Maximum (last_free_small_size s) (push_bit kObjectAlignmentLog2 index)\<rparr>) }
      else Some s)"

definition mark_empty :: "int \<Rightarrow> int \<Rightarrow> free_list \<Rightarrow> free_list option" where
  "mark_empty next index s =
     (if next = 0 \<and> index \<noteq> kNumLists then
        if push_bit kObjectAlignmentLog2 index = last_free_small_size s then do {
          (fm, previous) \<leftarrow> ClearLastAndFindPrevious kNumLists index (free_map s);
          Some (s\<lparr>free_map := fm, last_free_small_size := previous * kObjectAlignment\<rparr>) }
        else do {
          fm \<leftarrow> BitSet_Set kNumLists index False (free_map s);
          Some (s\<lparr>free_map := fm\<rparr>) }
      else Some s)"

definition EnqueueElement :: "int \<Rightarrow> int \<Rightarrow> free_list \<Rightarrow> free_list option" where
  "EnqueueElement element index s = do {
     next \<leftarrow> read_at (free_lists s) index;
     s \<leftarrow> mark_nonempty next index s;
     m \<leftarrow> element_set_next element next (mem s);
     fl \<leftarrow> write_at (free_lists s) index element;
     Some (s\<lparr>mem := m, free_lists := fl\<rparr>) }"

text \<open>Dequeuing from an empty list would read through \<open>NULL\<close>.\<close>

definition DequeueElement :: "int \<Rightarrow> free_list \<Rightarrow> (free_list \<times> int) option" where
  "DequeueElement index s = do {
     result \<leftarrow> read_at (free_lists s) index;
     ASSERT (result \<noteq> 0);
     let next = element_next (mem s) result;
     s \<leftarrow> mark_empty next index s;
     fl \<leftarrow> write_at (free_lists s) index next;
     Some (s\<lparr>free_lists := fl\<rparr>, result) }"

partial_function (option) length_list :: "memory \<Rightarrow> int \<Rightarrow> int \<Rightarrow> int option" where
  "length_list m element result =
     (if element \<noteq> 0 then length_list m (element_next m element) (result + 1) else Some result)"

declare length_list.simps [code]

definition LengthLocked :: "int \<Rightarrow> free_list \<Rightarrow> int option" where
  "LengthLocked index s = do {
     ASSERT (index \<ge> 0);
     ASSERT (index < kNumLists);
     element \<leftarrow> read_at (free_lists s) index;
     length_list (mem s) element 0 }"

definition protect_when ::
    "bool \<Rightarrow> int \<Rightarrow> int \<Rightarrow> protection \<Rightarrow> free_list \<Rightarrow> free_list option" where
  "protect_when b addr sz mode s =
     (if b then do { m \<leftarrow> Protect addr sz mode (mem s); Some (s\<lparr>mem := m\<rparr>) } else Some s)"

definition SplitElementAfterAndEnqueue ::
    "int \<Rightarrow> int \<Rightarrow> bool \<Rightarrow> free_list \<Rightarrow> free_list option" where
  "SplitElementAfterAndEnqueue element sz is_protected s = do {
     let remainder_size = Size (mem s) element - sz;
     if remainder_size = 0 then Some s
     else do {
       let remainder_address = uword_add element sz;
       m \<leftarrow> AsElement remainder_address remainder_size (mem s);
       remainder_index \<leftarrow> IndexForSize remainder_size;
       s \<leftarrow> EnqueueElement remainder_address remainder_index (s\<lparr>mem := m\<rparr>);
       same \<leftarrow> (if is_protected
         then InSamePage (mem s) (uword_add remainder_address (- 1)) remainder_address
         else Some True);
       protect_when (\<not> same) remainder_address remainder_size kReadExecute s } }"

text \<open>
  The part of \<open>TryAllocateLocked\<close> that unlinks \<open>current\<close> from the list of large elements: the page of
  the previous element is made writable for the store, unless it shares a page with the region that
  already is.
\<close>

definition unlink_large ::
    "int \<Rightarrow> int \<Rightarrow> int \<Rightarrow> bool \<Rightarrow> free_list \<Rightarrow> free_list option" where
  "unlink_large previous current region_size is_protected s =
     (if previous = 0 then do {
        fl \<leftarrow> write_at (free_lists s) kNumLists (element_next (mem s) current);
        Some (s\<lparr>free_lists := fl\<rparr>) }
      else do {
        let writable_end = uword_add (uword_add current region_size) (- 1);
        let target_address = next_address previous;
        target_is_protected \<leftarrow> (if is_protected then do {
            s0 \<leftarrow> InSamePage (mem s) target_address current;
            s1 \<leftarrow> InSamePage (mem s) target_address writable_end;
            Some (\<not> s0 \<and> \<not> s1) }
          else Some False);
        s \<leftarrow> protect_when target_is_protected target_address kWordSize kReadWrite s;
        m \<leftarrow> element_set_next previous (element_next (mem s) current) (mem s);
        protect_when target_is_protected target_address kWordSize kReadExecute (s\<lparr>mem := m\<rparr>) })"

partial_function (option) allocate_large_loop ::
    "int \<Rightarrow> bool \<Rightarrow> int \<Rightarrow> int \<Rightarrow> free_list \<Rightarrow> (free_list \<times> int) option" where
  "allocate_large_loop sz is_protected previous current s =
     (if current \<noteq> 0 then
        if Size (mem s) current \<ge> sz then do {
          let remainder_size = Size (mem s) current - sz;
          let region_size = sz + HeaderSizeFor remainder_size;
          s \<leftarrow> protect_when is_protected current region_size kReadWrite s;
          s \<leftarrow> unlink_large previous current region_size is_protected s;
          s \<leftarrow> SplitElementAfterAndEnqueue current sz is_protected s;
          Some (s, current) }
        else allocate_large_loop sz is_protected current (element_next (mem s) current) s
      else Some (s, 0))"

declare allocate_large_loop.simps [code]

text \<open>
  \<open>split_from index\<close> dequeues an element of a list with larger elements and splits it; it is shared
  by \<open>TryAllocateLocked\<close> and \<open>TryAllocateSmallLocked\<close>.
\<close>

definition split_from :: "int \<Rightarrow> int \<Rightarrow> bool \<Rightarrow> free_list \<Rightarrow> (free_list \<times> int) option" where
  "split_from next_index sz is_protected s = do {
     (s, element) \<leftarrow> DequeueElement next_index s;
     let remainder_size = Size (mem s) element - sz;
     let region_size = sz + HeaderSizeFor remainder_size;
     s \<leftarrow> protect_when is_protected element region_size kReadWrite s;
     s \<leftarrow> SplitElementAfterAndEnqueue element sz is_protected s;
     Some (s, element) }"

definition TryAllocateLocked :: "int \<Rightarrow> bool \<Rightarrow> free_list \<Rightarrow> (free_list \<times> int) option" where
  "TryAllocateLocked sz is_protected s = do {
     index \<leftarrow> IndexForSize sz;
     exact \<leftarrow> (if index \<noteq> kNumLists then BitSet_Test kNumLists index (free_map s) else Some False);
     if exact then do {
       (s, element) \<leftarrow> DequeueElement index s;
       s \<leftarrow> protect_when is_protected element sz kReadWrite s;
       Some (s, element) }
     else do {
       next_index \<leftarrow> (if index + 1 < kNumLists then BitSet_Next kNumLists (index + 1) (free_map s)
                     else Some (- 1));
       if next_index \<noteq> - 1 then split_from next_index sz is_protected s
       else do {
         current \<leftarrow> read_at (free_lists s) kNumLists;
         allocate_large_loop sz is_protected 0 current s } } }"

definition FreeLocked :: "int \<Rightarrow> int \<Rightarrow> free_list \<Rightarrow> free_list option" where
  "FreeLocked addr sz s = do {
     index \<leftarrow> IndexForSize sz;
     m \<leftarrow> AsElement addr sz (mem s);
     EnqueueElement addr index (s\<lparr>mem := m\<rparr>) }"

partial_function (option) take_large_loop ::
    "int \<Rightarrow> int \<Rightarrow> int \<Rightarrow> free_list \<Rightarrow> (free_list \<times> int) option" where
  "take_large_loop minimum_size previous current s =
     (if current \<noteq> 0 then do {
        let next = element_next (mem s) current;
        if Size (mem s) current \<ge> minimum_size then do {
          s \<leftarrow> (if previous = 0 then do {
                 fl \<leftarrow> write_at (free_lists s) kNumLists next;
                 Some (s\<lparr>free_lists := fl\<rparr>) }
               else do {
                 m \<leftarrow> element_set_next previous next (mem s);
                 Some (s\<lparr>mem := m\<rparr>) });
          Some (s, current) }
        else take_large_loop minimum_size current next s }
      else Some (s, 0))"

declare take_large_loop.simps [code]

definition TryAllocateLargeLocked :: "int \<Rightarrow> free_list \<Rightarrow> (free_list \<times> int) option" where
  "TryAllocateLargeLocked minimum_size s = do {
     current \<leftarrow> read_at (free_lists s) kNumLists;
     take_large_loop minimum_size 0 current s }"

definition TryAllocateSmallLocked :: "int \<Rightarrow> free_list \<Rightarrow> (free_list \<times> int) option" where
  "TryAllocateSmallLocked sz s =
     (if sz > last_free_small_size s then Some (s, 0)
      else do {
        index \<leftarrow> IndexForSize sz;
        exact \<leftarrow> (if index \<noteq> kNumLists then BitSet_Test kNumLists index (free_map s) else Some False);
        if exact then DequeueElement index s
        else do {
          next_index \<leftarrow> (if index + 1 < kNumLists then BitSet_Next kNumLists (index + 1) (free_map s)
                        else Some (- 1));
          if next_index \<noteq> - 1 then split_from next_index sz False s
          else Some (s, 0) } })"

end
