(* ===== verification/Free_List_Memory.thy ===== *)
theory Free_List_Memory
  imports Free_List
begin

text \<open>
  Facts on the memory of the free lists: pages and their protection, the header of a free block, and
  its construction by \<open>AsElement\<close>.
\<close>

unbundle bit_operations_syntax

subsection \<open>Alignment and pages\<close>

lemma word_AND_mask:
  fixes x :: int
  assumes "k \<le> 64"
  shows "word_of_int x AND (2 ^ k - 1 :: uword) = 0 \<longleftrightarrow> 2 ^ k dvd x"
proof -
  let ?w = "word_of_int x :: uword"
  have "?w AND (2 ^ k - 1) = take_bit k ?w" by (simp add: take_bit_eq_mask mask_eq_exp_minus_1)
  moreover have "uint (take_bit k ?w) = (x mod 2 ^ 64) mod 2 ^ k"
    by (subst unsigned_take_bit_eq) (simp add: take_bit_eq_mod uint_word_of_int)
  moreover have "(x mod 2 ^ 64) mod 2 ^ k = x mod 2 ^ k"
    using assms by (intro mod_mod_cancel le_imp_power_dvd)
  ultimately show ?thesis by (simp add: word_uint_eq_iff dvd_eq_mod_eq_0)
qed

lemma IsAligned_16 [simp]: "IsAligned (word_of_int sz) (word_of_int kObjectAlignment) = Some (16 dvd sz)"
proof -
  have "(word_of_int sz :: uword) AND 15 = 0 \<longleftrightarrow> 16 dvd sz"
    using word_AND_mask [of 4 sz] by simp
  moreover have "IsPowerOfTwo 16" using IsPowerOfTwo_exp [of 4] by simp
  ultimately show ?thesis by (simp add: IsAligned_def konst)
qed

definition pages_ok :: "nat \<Rightarrow> memory \<Rightarrow> bool" where
  "pages_ok k m \<longleftrightarrow> 4 \<le> k \<and> k < 64 \<and> page_size m = 2 ^ k"

lemma uint_page_size: "pages_ok k m \<Longrightarrow> uint (page_size m) = 2 ^ k"
  by (simp add: pages_ok_def uint_2p word_gt_0)

lemma page_eq: "pages_ok k m \<Longrightarrow> page m a = a div 2 ^ k"
  by (simp add: page_def uint_page_size)

lemma RoundDown_page:
  assumes "pages_ok k m" and "0 \<le> a" and "a < 2 ^ 64"
  shows "\<exists>r. RoundDown (word_of_int a) (page_size m) = Some r \<and> uint r = a div 2 ^ k * 2 ^ k"
proof -
  have "uint (word_of_int a AND - (2 ^ k) :: uword) = a div 2 ^ k * 2 ^ k"
    using uint_AND_neg_exp [of "word_of_int a" k] assms(2,3)
    by (simp add: uint_word_of_int minus_mod_eq_div_mult)
  then show ?thesis
    using assms(1) IsPowerOfTwo_exp [of k] by (simp add: pages_ok_def RoundDown_def)
qed

lemma InSamePage_eq:
  assumes "pages_ok k m" and "0 \<le> a" "a < 2 ^ 64" "0 \<le> b" "b < 2 ^ 64"
  shows "InSamePage m a b = Some (page m a = page m b)"
proof -
  obtain r q where "RoundDown (word_of_int a) (page_size m) = Some r" "uint r = a div 2 ^ k * 2 ^ k"
    "RoundDown (word_of_int b) (page_size m) = Some q" "uint q = b div 2 ^ k * 2 ^ k"
    using RoundDown_page assms by blast
  then show ?thesis by (simp add: InSamePage_def page_eq [OF assms(1)] word_uint_eq_iff)
qed

lemma page_mono: "pages_ok k m \<Longrightarrow> a \<le> b \<Longrightarrow> page m a \<le> page m b"
  by (simp add: page_eq zdiv_mono1)

lemma page_le_iff: "pages_ok k m \<Longrightarrow> p * 2 ^ k \<le> a \<longleftrightarrow> p \<le> page m a"
proof -
  assume "pages_ok k m"
  then have "page m a = a div 2 ^ k" by (rule page_eq)
  moreover have "p * 2 ^ k \<le> a" if "p \<le> a div 2 ^ k"
  proof -
    have "p * 2 ^ k \<le> a div 2 ^ k * 2 ^ k" using that by (intro mult_right_mono) auto
    also have "\<dots> \<le> a" by (simp add: minus_mod_eq_div_mult [symmetric])
    finally show ?thesis .
  qed
  moreover have "p \<le> a div 2 ^ k" if "p * 2 ^ k \<le> a"
    using zdiv_mono1 [OF that, of "2 ^ k"] by simp
  ultimately show ?thesis by auto
qed

lemma Protect_eq:
  assumes "pages_ok k m" and "0 \<le> a" "0 < len" "a + len < 2 ^ 64"
  shows "Protect a len mode m = Some (m\<lparr>writable := (\<lambda>p.
    if page m a \<le> p \<and> p \<le> page m (a + len - 1) then mode = kReadWrite else writable m p)\<rparr>)"
proof -
  obtain r where r: "RoundDown (word_of_int a) (page_size m) = Some r" "uint r = a div 2 ^ k * 2 ^ k"
    using RoundDown_page assms by fastforce
  have end_a: "uword_add a len = a + len" using assms by (simp add: uword_add_def)
  have ps: "uint (page_size m) = 2 ^ k" using assms(1) by (rule uint_page_size)
  have "page m (uint r) = page m a" using r(2) by (simp add: page_eq [OF assms(1)])
  moreover have "p * 2 ^ k < a + len \<longleftrightarrow> p \<le> page m (a + len - 1)" for p
    using page_le_iff [OF assms(1), of p "a + len - 1"] by auto
  ultimately show ?thesis by (simp add: Protect_def r(1) end_a mprotect_def ps)
qed

subsection \<open>Headers\<close>

definition header :: "memory \<Rightarrow> int \<times> int \<Rightarrow> bool" where
  "header m b \<longleftrightarrow> (case b of (a, n) \<Rightarrow>
     SizeTag_decode (word_at m a) = (if n > kMaxSizeTag then 0 else n) \<and>
     (n > kMaxSizeTag \<longrightarrow> sint (word_at m (a + 16)) = n))"

definition extent :: "int \<times> int \<Rightarrow> int set" where
  "extent b = {fst b..<fst b + snd b}"

definition valid_block :: "int \<times> int \<Rightarrow> bool" where
  "valid_block b \<longleftrightarrow> (case b of (a, n) \<Rightarrow>
     0 < a \<and> 16 dvd a \<and> 16 dvd n \<and> 16 \<le> n \<and> n < 2 ^ 63 \<and> a + n < 2 ^ 64)"

lemma header_Size: "header m (a, n) \<Longrightarrow> 16 \<le> n \<Longrightarrow> Size m a = n"
  by (auto simp: header_def Size_def SizeAddress_def konst Let_def)

lemma header_cong:
  assumes "header m b" and "valid_block b" and "\<And>x. x \<in> extent b \<Longrightarrow> word_at m' x = word_at m x"
  shows "header m' b"
proof -
  obtain a n where b: "b = (a, n)" by (cases b)
  have "word_at m' a = word_at m a" "n > kMaxSizeTag \<Longrightarrow> word_at m' (a + 16) = word_at m (a + 16)"
    using assms(2,3) by (auto simp: b extent_def valid_block_def konst)
  then show ?thesis using assms(1) by (simp add: b header_def)
qed

definition tag_word :: "int \<Rightarrow> uword" where
  "tag_word n = push_bit 32 (word_of_int kFreeListElement) OR push_bit 16 (word_of_int (if n > kMaxSizeTag then 0 else n div 16))"

lemma small_bits:
  fixes v :: int
  assumes "0 \<le> v" "v < 2 ^ k" "bit (word_of_int v :: uword) i"
  shows "i < k"
proof (rule ccontr)
  assume "\<not> i < k"
  then have "(2 :: int) ^ k \<le> 2 ^ i" by (intro power_increasing) auto
  then have "v < 2 ^ i" using assms(2) by (rule order_less_le_trans [rotated])
  then have "\<not> bit v i" using assms(1) by (simp add: bit_iff_odd)
  then show False using assms(3) by (simp add: bit_simps)
qed

lemma tag_value:
  assumes "16 \<le> n" and "v = (if n > kMaxSizeTag then 0 else n div 16)"
  shows "0 \<le> v" "v < 2 ^ 16"
  using assms by (auto simp: konst)

lemma BitField_valid:
  assumes "0 \<le> v" "v < 2 ^ k" "k < 64"
  shows "BitField_is_valid k v"
proof -
  have "(word_of_int v :: uword) AND NOT (mask k) = 0"
    by (rule bit_eqI) (use small_bits [OF assms(1,2)] in \<open>auto simp: bit_simps\<close>)
  then show ?thesis by (simp add: BitField_is_valid_def mask_eq_exp_minus_1 push_bit_eq_mult)
qed

lemma SizeTag_update_0:
  assumes "16 \<le> n" "16 dvd n"
  shows "SizeTag_update n 0 = Some (push_bit 16 (word_of_int (if n > kMaxSizeTag then 0 else n div 16)))"
proof -
  let ?v = "if n > kMaxSizeTag then 0 else n div 16"
  have "BitField_is_valid 16 ?v" using tag_value [OF assms(1) refl] by (intro BitField_valid) auto
  moreover have "SizeToTagValue n = Some ?v"
    using assms(2) by (simp add: SizeToTagValue_def kObjectAlignmentLog2_def drop_bit_eq_div)
  ultimately show ?thesis
    by (simp add: SizeTag_update_def BitField_update_def kSizeTagPos_def kSizeTagSize_def
        del: if_split)
qed

lemma clear_high:
  fixes t :: uword
  assumes "\<And>i. bit t i \<Longrightarrow> i < 32"
  shows "NOT (push_bit 32 (push_bit 32 1 - 1)) AND t = t"
proof (rule bit_eqI)
  fix i assume "possible_bit TYPE(64 word) i"
  then show "bit (NOT (push_bit 32 (push_bit 32 1 - 1)) AND t) i \<longleftrightarrow> bit t i"
    using assms [of i] unfolding bit_and_iff bit_not_iff bit_push_bit_iff by auto
qed

lemma ClassIdTag_update:
  assumes "16 \<le> n"
  shows "BitField_update kClassIdTagPos kClassIdTagSize kFreeListElement
    (push_bit 16 (word_of_int (if n > kMaxSizeTag then 0 else n div 16))) = Some (tag_word n)"
proof -
  have "bit (push_bit 16 (word_of_int (if n > kMaxSizeTag then 0 else n div 16)) :: uword) i \<Longrightarrow> i < 32" for i
    using small_bits [OF tag_value [OF assms refl], of "i - 16"] by (simp add: bit_push_bit_iff)
  note clear_high [OF this]
  moreover have "BitField_is_valid 32 kFreeListElement" by (rule BitField_valid) (simp_all add: konst)
  ultimately show ?thesis
    unfolding BitField_update_def kClassIdTagPos_def kClassIdTagSize_def tag_word_def
    by (simp only: ASSERT_True bind.bind_lunit)
qed

lemma sint_word_of_int_small: "- (2 ^ 63) \<le> v \<Longrightarrow> v < 2 ^ 63 \<Longrightarrow> sint (word_of_int v :: uword) = v"
  by (simp add: sint_sbintrunc' signed_take_bit_int_eq_self)

lemma SizeTag_decode_tag_word:
  assumes "16 \<le> n" "16 dvd n"
  shows "SizeTag_decode (tag_word n) = (if n > kMaxSizeTag then 0 else n)"
proof -
  let ?v = "if n > kMaxSizeTag then 0 else n div 16"
  note v = tag_value [OF assms(1) refl]
  have hi: "\<not> bit (push_bit 32 (word_of_int kFreeListElement) :: uword) (i + 16)" if "i < 16" for i
    using that by (simp add: bit_push_bit_iff)
  have "drop_bit 16 (tag_word n) AND mask 16 = word_of_int ?v"
  proof (rule bit_eqI)
    fix i assume "possible_bit TYPE(64 word) i"
    then show "bit (drop_bit 16 (tag_word n) AND mask 16) i \<longleftrightarrow> bit (word_of_int ?v :: uword) i"
      using small_bits [OF v, of i] hi [of i]
      by (auto simp: tag_word_def bit_drop_bit_eq bit_or_iff bit_and_iff bit_mask_iff bit_push_bit_iff add.commute
          simp del: push_bit_numeral_minus_1)
  qed
  moreover have "push_bit 16 1 - 1 = (mask 16 :: uword)"
    by (simp add: mask_eq_exp_minus_1 push_bit_eq_mult)
  moreover have "sint (word_of_int ?v :: uword) = ?v"
    using v by (intro sint_word_of_int_small) auto
  ultimately have "BitField_decode 16 16 (tag_word n) = ?v" by (simp add: BitField_decode_def)
  then show ?thesis
    using assms(2)
    by (simp add: SizeTag_decode_def kSizeTagPos_def kSizeTagSize_def kObjectAlignmentLog2_def push_bit_eq_mult)
qed

lemma IsHeapObject_tag_word: "IsHeapObject (tag_word n) = Some False"
proof -
  have "tag_word n AND 1 = 0"
    by (rule bit_eqI) (auto simp: tag_word_def bit_and_iff bit_or_iff bit_push_bit_iff bit_1_iff)
  then show ?thesis by (simp add: IsHeapObject_def IsWellFormed_def)
qed

subsection \<open>Changes of the memory\<close>

definition same_pages :: "memory \<Rightarrow> memory \<Rightarrow> bool" where
  "same_pages m m' \<longleftrightarrow> writable m' = writable m \<and> page_size m' = page_size m"

definition off :: "int set \<Rightarrow> memory \<Rightarrow> memory \<Rightarrow> bool" where
  "off X m m' \<longleftrightarrow> (\<forall>x. x \<notin> X \<longrightarrow> word_at m' x = word_at m x)"

definition may_write :: "memory \<Rightarrow> int \<Rightarrow> bool" where
  "may_write m x \<longleftrightarrow> writable m (page m x)"

lemma same_pages_refl [simp]: "same_pages m m"
  by (simp add: same_pages_def)

lemma same_pages_trans: "same_pages a b \<Longrightarrow> same_pages b c \<Longrightarrow> same_pages a c"
  by (simp add: same_pages_def)

lemma same_pages_simps:
  assumes "same_pages m m'"
  shows "page m' = page m" "may_write m' = may_write m" "pages_ok k m' = pages_ok k m"
  using assms by (auto simp: same_pages_def page_def may_write_def pages_ok_def fun_eq_iff)

lemma off_refl [simp]: "off X m m"
  by (simp add: off_def)

lemma off_trans: "off X a b \<Longrightarrow> off X b c \<Longrightarrow> off X a c"
  by (simp add: off_def)

lemma off_mono: "off X a b \<Longrightarrow> X \<subseteq> Y \<Longrightarrow> off Y a b"
  by (auto simp: off_def)

lemma store_eq: "may_write m a \<Longrightarrow> store a v m = Some (m\<lparr>word_at := (word_at m)(a := v)\<rparr>)"
  by (simp add: store_def may_write_def)

lemma may_write_word_at [simp]: "may_write (m\<lparr>word_at := f\<rparr>) x = may_write m x"
  by (simp add: may_write_def page_def)

lemma AsElement_ok:
  assumes valid: "valid_block (a, n)" and w: "may_write m a" "may_write m (a + 8)"
    "n > kMaxSizeTag \<Longrightarrow> may_write m (a + 16)"
  shows "\<exists>m'. AsElement a n m = Some m' \<and> header m' (a, n) \<and> same_pages m m' \<and> off (extent (a, n)) m m'"
proof -
  have n: "16 \<le> n" "16 dvd n" "n < 2 ^ 63" using valid by (auto simp: valid_block_def)
  let ?m1 = "m\<lparr>word_at := (word_at m)(a := tag_word n)\<rparr>"
  let ?m2 = "if n > kMaxSizeTag then ?m1\<lparr>word_at := (word_at ?m1)(a + 16 := word_of_int n)\<rparr> else ?m1"
  let ?m3 = "?m2\<lparr>word_at := (word_at ?m2)(a + 8 := 0)\<rparr>"
  have "n \<ge> kObjectAlignment" using n(1) by (simp add: konst)
  then have "AsElement a n m = Some ?m3"
    using n w SizeTag_update_0 [OF n(1,2)] ClassIdTag_update [OF n(1)] IsHeapObject_tag_word
    by (simp add: AsElement_def store_eq SizeAddress_def element_set_next_def next_address_def
        kWordSize_def)
  moreover have "sint (word_of_int n :: uword) = n"
    using n by (intro sint_word_of_int_small) auto
  then have "header ?m3 (a, n)" using SizeTag_decode_tag_word [OF n(1,2)] by (simp add: header_def)
  moreover have "same_pages m ?m3" by (simp add: same_pages_def)
  moreover have "off (extent (a, n)) m ?m3"
    using n(1) by (auto simp: off_def extent_def kMaxSizeTag_def)
  ultimately show ?thesis by blast
qed

end
