(* ===== verification/Free_List_Correct.thy ===== *)
theory Free_List_Correct
  imports Free_List_Memory
begin

text \<open>
  The free lists represent a set of disjoint free blocks. The invariant relates the pointers in
  memory, the map of the lists that are not empty and the largest small size to lists of blocks;
  every operation is shown to keep it, to return, and to change the set as it should.
\<close>

subsection \<open>The representation of a set of blocks\<close>

text \<open>
  \<open>segment m p bs q\<close>: following the next pointers from \<open>p\<close> visits the blocks \<open>bs\<close> and ends at \<open>q\<close>.
\<close>

primrec segment :: "memory \<Rightarrow> int \<Rightarrow> (int \<times> int) list \<Rightarrow> int \<Rightarrow> bool" where
  "segment m p [] q \<longleftrightarrow> p = q"
| "segment m p (b # bs) q \<longleftrightarrow> p = fst b \<and> header m b \<and> segment m (element_next m p) bs q"

definition list_index :: "int \<Rightarrow> nat" where
  "list_index n = (if n div 16 \<ge> 128 then 128 else nat (n div 16))"

definition blocks :: "(int \<times> int) list list \<Rightarrow> (int \<times> int) set" where
  "blocks L = (\<Union>bs\<in>set L. set bs)"

definition disjoint_blocks :: "(int \<times> int) set \<Rightarrow> bool" where
  "disjoint_blocks B \<longleftrightarrow> (\<forall>b\<in>B. \<forall>c\<in>B. b \<noteq> c \<longrightarrow> extent b \<inter> extent c = {})"

definition lists_inv :: "memory \<Rightarrow> int list \<Rightarrow> (int \<times> int) list list \<Rightarrow> bool" where
  "lists_inv m fl L \<longleftrightarrow> length L = 129 \<and> length fl = 129 \<and>
     (\<forall>i<129. segment m (fl ! i) (L ! i) 0 \<and> distinct (L ! i) \<and>
        (\<forall>b\<in>set (L ! i). valid_block b \<and> list_index (snd b) = i)) \<and>
     disjoint_blocks (blocks L)"

definition map_inv :: "bit_set \<Rightarrow> int \<Rightarrow> (int \<times> int) list list \<Rightarrow> bool" where
  "map_inv fm last_size L \<longleftrightarrow> bit_set_ok kNumLists fm \<and> elems fm = {i. i < 128 \<and> L ! i \<noteq> []} \<and>
     (if elems fm = {} then last_size < 0 else last_size = 16 * int (Max (elems fm)))"

definition free_inv :: "free_list \<Rightarrow> (int \<times> int) list list \<Rightarrow> bool" where
  "free_inv s L \<longleftrightarrow> lists_inv (mem s) (free_lists s) L \<and> map_inv (free_map s) (last_free_small_size s) L"

lemma segment_append:
  "segment m p (xs @ ys) q \<longleftrightarrow> (\<exists>r. segment m p xs r \<and> segment m r ys q)"
  by (induction xs arbitrary: p) auto

lemma valid_next_address: "valid_block b \<Longrightarrow> next_address (fst b) \<in> extent b"
  by (cases b) (auto simp: valid_block_def extent_def next_address_def kWordSize_def)

lemma valid_fst: "valid_block b \<Longrightarrow> fst b \<in> extent b \<and> 0 < fst b"
  by (cases b) (auto simp: valid_block_def extent_def)

lemma segment_off:
  assumes "segment m p bs q" and "\<forall>b\<in>set bs. valid_block b \<and> extent b \<inter> X = {}" and "off X m m'"
  shows "segment m' p bs q"
  using assms(1,2)
proof (induction bs arbitrary: p)
  case (Cons b bs)
  have agree: "word_at m' x = word_at m x" if "x \<in> extent b" for x
    using assms(3) that Cons.prems(2) by (auto simp: off_def)
  then have "header m' b" using header_cong [of m b m'] Cons.prems by simp
  moreover have "element_next m' p = element_next m p"
    using agree valid_next_address [of b] Cons.prems by (simp add: element_next_def)
  ultimately show ?case using Cons by auto
qed simp

lemma blocks_nth: "b \<in> blocks L \<longleftrightarrow> (\<exists>i<length L. b \<in> set (L ! i))"
  unfolding blocks_def set_conv_nth [of L] by blast

lemma lists_invD:
  assumes "lists_inv m fl L"
  shows "length L = 129" and "length fl = 129" and "disjoint_blocks (blocks L)"
    and "i < 129 \<Longrightarrow> segment m (fl ! i) (L ! i) 0" and "i < 129 \<Longrightarrow> distinct (L ! i)"
    and "i < 129 \<Longrightarrow> b \<in> set (L ! i) \<Longrightarrow> valid_block b \<and> list_index (snd b) = i"
  using assms by (auto simp: lists_inv_def)

lemma blocks_index:
  assumes "lists_inv m fl L"
  shows "b \<in> blocks L \<longleftrightarrow> list_index (snd b) < 129 \<and> b \<in> set (L ! list_index (snd b))"
  using lists_invD(1) [OF assms] lists_invD(6) [OF assms, of _ b] unfolding blocks_nth by metis

lemma blocks_valid: "lists_inv m fl L \<Longrightarrow> b \<in> blocks L \<Longrightarrow> valid_block b"
  using blocks_index lists_invD(6) by blast

lemma list_index_le: "list_index n < 129"
  by (auto simp: list_index_def)

lemma IndexForSize_eq:
  "16 \<le> n \<Longrightarrow> 16 dvd n \<Longrightarrow> IndexForSize n = Some (int (list_index n))"
  by (simp add: IndexForSize_def list_index_def drop_bit_eq_div kObjectAlignmentLog2_def kNumLists_def
      kObjectAlignment_def del: IsAligned_16)
    (simp add: IsAligned_16 [unfolded kObjectAlignment_def, simplified])

lemma lists_inv_off:
  assumes inv: "lists_inv m fl L" and "off X m m'" and "\<forall>b\<in>blocks L. extent b \<inter> X = {}"
  shows "lists_inv m' fl L"
proof -
  have "segment m' (fl ! i) (L ! i) 0" if i: "i < 129" for i
    using lists_invD(4) [OF inv i] _ assms(2)
  proof (rule segment_off)
    show "\<forall>b\<in>set (L ! i). valid_block b \<and> extent b \<inter> X = {}"
      using lists_invD(1,6) [OF inv] assms(3) i by (auto simp: blocks_nth)
  qed
  then show ?thesis using inv by (simp add: lists_inv_def)
qed

lemma blocks_update:
  assumes "lists_inv m fl L" and "i < 129" and "\<forall>b\<in>set bs. list_index (snd b) = i"
  shows "blocks (L[i := bs]) = {b \<in> blocks L. list_index (snd b) \<noteq> i} \<union> set bs"
proof -
  have "b \<in> blocks (L[i := bs]) \<longleftrightarrow> (b \<in> blocks L \<and> list_index (snd b) \<noteq> i) \<or> b \<in> set bs" for b
  proof -
    have "b \<in> blocks (L[i := bs]) \<longleftrightarrow> (\<exists>j<129. b \<in> set (L[i := bs] ! j))"
      using lists_invD(1) [OF assms(1)] by (simp add: blocks_nth)
    also have "\<dots> \<longleftrightarrow> (\<exists>j<129. j \<noteq> i \<and> b \<in> set (L ! j)) \<or> b \<in> set bs"
      using lists_invD(1) [OF assms(1)] assms(2) by (auto simp: nth_list_update)
    finally show ?thesis using lists_invD(6) [OF assms(1)] blocks_index [OF assms(1), of b] by blast
  qed
  then show ?thesis by blast
qed

lemma blocks_of_list:
  assumes "lists_inv m fl L" and "i < 129"
  shows "{b \<in> blocks L. list_index (snd b) = i} = set (L ! i)"
  using blocks_index [OF assms(1)] lists_invD(6) [OF assms] assms(2) by blast

text \<open>Replacing one list keeps the invariant of the lists.\<close>

lemma lists_inv_update:
  assumes inv: "lists_inv m fl L" and i: "i < 129"
    and seg: "segment m p bs 0" and "distinct bs"
    and new: "\<forall>b\<in>set bs. valid_block b \<and> list_index (snd b) = i"
    and dis: "disjoint_blocks (blocks (L[i := bs]))"
  shows "lists_inv m (fl[i := p]) (L[i := bs])"
  using assms lists_invD(1,2) [OF inv] by (auto simp: lists_inv_def nth_list_update)

lemma segment_nonempty:
  assumes "segment m p bs 0" and "\<forall>b\<in>set bs. valid_block b"
  shows "p = 0 \<longleftrightarrow> bs = []"
  using assms valid_fst by (cases bs) force+

subsection \<open>The map of the small lists\<close>

lemma map_invD:
  assumes "map_inv fm n L"
  shows "bit_set_ok kNumLists fm" and "elems fm = {i. i < 128 \<and> L ! i \<noteq> []}"
    and "elems fm \<noteq> {} \<Longrightarrow> n = 16 * int (Max (elems fm))" and "elems fm = {} \<Longrightarrow> n < 0"
  using assms unfolding map_inv_def by presburger+

lemma map_inv_same:
  assumes "map_inv fm n L" and "i = 128 \<or> (L ! i = [] \<longleftrightarrow> bs = [])" and "length L = 129"
  shows "map_inv fm n (L[i := bs])"
proof -
  have "L[i := bs] ! j \<noteq> [] \<longleftrightarrow> L ! j \<noteq> []" if "j < 128" for j
    using assms(2,3) that by (cases "j = i") auto
  then have "{j. j < 128 \<and> L[i := bs] ! j \<noteq> []} = {j. j < 128 \<and> L ! j \<noteq> []}" by blast
  then show ?thesis using assms(1) by (simp add: map_inv_def)
qed

lemma map_inv_insert:
  assumes inv: "map_inv fm n L" and i: "i < 128" "L ! i = []" "bs \<noteq> []" and len: "length L = 129"
  shows "\<exists>fm'. BitSet_Set kNumLists (int i) True fm = Some fm' \<and>
    map_inv fm' (max n (16 * int i)) (L[i := bs])"
proof -
  have ok: "bit_set_ok kNumLists fm" and el: "elems fm = {j. j < 128 \<and> L ! j \<noteq> []}"
    using map_invD(1,2) [OF inv] .
  obtain fm' where fm': "BitSet_Set kNumLists (int i) True fm = Some fm'" "bit_set_ok kNumLists fm'"
    "elems fm' = insert i (elems fm)"
    using BitSet_Set_eq [OF ok, of i True] i(1) by (auto simp: kNumLists_def)
  have "elems fm' = {j. j < 128 \<and> L[i := bs] ! j \<noteq> []}"
    using i len by (auto simp: fm'(3) el nth_list_update)
  moreover have "max n (16 * int i) = 16 * int (Max (elems fm'))"
  proof (cases "elems fm = {}")
    case True
    then show ?thesis using map_invD(4) [OF inv] by (simp add: fm'(3))
  next
    case False
    then have "n = 16 * int (Max (elems fm))" by (rule map_invD(3) [OF inv])
    moreover have "Max (insert i (elems fm)) = max i (Max (elems fm))" using False by simp
    ultimately show ?thesis by (simp add: fm'(3) max_def del: Max_insert)
  qed
  ultimately show ?thesis using fm' by (auto simp: map_inv_def)
qed

lemma map_inv_remove:
  assumes inv: "map_inv fm n L" and i: "i < 128" "L ! i \<noteq> []" and len: "length L = 129"
  shows "16 * int i = n \<Longrightarrow> \<exists>fm' g. ClearLastAndFindPrevious kNumLists (int i) fm = Some (fm', g) \<and>
      map_inv fm' (g * 16) (L[i := []])"
    and "16 * int i \<noteq> n \<Longrightarrow> \<exists>fm'. BitSet_Set kNumLists (int i) False fm = Some fm' \<and>
      map_inv fm' n (L[i := []])"
proof -
  have ok: "bit_set_ok kNumLists fm" and el: "elems fm = {j. j < 128 \<and> L ! j \<noteq> []}"
    using map_invD(1,2) [OF inv] .
  have mem: "i \<in> elems fm" using i el by simp
  then have n: "n = 16 * int (Max (elems fm))" by (intro map_invD(3) [OF inv]) blast
  have el': "elems fm - {i} = {j. j < 128 \<and> L[i := []] ! j \<noteq> []}"
    using i len by (auto simp: el nth_list_update)
  show "\<exists>fm' g. ClearLastAndFindPrevious kNumLists (int i) fm = Some (fm', g) \<and>
      map_inv fm' (g * 16) (L[i := []])" if True: "16 * int i = n"
  proof -
    have "\<forall>j\<in>elems fm. j \<le> i" using n True by simp
    then obtain fm' where fm': "ClearLastAndFindPrevious kNumLists (int i) fm = Some (fm', greatest (elems fm'))"
      "bit_set_ok kNumLists fm'" "elems fm' = elems fm - {i}"
      using ClearLastAndFindPrevious_eq [OF ok mem] by blast
    have e: "{j. j < 128 \<and> L[i := []] ! j \<noteq> []} = elems fm'" using fm'(3) el' by (rule trans [symmetric])
    have "map_inv fm' (greatest (elems fm') * 16) (L[i := []])"
      unfolding map_inv_def e using fm'(2) by (simp add: greatest_def)
    then show ?thesis using fm'(1) by auto
  qed
  show "\<exists>fm'. BitSet_Set kNumLists (int i) False fm = Some fm' \<and> map_inv fm' n (L[i := []])"
    if False: "16 * int i \<noteq> n"
  proof -
    have ne: "i \<noteq> Max (elems fm)" using n False by auto
    have int_i: "int i < kNumLists" using i by (simp add: kNumLists_def)
    obtain fm' where fm': "BitSet_Set kNumLists (int i) False fm = Some fm'"
      "bit_set_ok kNumLists fm'" "elems fm' = elems fm - {i}"
      using BitSet_Set_eq [OF ok int_i, of False] by auto
    have max: "Max (elems fm) \<in> elems fm" using mem by (intro Max_in) auto
    have "Max (elems fm') = Max (elems fm)"
      unfolding fm'(3) by (rule Max_eqI) (use ne max in auto)
    moreover have "elems fm' \<noteq> {}" using max ne by (auto simp: fm'(3))
    moreover have e: "{j. j < 128 \<and> L[i := []] ! j \<noteq> []} = elems fm'" using fm'(3) el' by (rule trans [symmetric])
    ultimately have "map_inv fm' n (L[i := []])" unfolding map_inv_def e using fm'(2) n by simp
    then show ?thesis using fm'(1) by auto
  qed
qed

lemma mark_nonempty_ok:
  assumes inv: "map_inv (free_map s) (last_free_small_size s) L" and len: "length L = 129"
    and i: "i < 129" and p: "p = 0 \<longleftrightarrow> L ! i = []" and bs: "bs \<noteq> []"
  shows "\<exists>fm ls. mark_nonempty p (int i) s = Some (s\<lparr>free_map := fm, last_free_small_size := ls\<rparr>) \<and>
    map_inv fm ls (L[i := bs])"
proof (cases "p = 0 \<and> int i \<noteq> kNumLists")
  case True
  then have "i < 128" "L ! i = []" using i p by (auto simp: kNumLists_def)
  then obtain fm where "BitSet_Set kNumLists (int i) True (free_map s) = Some fm"
    "map_inv fm (max (last_free_small_size s) (16 * int i)) (L[i := bs])"
    using map_inv_insert [OF inv _ _ bs len] by blast
  then show ?thesis
    using True by (auto simp: mark_nonempty_def kObjectAlignmentLog2_def push_bit_eq_mult mult.commute)
next
  case False
  then have "i = 128 \<or> (L ! i = [] \<longleftrightarrow> bs = [])" using p bs by (auto simp: kNumLists_def)
  from map_inv_same [OF inv this len] show ?thesis
    using False
    by (intro exI [of _ "free_map s"] exI [of _ "last_free_small_size s"]) (auto simp: mark_nonempty_def)
qed

lemma mark_empty_ok:
  assumes inv: "map_inv (free_map s) (last_free_small_size s) L" and len: "length L = 129"
    and i: "i < 129" and p: "p = 0 \<longleftrightarrow> bs = []" and L: "L ! i \<noteq> []"
  shows "\<exists>fm ls. mark_empty p (int i) s = Some (s\<lparr>free_map := fm, last_free_small_size := ls\<rparr>) \<and>
    map_inv fm ls (L[i := bs])"
proof (cases "p = 0 \<and> int i \<noteq> kNumLists")
  case True
  then have i': "i < 128" and bs: "bs = []" using i p by (auto simp: kNumLists_def)
  have sz: "push_bit kObjectAlignmentLog2 (int i) = 16 * int i"
    by (simp add: kObjectAlignmentLog2_def push_bit_eq_mult)
  show ?thesis
  proof (cases "16 * int i = last_free_small_size s")
    case same: True
    then obtain fm g where "ClearLastAndFindPrevious kNumLists (int i) (free_map s) = Some (fm, g)"
      "map_inv fm (g * 16) (L[i := []])"
      using map_inv_remove(1) [OF inv i' L len] by blast
    then show ?thesis using True same bs by (auto simp: mark_empty_def sz kObjectAlignment_def)
  next
    case False
    then obtain fm where "BitSet_Set kNumLists (int i) False (free_map s) = Some fm"
      "map_inv fm (last_free_small_size s) (L[i := []])"
      using map_inv_remove(2) [OF inv i' L len] by blast
    then show ?thesis
      using True False bs
      by (intro exI [of _ fm] exI [of _ "last_free_small_size s"]) (auto simp: mark_empty_def sz)
  qed
next
  case False
  then have "i = 128 \<or> (L ! i = [] \<longleftrightarrow> bs = [])" using p L by (auto simp: kNumLists_def)
  from map_inv_same [OF inv this len] show ?thesis
    using False
    by (intro exI [of _ "free_map s"] exI [of _ "last_free_small_size s"]) (auto simp: mark_empty_def)
qed

subsection \<open>Enqueuing and dequeuing\<close>

lemma free_invD:
  assumes "free_inv s L"
  shows "lists_inv (mem s) (free_lists s) L" and "map_inv (free_map s) (last_free_small_size s) L"
    and "length L = 129" and "length (free_lists s) = 129"
  using assms by (auto simp: free_inv_def lists_inv_def)

lemma list_head:
  assumes "free_inv s L" and "i < 129"
  shows "read_at (free_lists s) (int i) = Some (free_lists s ! i)" and "free_lists s ! i = 0 \<longleftrightarrow> L ! i = []"
    and "L ! i = b # bs \<Longrightarrow> free_lists s ! i = fst b"
proof -
  note inv = free_invD(1) [OF assms(1)]
  show "read_at (free_lists s) (int i) = Some (free_lists s ! i)" using assms(2) free_invD(4) [OF assms(1)] by simp
  show "free_lists s ! i = 0 \<longleftrightarrow> L ! i = []"
    by (rule segment_nonempty [OF lists_invD(4) [OF inv assms(2)]]) (use lists_invD(6) [OF inv assms(2)] in blast)
  show "L ! i = b # bs \<Longrightarrow> free_lists s ! i = fst b" using lists_invD(4) [OF inv assms(2)] by simp
qed

lemma EnqueueElement_ok:
  assumes inv: "free_inv s L" and valid: "valid_block (a, n)" and hd: "header (mem s) (a, n)"
    and dis: "\<forall>c\<in>blocks L. extent (a, n) \<inter> extent c = {}" and w: "may_write (mem s) (a + 8)"
  shows "\<exists>s' L'. EnqueueElement a (int (list_index n)) s = Some s' \<and> free_inv s' L' \<and>
    blocks L' = insert (a, n) (blocks L) \<and> same_pages (mem s) (mem s') \<and>
    off (extent (a, n)) (mem s) (mem s')"
proof -
  let ?i = "list_index n"
  let ?h = "free_lists s ! ?i" and ?bs = "(a, n) # L ! ?i"
  let ?m = "(mem s)\<lparr>word_at := (word_at (mem s))(a + 8 := word_of_int ?h)\<rparr>"
  have i: "?i < 129" by (rule list_index_le)
  note li = free_invD(1) [OF inv] and len = free_invD(3,4) [OF inv]
  note head = list_head [OF inv i]
  have off: "off (extent (a, n)) (mem s) ?m"
    using valid_next_address [OF valid] by (auto simp: off_def next_address_def kWordSize_def)
  have li': "lists_inv ?m (free_lists s) L" by (rule lists_inv_off [OF li off]) (use dis in blast)
  have fresh: "(a, n) \<notin> set (L ! ?i)"
    using dis valid_fst [OF valid] blocks_index [OF li, of "(a, n)"] i by auto
  have hrange: "0 \<le> ?h \<and> ?h < 2 ^ 64"
  proof (cases "L ! ?i")
    case Nil
    then show ?thesis using head(2) by simp
  next
    case (Cons b bs)
    then have "valid_block b" using lists_invD(6) [OF li i, of b] by simp
    then show ?thesis using head(3) [OF Cons] by (cases b) (auto simp: valid_block_def)
  qed
  have "header ?m (a, n)" using hd by (simp add: header_def)
  moreover have "element_next ?m a = ?h"
    using hrange by (simp add: element_next_def next_address_def kWordSize_def uint_word_of_int)
  ultimately have seg: "segment ?m a ?bs 0" using lists_invD(4) [OF li' i] by simp
  have bl: "blocks (L[?i := ?bs]) = insert (a, n) (blocks L)"
    using blocks_update [OF li i, of ?bs] blocks_of_list [OF li i] lists_invD(6) [OF li i] by auto
  have "disjoint_blocks (blocks (L[?i := ?bs]))"
    using lists_invD(3) [OF li] dis unfolding bl disjoint_blocks_def by blast
  then have lists: "lists_inv ?m ((free_lists s)[?i := a]) (L[?i := ?bs])"
    using fresh lists_invD(5,6) [OF li i] valid
    by (intro lists_inv_update [OF li' i seg]) auto
  have wr: "element_set_next a ?h (mem s) = Some ?m"
    using w by (simp add: element_set_next_def next_address_def kWordSize_def store_eq)
  obtain fm ls where upd: "mark_nonempty ?h (int ?i) s = Some (s\<lparr>free_map := fm, last_free_small_size := ls\<rparr>)"
    and map: "map_inv fm ls (L[?i := ?bs])"
    using mark_nonempty_ok [OF free_invD(2) [OF inv] len(1) i head(2), of ?bs] by auto
  let ?s = "s\<lparr>free_map := fm, last_free_small_size := ls, mem := ?m, free_lists := (free_lists s)[?i := a]\<rparr>"
  have "EnqueueElement a (int ?i) s = Some ?s"
    using upd wr i len(2) by (simp add: EnqueueElement_def)
  moreover have "free_inv ?s (L[?i := ?bs])" using lists map by (simp add: free_inv_def)
  ultimately show ?thesis using bl off by (intro exI [of _ ?s] exI [of _ "L[?i := ?bs]"]) (simp add: same_pages_def)
qed

lemma DequeueElement_ok:
  assumes inv: "free_inv s L" and i: "i < 129" and L: "L ! i = b # bs"
  shows "\<exists>s'. DequeueElement (int i) s = Some (s', fst b) \<and> free_inv s' (L[i := bs]) \<and>
    blocks (L[i := bs]) = blocks L - {b} \<and> mem s' = mem s"
proof -
  let ?next = "element_next (mem s) (fst b)"
  note li = free_invD(1) [OF inv] and len = free_invD(3,4) [OF inv]
  note head = list_head [OF inv i]
  have valid: "valid_block b" using lists_invD(6) [OF li i, of b] L by simp
  have seg: "segment (mem s) ?next bs 0" using lists_invD(4) [OF li i] L by auto
  have vs: "\<forall>c\<in>set bs. valid_block c \<and> list_index (snd c) = i" using lists_invD(6) [OF li i] L by simp
  have next0: "?next = 0 \<longleftrightarrow> bs = []" by (rule segment_nonempty [OF seg]) (use vs in blast)
  have dist: "distinct (b # bs)" using lists_invD(5) [OF li i] L by simp
  have bl: "blocks (L[i := bs]) = blocks L - {b}"
    using blocks_update [OF li i, of bs] blocks_of_list [OF li i] vs dist L by auto
  have "disjoint_blocks (blocks (L[i := bs]))"
    using lists_invD(3) [OF li] unfolding bl disjoint_blocks_def by blast
  then have lists: "lists_inv (mem s) ((free_lists s)[i := ?next]) (L[i := bs])"
    using dist vs by (intro lists_inv_update [OF li i seg]) auto
  obtain fm ls where upd: "mark_empty ?next (int i) s = Some (s\<lparr>free_map := fm, last_free_small_size := ls\<rparr>)"
    and map: "map_inv fm ls (L[i := bs])"
    using mark_empty_ok [OF free_invD(2) [OF inv] len(1) i next0] L by auto
  let ?s = "s\<lparr>free_map := fm, last_free_small_size := ls, free_lists := (free_lists s)[i := ?next]\<rparr>"
  have b0: "free_lists s ! i = fst b" "fst b \<noteq> 0" using head(3) [OF L] valid_fst [OF valid] by auto
  have "DequeueElement (int i) s = Some (?s, fst b)"
    using b0 i len(2) upd by (simp add: DequeueElement_def)
  moreover have "free_inv ?s (L[i := bs])" using lists map by (simp add: free_inv_def)
  ultimately show ?thesis using bl by (intro exI [of _ ?s]) simp
qed

subsection \<open>Protection and splitting\<close>

text \<open>
  What a step of an allocation does to the memory: it writes words in \<open>X\<close> only, it makes no page
  writable, the addresses in \<open>R\<close> stay writable, and without protection no page changes.
\<close>

definition keeps :: "int set \<Rightarrow> int set \<Rightarrow> bool \<Rightarrow> memory \<Rightarrow> memory \<Rightarrow> bool" where
  "keeps X R is_protected m m' \<longleftrightarrow> off X m m' \<and> page_size m' = page_size m \<and>
     (\<forall>p. writable m' p \<longrightarrow> writable m p) \<and> (\<forall>x\<in>R. may_write m x \<longrightarrow> may_write m' x) \<and>
     (\<not> is_protected \<longrightarrow> writable m' = writable m)"

lemma keeps_trans: "keeps X R prot a b \<Longrightarrow> keeps X R prot b c \<Longrightarrow> keeps X R prot a c"
  by (auto simp: keeps_def off_def)

lemma keeps_mono: "keeps X R prot a b \<Longrightarrow> X \<subseteq> Y \<Longrightarrow> S \<subseteq> R \<Longrightarrow> keeps Y S prot a b"
  by (auto simp: keeps_def off_def)

lemma keeps_refl [simp]: "keeps X R prot a a"
  by (simp add: keeps_def)

lemma keeps_same_pages: "same_pages m m' \<Longrightarrow> off X m m' \<Longrightarrow> keeps X R prot m m'"
  by (simp add: keeps_def same_pages_def may_write_def page_def)

lemma keeps_pages_ok: "keeps X R prot m m' \<Longrightarrow> pages_ok k m' = pages_ok k m \<and> page m' = page m"
  by (simp add: keeps_def pages_ok_def page_def fun_eq_iff)

lemma free_inv_word_at:
  assumes "free_inv s L" and "word_at (mem s') = word_at (mem s)" and "free_lists s' = free_lists s"
    and "free_map s' = free_map s" and "last_free_small_size s' = last_free_small_size s"
  shows "free_inv s' L"
  using assms lists_inv_off [of "mem s" "free_lists s" L "{}" "mem s'"] by (simp add: free_inv_def off_def)

lemma protect_when_ok:
  assumes "pages_ok k (mem s)" and "0 \<le> a" "0 < len" "a + len < 2 ^ 64"
  shows "\<exists>s'. protect_when b a len mode s = Some s' \<and> (free_inv s L \<longrightarrow> free_inv s' L) \<and>
    word_at (mem s') = word_at (mem s) \<and> page_size (mem s') = page_size (mem s) \<and>
    writable (mem s') = (\<lambda>p. if b \<and> page (mem s) a \<le> p \<and> p \<le> page (mem s) (a + len - 1)
      then mode = kReadWrite else writable (mem s) p)"
proof (cases b)
  case True
  let ?s = "s\<lparr>mem := (mem s)\<lparr>writable := (\<lambda>p.
    if page (mem s) a \<le> p \<and> p \<le> page (mem s) (a + len - 1) then mode = kReadWrite else writable (mem s) p)\<rparr>\<rparr>"
  have "protect_when b a len mode s = Some ?s"
    using Protect_eq [OF assms] True by (simp add: protect_when_def)
  moreover have "free_inv s L \<longrightarrow> free_inv ?s L" using free_inv_word_at [of s L ?s] by simp
  ultimately show ?thesis using True by (intro exI [of _ ?s]) simp
next
  case False
  then show ?thesis by (simp add: protect_when_def)
qed

definition rest :: "int \<times> int \<Rightarrow> int \<Rightarrow> (int \<times> int) set" where
  "rest b sz = (if sz = snd b then {} else {(fst b + sz, snd b - sz)})"

lemma valid_rest:
  assumes "valid_block (a, n)" "16 \<le> sz" "16 dvd sz" "sz < n"
  shows "valid_block (a + sz, n - sz)" "extent (a + sz, n - sz) \<subseteq> extent (a, n)" "16 \<le> n - sz"
proof -
  have "16 dvd n - sz" using assms by (auto simp: valid_block_def)
  then have "16 \<le> n - sz" using assms(4) by (intro zdvd_imp_le) auto
  then show "valid_block (a + sz, n - sz)" "extent (a + sz, n - sz) \<subseteq> extent (a, n)" "16 \<le> n - sz"
    using assms \<open>16 dvd n - sz\<close> by (auto simp: valid_block_def extent_def)
qed

lemma header_writable:
  assumes "\<And>x. a \<le> x \<Longrightarrow> x < a + HeaderSizeFor n \<Longrightarrow> may_write m x" and "16 \<le> n"
  shows "may_write m a" "may_write m (a + 8)" "n > kMaxSizeTag \<Longrightarrow> may_write m (a + 16)"
  using assms(2) by (auto intro!: assms(1) simp: HeaderSizeFor_def konst)

lemma Split_ok:
  assumes inv: "free_inv s L" and valid: "valid_block (a, n)" and hd: "header (mem s) (a, n)"
    and dis: "\<forall>c\<in>blocks L. extent (a, n) \<inter> extent c = {}"
    and sz: "16 \<le> sz" "16 dvd sz" "sz \<le> n" and pg: "pages_ok k (mem s)"
    and w: "\<And>x. a + sz \<le> x \<Longrightarrow> x < a + sz + HeaderSizeFor (n - sz) \<Longrightarrow> may_write (mem s) x"
  shows "\<exists>s' L'. SplitElementAfterAndEnqueue a sz prot s = Some s' \<and> free_inv s' L' \<and>
    blocks L' = blocks L \<union> rest (a, n) sz \<and>
    keeps (\<Union>(extent ` rest (a, n) sz)) {..<a + sz} prot (mem s) (mem s')"
proof -
  have n: "16 \<le> n" using valid by (simp add: valid_block_def)
  have size: "Size (mem s) a = n" using header_Size [OF hd n] .
  show ?thesis
  proof (cases "sz = n")
    case True
    then show ?thesis using inv size by (auto simp: SplitElementAfterAndEnqueue_def rest_def)
  next
    case False
    then have "sz < n" using sz by simp
    note vr = valid_rest [OF valid sz(1,2) this]
    let ?r = "(a + sz, n - sz)"
    have addr: "uword_add a sz = a + sz" "uword_add (a + sz) (- 1) = a + sz - 1" "0 \<le> a + sz - 1"
      "a + sz < 2 ^ 64" "a + sz + (n - sz) < 2 ^ 64"
      using valid vr(1) by (auto simp: uword_add_def valid_block_def)
    obtain m1 where m1: "AsElement (a + sz) (n - sz) (mem s) = Some m1" "header m1 ?r"
      "same_pages (mem s) m1" "off (extent ?r) (mem s) m1"
      using AsElement_ok [OF vr(1)] header_writable [OF w vr(3)] by blast
    let ?s1 = "s\<lparr>mem := m1\<rparr>"
    have dis1: "\<forall>c\<in>blocks L. extent ?r \<inter> extent c = {}" using dis vr(2) by blast
    have "lists_inv m1 (free_lists s) L"
      by (rule lists_inv_off [OF free_invD(1) [OF inv] m1(4)]) (use dis1 in blast)
    then have inv1: "free_inv ?s1 L" using inv by (simp add: free_inv_def)
    have "may_write (mem ?s1) (a + sz + 8)"
      using header_writable(2) [OF w vr(3)] same_pages_simps [OF m1(3)] by simp
    from EnqueueElement_ok [OF inv1 vr(1) _ dis1 this] m1(2)
    obtain s2 L2 where s2: "EnqueueElement (a + sz) (int (list_index (n - sz))) ?s1 = Some s2"
      "free_inv s2 L2" "blocks L2 = insert ?r (blocks L)" "same_pages m1 (mem s2)"
      "off (extent ?r) m1 (mem s2)" by auto
    have same2: "same_pages (mem s) (mem s2)" using same_pages_trans [OF m1(3) s2(4)] .
    have k2: "keeps (extent ?r) {..<a + sz} prot (mem s) (mem s2)"
      using keeps_same_pages [OF same2 off_trans [OF m1(4) s2(5)]] .
    have pg2: "pages_ok k (mem s2)" "page (mem s2) = page (mem s)"
      using same_pages_simps [OF same2] pg by auto
    let ?same = "prot \<longrightarrow> page (mem s) (a + sz - 1) = page (mem s) (a + sz)"
    have insame: "(if prot then InSamePage (mem s2) (uword_add (a + sz) (- 1)) (a + sz) else Some True) = Some ?same"
      using InSamePage_eq [OF pg2(1), of "a + sz - 1" "a + sz"] addr pg2(2) by auto
    obtain s3 where s3: "protect_when (\<not> ?same) (a + sz) (n - sz) kReadExecute s2 = Some s3" "free_inv s3 L2"
      "word_at (mem s3) = word_at (mem s2)" "page_size (mem s3) = page_size (mem s2)"
      "writable (mem s3) = (\<lambda>p. if \<not> ?same \<and> page (mem s) (a + sz) \<le> p \<and>
         p \<le> page (mem s) (a + sz + (n - sz) - 1) then False else writable (mem s2) p)"
      using protect_when_ok [OF pg2(1), of "a + sz" "n - sz" "\<not> ?same" kReadExecute L2] addr vr s2(2) pg2(2)
      by auto
    have pg3: "page (mem s3) = page (mem s2)" using s3(4) by (simp add: page_def fun_eq_iff)
    have "may_write (mem s3) x" if "x < a + sz" "may_write (mem s2) x" for x
    proof -
      have "page (mem s) x \<le> page (mem s) (a + sz - 1)" "page (mem s) (a + sz - 1) \<le> page (mem s) (a + sz)"
        using that page_mono [OF pg] by auto
      then have "\<not> ?same \<Longrightarrow> page (mem s) x < page (mem s) (a + sz)" by auto
      then show ?thesis using that(2) s3(5) pg2 pg3 by (auto simp: may_write_def)
    qed
    then have "keeps (extent ?r) {..<a + sz} prot (mem s2) (mem s3)"
      using s3(3-5) by (auto simp: keeps_def off_def)
    then have "keeps (extent ?r) {..<a + sz} prot (mem s) (mem s3)" using keeps_trans k2 by blast
    moreover have "SplitElementAfterAndEnqueue a sz prot s = Some s3"
      using False addr(1) size m1(1) IndexForSize_eq [OF vr(3)] vr(1) s2(1) insame s3(1)
      by (simp add: SplitElementAfterAndEnqueue_def valid_block_def)
    ultimately show ?thesis using s2(3) s3(2) False by (auto simp: rest_def)
  qed
qed

subsection \<open>The list of large blocks\<close>

definition previous_of :: "(int \<times> int) list \<Rightarrow> int" where
  "previous_of pre = (if pre = [] then 0 else fst (last pre))"

lemma segment_relink:
  assumes seg: "segment m p (xs @ [c]) q" and c: "valid_block c" and xs: "\<forall>b\<in>set xs. valid_block b \<and> extent b \<inter> extent c = {}"
    and q': "0 \<le> q'" "q' < 2 ^ 64"
    and m': "word_at m' = (word_at m)(next_address (fst c) := word_of_int q')"
  shows "segment m' p (xs @ [c]) q'"
proof -
  obtain r where r: "segment m p xs r" "r = fst c" "header m c" using seg by (auto simp: segment_append)
  have "off (extent c) m m'" using valid_next_address [OF c] m' by (auto simp: off_def)
  then have "segment m' p xs r" using segment_off [OF r(1)] xs by blast
  moreover have "header m' c"
    using r(3) m' by (cases c) (auto simp: header_def next_address_def kWordSize_def)
  moreover have "element_next m' (fst c) = q'"
    using q' m' by (simp add: element_next_def uint_word_of_int)
  ultimately show ?thesis using r(2) by (auto simp: segment_append)
qed

lemma unlink_lists:
  assumes inv: "free_inv s L" and L: "L ! 128 = pre @ b # post"
  shows "blocks (L[128 := pre @ post]) = blocks L - {b}"
    and "pre = [] \<Longrightarrow> free_inv (s\<lparr>free_lists := (free_lists s)[128 := element_next (mem s) (fst b)]\<rparr>)
      (L[128 := post])"
    and "pre \<noteq> [] \<Longrightarrow> word_at m' = (word_at (mem s))(next_address (fst (last pre)) :=
        word_of_int (element_next (mem s) (fst b)))
      \<Longrightarrow> free_inv (s\<lparr>mem := m'\<rparr>) (L[128 := pre @ post])"
proof -
  note li = free_invD(1) [OF inv] and len = free_invD(3,4) [OF inv]
  have i: "128 < (129 :: nat)" by simp
  have ne: "L ! 128 = [] \<longleftrightarrow> pre @ b # post = []" using L by simp
  note seg = lists_invD(4) [OF li i, unfolded L] and dist = lists_invD(5) [OF li i, unfolded L]
    and val = lists_invD(6) [OF li i, unfolded L]
  show bl: "blocks (L[128 := pre @ post]) = blocks L - {b}"
    using blocks_update [OF li i, of "pre @ post"] blocks_of_list [OF li i] val dist unfolding L by auto
  have sub: "set (pre @ b # post) \<subseteq> blocks L"
  proof
    fix x assume "x \<in> set (pre @ b # post)"
    then have "x \<in> set (L ! 128)" unfolding L .
    then show "x \<in> blocks L" unfolding blocks_nth using len(1) by (intro exI [of _ 128]) simp
  qed
  have dis: "disjoint_blocks (blocks (L[128 := pre @ post]))"
    using lists_invD(3) [OF li] unfolding bl disjoint_blocks_def by blast
  have map: "map_inv (free_map s) (last_free_small_size s) (L[128 := pre @ post])"
    by (rule map_inv_same [OF free_invD(2) [OF inv] _ len(1)]) simp
  obtain r where r: "segment (mem s) (free_lists s ! 128) pre r" "r = fst b"
    "segment (mem s) (element_next (mem s) (fst b)) post 0"
    using seg by (auto simp: segment_append)
  show "free_inv (s\<lparr>free_lists := (free_lists s)[128 := element_next (mem s) (fst b)]\<rparr>) (L[128 := post])"
    if "pre = []"
    using lists_inv_update [OF li i r(3)] dist val dis map that by (auto simp: free_inv_def)
  show "free_inv (s\<lparr>mem := m'\<rparr>) (L[128 := pre @ post])"
    if pre: "pre \<noteq> []" and m': "word_at m' = (word_at (mem s))(next_address (fst (last pre)) :=
        word_of_int (element_next (mem s) (fst b)))"
  proof -
    let ?c = "last pre" and ?xs = "butlast pre"
    have pre': "pre = ?xs @ [?c]" using pre by simp
    have c: "?c \<in> set (pre @ b # post)" "?c \<in> blocks L"
      using pre sub last_in_set [OF pre] by auto
    then have vc: "valid_block ?c" using val by blast
    have "?c \<notin> set ?xs" "set ?xs \<subseteq> set pre" "?c \<notin> set (b # post)"
    proof -
      have "distinct ((?xs @ [?c]) @ b # post)" using dist pre' by simp
      then show "?c \<notin> set ?xs" "?c \<notin> set (b # post)" by auto
      show "set ?xs \<subseteq> set pre" by (auto dest: in_set_butlastD)
    qed
    then have disc: "\<forall>x\<in>set ?xs \<union> set post. valid_block x \<and> extent x \<inter> extent ?c = {}"
    proof (intro ballI conjI)
      fix x assume x: "x \<in> set ?xs \<union> set post"
      then have xin: "x \<in> set (pre @ b # post)" "x \<noteq> ?c"
        using \<open>?c \<notin> set ?xs\<close> \<open>set ?xs \<subseteq> set pre\<close> \<open>?c \<notin> set (b # post)\<close> by auto
      then show "valid_block x" using val by blast
      show "extent x \<inter> extent ?c = {}"
        using lists_invD(3) [OF li] xin sub c(2) unfolding disjoint_blocks_def by blast
    qed
    have off: "off (extent ?c) (mem s) m'" using valid_next_address [OF vc] m' by (auto simp: off_def)
    have "segment m' (free_lists s ! 128) (?xs @ [?c]) (element_next (mem s) (fst b))"
    proof (rule segment_relink [OF _ vc _ _ _ m'])
      show "segment (mem s) (free_lists s ! 128) (?xs @ [?c]) r" using r(1) pre' by simp
      show "element_next (mem s) (fst b) < 2 ^ 64" using uint_lt2p [of "word_at (mem s) (next_address (fst b))"]
        by (simp add: element_next_def)
    qed (use disc in \<open>auto simp: element_next_def\<close>)
    moreover have "segment m' (element_next (mem s) (fst b)) post 0"
      by (rule segment_off [OF r(3) _ off]) (use disc in blast)
    ultimately have seg': "segment m' (free_lists s ! 128) (pre @ post) 0" using pre' by (metis segment_append)
    have other: "segment m' (free_lists s ! j) (L ! j) 0" if j: "j < 128" for j
    proof (rule segment_off [OF lists_invD(4) [OF li] _ off])
      show "\<forall>x\<in>set (L ! j). valid_block x \<and> extent x \<inter> extent ?c = {}"
      proof
        fix x assume x: "x \<in> set (L ! j)"
        have "list_index (snd x) = j" "list_index (snd ?c) = 128" "valid_block x"
          using lists_invD(6) [OF li _ x] val c(1) j by auto
        moreover have "x \<in> blocks L" unfolding blocks_nth using x j len(1) by (intro exI [of _ j]) simp
        ultimately show "valid_block x \<and> extent x \<inter> extent ?c = {}"
          using lists_invD(3) [OF li] c(2) j unfolding disjoint_blocks_def by (metis nat_neq_iff)
      qed
    qed (use j in simp)
    have "lists_inv m' (free_lists s) (L[128 := pre @ post])"
      unfolding lists_inv_def
    proof (intro conjI allI impI)
      fix j :: nat assume j: "j < 129"
      show "segment m' (free_lists s ! j) (L[128 := pre @ post] ! j) 0"
        using seg' other j len by (cases "j = 128") auto
      show "distinct (L[128 := pre @ post] ! j)"
        using dist lists_invD(5) [OF li j] len by (cases "j = 128") auto
      show "\<forall>b\<in>set (L[128 := pre @ post] ! j). valid_block b \<and> list_index (snd b) = j"
        using val lists_invD(6) [OF li j] len by (cases "j = 128") auto
    qed (use len dis in simp_all)
    then show ?thesis using map by (simp add: free_inv_def)
  qed
qed

lemma list_in_blocks: "free_inv s L \<Longrightarrow> i < 129 \<Longrightarrow> b \<in> set (L ! i) \<Longrightarrow> b \<in> blocks L"
  unfolding blocks_nth using free_invD(3) by metis

lemma in_blocks:
  assumes "free_inv s L" and "b \<in> blocks L"
  shows "valid_block b" and "header (mem s) b"
    and "c \<in> blocks L \<Longrightarrow> b \<noteq> c \<Longrightarrow> extent b \<inter> extent c = {}"
proof -
  note li = free_invD(1) [OF assms(1)]
  show "valid_block b" using blocks_valid [OF li assms(2)] .
  show "c \<in> blocks L \<Longrightarrow> b \<noteq> c \<Longrightarrow> extent b \<inter> extent c = {}"
    using lists_invD(3) [OF li] assms(2) unfolding disjoint_blocks_def by blast
  have i: "list_index (snd b) < 129" "b \<in> set (L ! list_index (snd b))"
    using blocks_index [OF li] assms(2) by blast+
  have "segment m p bs q \<Longrightarrow> b \<in> set bs \<Longrightarrow> header m b" for m p bs q
    by (induction bs arbitrary: p) auto
  then show "header (mem s) b" using lists_invD(4) [OF li i(1)] i(2) by blast
qed

lemma page_word:
  assumes pg: "pages_ok k m" and "16 dvd c"
  shows "page m (c + 15) = page m (c + 8)"
proof -
  obtain q where q: "c = 16 * q" using assms(2) by blast
  have k: "(2 :: int) ^ k = 16 * 2 ^ (k - 4)"
    using pg power_add [of "2 :: int" 4 "k - 4"] by (simp add: pages_ok_def)
  have "(16 * q + r) div (16 * 2 ^ (k - 4)) = q div 2 ^ (k - 4)" if "0 \<le> r" "r < 16" for r
    using that by (simp add: zdiv_zmult2_eq)
  then show ?thesis by (simp add: page_eq [OF pg] q k)
qed

lemma unlink_large_ok:
  assumes inv: "free_inv s L" and L: "L ! 128 = pre @ b # post" and pg: "pages_ok k (mem s)"
    and len: "0 < len" "len \<le> snd b"
    and w: "prot \<Longrightarrow> \<forall>x\<in>{fst b..<fst b + len}. may_write (mem s) x"
    and w': "\<not> prot \<Longrightarrow> \<forall>c\<in>blocks L. \<forall>x\<in>extent c. may_write (mem s) x"
  shows "\<exists>s' L'. unlink_large (previous_of pre) (fst b) len prot s = Some s' \<and> free_inv s' L' \<and>
    blocks L' = blocks L - {b} \<and>
    keeps (\<Union>(extent ` (blocks L - {b}))) {fst b..<fst b + len} prot (mem s) (mem s')"
proof (cases "pre = []")
  case True
  let ?s = "s\<lparr>free_lists := (free_lists s)[128 := element_next (mem s) (fst b)]\<rparr>"
  have "unlink_large (previous_of pre) (fst b) len prot s = Some ?s"
    using True write_at_int [of 128 "free_lists s"] free_invD(4) [OF inv]
    by (simp add: unlink_large_def previous_of_def kNumLists_def)
  then show ?thesis using unlink_lists(1,2) [OF inv L] True
    by (intro exI [of _ ?s] exI [of _ "L[128 := pre @ post]"]) simp
next
  case pre: False
  let ?c = "last pre"
  let ?t = "next_address (fst ?c)" and ?e = "fst b + len - 1"
  have dist: "distinct (pre @ b # post)" using lists_invD(5) [OF free_invD(1) [OF inv], of 128] L by simp
  have inL: "b \<in> blocks L" "?c \<in> blocks L" "?c \<noteq> b"
    using list_in_blocks [OF inv, of 128] dist pre unfolding L by (auto dest: last_in_set)
  note vb = in_blocks(1) [OF inv inL(1)] and vc = in_blocks(1) [OF inv inL(2)]
  have tin: "?t \<in> extent ?c" using valid_next_address [OF vc] .
  then have tout: "?t \<notin> extent b" using in_blocks(3) [OF inv inL(2,1)] inL(3) by blast
  have rng: "0 \<le> ?t" "?t + 8 < 2 ^ 64" "0 \<le> fst b" "fst b < 2 ^ 64" "0 \<le> ?e" "?e < 2 ^ 64" "fst b + len < 2 ^ 64"
    using vb vc len by (auto simp: valid_block_def next_address_def kWordSize_def split_def)
  have e: "uword_add (uword_add (fst b) len) (- 1) = ?e" using rng len by (simp add: uword_add_def)
  let ?prot = "prot \<and> page (mem s) ?t \<noteq> page (mem s) (fst b) \<and> page (mem s) ?t \<noteq> page (mem s) ?e"
  have test: "(if prot then do {
            s0 \<leftarrow> InSamePage (mem s) ?t (fst b);
            s1 \<leftarrow> InSamePage (mem s) ?t ?e;
            Some (\<not> s0 \<and> \<not> s1) } else Some False) = Some ?prot"
    using InSamePage_eq [OF pg, of ?t "fst b"] InSamePage_eq [OF pg, of ?t ?e] rng by auto
  obtain s1 where s1: "protect_when ?prot ?t kWordSize kReadWrite s = Some s1" "free_inv s1 L"
    "word_at (mem s1) = word_at (mem s)" "page_size (mem s1) = page_size (mem s)"
    "writable (mem s1) = (\<lambda>p. if ?prot \<and> page (mem s) ?t \<le> p \<and> p \<le> page (mem s) (?t + 8 - 1)
       then True else writable (mem s) p)"
    using protect_when_ok [OF pg, of ?t 8 ?prot kReadWrite L] rng inv by (auto simp: kWordSize_def)
  have pg1: "pages_ok k (mem s1)" "page (mem s1) = page (mem s)"
    using s1(4) pg by (auto simp: pages_ok_def page_def fun_eq_iff)
  have next1: "element_next (mem s1) (fst b) = element_next (mem s) (fst b)"
    using s1(3) by (simp add: element_next_def)
  have "may_write (mem s1) ?t"
  proof (cases "prot")
    case False
    then show ?thesis using w' inL(2) tin s1(5) pg1(2) by (auto simp: may_write_def)
  next
    case True
    have "fst b \<in> {fst b..<fst b + len}" "?e \<in> {fst b..<fst b + len}" using len by auto
    then have "writable (mem s) (page (mem s) (fst b))" "writable (mem s) (page (mem s) ?e)"
      using w [OF True] unfolding may_write_def by blast+
    then show ?thesis using s1(5) pg1(2) True page_mono [OF pg, of ?t "?t + 8 - 1"] by (auto simp: may_write_def)
  qed
  let ?v = "word_of_int (element_next (mem s) (fst b)) :: uword"
  let ?m2 = "(mem s1)\<lparr>word_at := (word_at (mem s1))(?t := ?v)\<rparr>"
  have st: "element_set_next (fst ?c) (element_next (mem s1) (fst b)) (mem s1) = Some ?m2"
    using store_eq [OF \<open>may_write (mem s1) ?t\<close>] next1 by (simp add: element_set_next_def)
  have inv2: "free_inv (s1\<lparr>mem := ?m2\<rparr>) (L[128 := pre @ post])"
    by (rule unlink_lists(3) [OF s1(2) L pre]) (simp add: next1)
  have pg2: "pages_ok k (mem (s1\<lparr>mem := ?m2\<rparr>))" using pg1(1) by (simp add: pages_ok_def)
  have page2: "page ?m2 = page (mem s)" using pg1(2) by (simp add: page_def fun_eq_iff)
  obtain s3 where s3: "protect_when ?prot ?t kWordSize kReadExecute (s1\<lparr>mem := ?m2\<rparr>) = Some s3"
    "free_inv s3 (L[128 := pre @ post])"
    "word_at (mem s3) = word_at ?m2" "page_size (mem s3) = page_size (mem s)"
    "writable (mem s3) = (\<lambda>p. if ?prot \<and> page (mem s) ?t \<le> p \<and> p \<le> page (mem s) (?t + 8 - 1)
       then False else writable (mem s1) p)"
    using protect_when_ok [OF pg2, of ?t 8 ?prot kReadExecute "L[128 := pre @ post]"] rng inv2 s1(4) page2
    by (auto simp: kWordSize_def)
  have page3: "page (mem s3) = page (mem s)" using s3(4) by (simp add: page_def fun_eq_iff)
  have wr3: "writable (mem s3) p \<longleftrightarrow> writable (mem s) p \<and>
      \<not> (?prot \<and> page (mem s) ?t \<le> p \<and> p \<le> page (mem s) (?t + 8 - 1))" for p
    using s3(5) s1(5) by auto
  have stay: "may_write (mem s3) x" if x: "x \<in> {fst b..<fst b + len}" and "may_write (mem s) x" for x
  proof -
    have "page (mem s) (?t + 8 - 1) = page (mem s) ?t"
      using page_word [OF pg, of "fst ?c"] vc
      by (simp add: valid_block_def next_address_def kWordSize_def split_def add.commute)
    moreover have "page (mem s) x \<noteq> page (mem s) ?t" if "?prot"
    proof (cases "?t < fst b")
      case True
      then have "page (mem s) ?t \<le> page (mem s) (fst b)" "page (mem s) (fst b) \<le> page (mem s) x"
        using x page_mono [OF pg] by auto
      then show ?thesis using that by auto
    next
      case False
      then have "?e \<le> ?t" using tout len by (simp add: extent_def)
      then have "page (mem s) x \<le> page (mem s) ?e" "page (mem s) ?e \<le> page (mem s) ?t"
        using x page_mono [OF pg] by auto
      then show ?thesis using that by auto
    qed
    ultimately show ?thesis using \<open>may_write (mem s) x\<close> wr3 page3 by (auto simp: may_write_def)
  qed
  have "keeps (\<Union>(extent ` (blocks L - {b}))) {fst b..<fst b + len} prot (mem s) (mem s3)"
    unfolding keeps_def
  proof (intro conjI)
    show "off (\<Union>(extent ` (blocks L - {b}))) (mem s) (mem s3)"
      using tin inL(2,3) s3(3) s1(3) by (auto simp: off_def)
    show "\<not> prot \<longrightarrow> writable (mem s3) = writable (mem s)" using wr3 by auto
  qed (use s3(4) wr3 stay in auto)
  moreover have "unlink_large (previous_of pre) (fst b) len prot s = Some s3"
    using pre valid_fst [OF vc] test s1(1) st s3(1) e
    by (simp add: unlink_large_def previous_of_def)
  ultimately show ?thesis using s3(2) unlink_lists(1) [OF inv L] by blast
qed

subsection \<open>Allocation\<close>

text \<open>
  What an allocation of \<open>sz\<close> bytes from a set \<open>B\<close> of free blocks achieves when it takes the block \<open>b\<close>:
  the remainder of \<open>b\<close> is free, words outside the free blocks are as before, so also those of the
  allocated part, the allocated part is writable, and only pages of that part and of the header of
  the remainder became writable.
\<close>

definition allocates_from ::
    "int \<Rightarrow> bool \<Rightarrow> (int \<times> int) set \<Rightarrow> (int \<times> int) \<Rightarrow> memory \<Rightarrow> free_list \<Rightarrow> bool" where
  "allocates_from sz prot B b m s' \<longleftrightarrow> b \<in> B \<and> sz \<le> snd b \<and>
     (\<exists>L'. free_inv s' L' \<and> blocks L' = B - {b} \<union> rest b sz) \<and>
     off (\<Union>(extent ` (B - {b} \<union> rest b sz))) m (mem s') \<and> page_size (mem s') = page_size m \<and>
     (\<forall>x\<in>{fst b..<fst b + sz}. may_write (mem s') x) \<and>
     (\<not> prot \<longrightarrow> writable (mem s') = writable m) \<and>
     (\<forall>p. writable (mem s') p \<longrightarrow> writable m p \<or>
        page m (fst b) \<le> p \<and> p \<le> page m (fst b + sz + HeaderSizeFor (snd b - sz) - 1))"

definition all_writable :: "memory \<Rightarrow> (int \<times> int) set \<Rightarrow> bool" where
  "all_writable m B \<longleftrightarrow> (\<forall>b\<in>B. \<forall>x\<in>extent b. may_write m x)"

definition region_open :: "bool \<Rightarrow> int \<Rightarrow> int \<Rightarrow> memory \<Rightarrow> memory \<Rightarrow> bool" where
  "region_open prot a len m m1 \<longleftrightarrow> word_at m1 = word_at m \<and> page_size m1 = page_size m \<and>
     writable m1 = (\<lambda>p. prot \<and> page m a \<le> p \<and> p \<le> page m (a + len - 1) \<or> writable m p)"

lemma region_open_writable:
  assumes "region_open prot a len m m1" and "pages_ok k m" and "prot \<or> (\<forall>x\<in>{a..<a + len}. may_write m x)"
    and "x \<in> {a..<a + len}"
  shows "may_write m1 x"
proof -
  have "page m1 = page m" using assms(1) by (simp add: region_open_def page_def fun_eq_iff)
  moreover have "page m a \<le> page m x" "page m x \<le> page m (a + len - 1)"
    using assms(4) page_mono [OF assms(2)] by auto
  ultimately show ?thesis using assms by (auto simp: region_open_def may_write_def)
qed

lemma region_le:
  assumes "valid_block (a, n)" "16 \<le> sz" "16 dvd sz" "sz \<le> n"
  shows "sz + HeaderSizeFor (n - sz) \<le> n" "0 < sz + HeaderSizeFor (n - sz)"
  using valid_rest(3) [OF assms(1-3)] assms by (cases "sz = n"; force simp: HeaderSizeFor_def konst)+

lemma allocates_from_split:
  assumes inv: "free_inv s L" and b: "b \<in> blocks L" and sz: "16 \<le> sz" "16 dvd sz" "sz \<le> snd b"
    and pg: "pages_ok k (mem s)" and aw: "\<not> prot \<Longrightarrow> all_writable (mem s) (blocks L)"
    and len: "len = sz + HeaderSizeFor (snd b - sz)" and op: "region_open prot (fst b) len (mem s) m1"
    and inv2: "free_inv s2 L2" "blocks L2 = blocks L - {b}"
    and k2: "keeps (\<Union>(extent ` (blocks L - {b}))) {fst b..<fst b + len} prot m1 (mem s2)"
  shows "\<exists>s3. SplitElementAfterAndEnqueue (fst b) sz prot s2 = Some s3 \<and>
    allocates_from sz prot (blocks L) b (mem s) s3"
proof -
  obtain a n where bn: "b = (a, n)" by (cases b)
  note vb = in_blocks(1) [OF inv b, unfolded bn] and hb = in_blocks(2) [OF inv b]
  have rl: "len \<le> n" "0 < len" using region_le [OF vb sz(1,2)] sz(3) len by (simp_all add: bn)
  have dis: "\<forall>c\<in>blocks L2. extent (a, n) \<inter> extent c = {}"
    using in_blocks(3) [OF inv b] inv2(2) by (auto simp: bn)
  have pages: "page_size (mem s2) = page_size (mem s)" "word_at m1 = word_at (mem s)" "page m1 = page (mem s)"
    using k2 op by (auto simp: keeps_def region_open_def page_def fun_eq_iff)
  have pg1: "pages_ok k m1" and pg2: "pages_ok k (mem s2)"
    using pg pages k2 by (auto simp: pages_ok_def keeps_def)
  have hd: "header (mem s2) (a, n)"
  proof (rule header_cong [of "mem s"])
    fix x assume "x \<in> extent (a, n)"
    then have "x \<notin> \<Union>(extent ` (blocks L - {b}))" using dis inv2(2) by auto
    then show "word_at (mem s2) x = word_at (mem s) x" using k2 pages(2) by (simp add: keeps_def off_def)
  qed (use hb vb in \<open>simp_all add: bn\<close>)
  have "prot \<or> (\<forall>x\<in>{a..<a + len}. may_write (mem s) x)"
    using aw b rl(1) unfolding all_writable_def by (force simp: bn extent_def)
  then have w1: "may_write m1 x" if "x \<in> {a..<a + len}" for x
    using region_open_writable [OF op pg] that by (auto simp: bn)
  then have w2: "may_write (mem s2) x" if "x \<in> {a..<a + len}" for x
    using k2 that by (auto simp: keeps_def bn)
  have "may_write (mem s2) x" if "a + sz \<le> x" "x < a + sz + HeaderSizeFor (n - sz)" for x
    using that sz(1) by (intro w2) (simp add: len bn)
  moreover have "sz \<le> n" using sz(3) by (simp add: bn)
  ultimately
  obtain s3 L3 where s3: "SplitElementAfterAndEnqueue a sz prot s2 = Some s3" "free_inv s3 L3"
    "blocks L3 = blocks L2 \<union> rest (a, n) sz"
    "keeps (\<Union>(extent ` rest (a, n) sz)) {..<a + sz} prot (mem s2) (mem s3)"
    using Split_ok [OF inv2(1) vb hd dis sz(1,2) _ pg2, of prot] by blast
  have "off (\<Union>(extent ` (blocks L - {b} \<union> rest b sz))) (mem s) (mem s3)"
    using k2 s3(4) pages(2) by (auto simp: keeps_def off_def bn)
  moreover have "\<forall>x\<in>{a..<a + sz}. may_write (mem s3) x"
  proof
    fix x assume x: "x \<in> {a..<a + sz}"
    then have "x \<in> {a..<a + len}" using region_le(2) len by (auto simp: bn HeaderSizeFor_def kWordSize_def)
    then show "may_write (mem s3) x" using w2 x s3(4) by (auto simp: keeps_def)
  qed
  moreover have "\<not> prot \<longrightarrow> writable (mem s3) = writable (mem s)"
    using s3(4) k2 op by (auto simp: keeps_def region_open_def)
  moreover have "\<forall>p. writable (mem s3) p \<longrightarrow> writable (mem s) p \<or> page (mem s) a \<le> p \<and> p \<le> page (mem s) (a + len - 1)"
    using s3(4) k2 op by (auto simp: keeps_def region_open_def bn)
  moreover have "page_size (mem s3) = page_size (mem s)" using s3(4) pages(1) by (simp add: keeps_def)
  ultimately have "allocates_from sz prot (blocks L) b (mem s) s3"
    using b sz(3) s3(2,3) inv2(2) by (auto simp: allocates_from_def bn len add.assoc)
  then show ?thesis using s3(1) by (auto simp: bn)
qed

lemma open_region:
  assumes inv: "free_inv s L" and b: "valid_block b" and pg: "pages_ok k (mem s)"
    and sz: "16 \<le> sz" "16 dvd sz" "sz \<le> snd b"
  shows "\<exists>s1. protect_when prot (fst b) (sz + HeaderSizeFor (snd b - sz)) kReadWrite s = Some s1 \<and>
    free_inv s1 L \<and> region_open prot (fst b) (sz + HeaderSizeFor (snd b - sz)) (mem s) (mem s1)"
proof -
  have "sz + HeaderSizeFor (snd b - sz) \<le> snd b" "0 < sz + HeaderSizeFor (snd b - sz)"
    using region_le [of "fst b" "snd b" sz] b sz by auto
  moreover have "0 \<le> fst b" "fst b + snd b < 2 ^ 64" using b by (auto simp: valid_block_def split_def)
  ultimately show ?thesis
    using protect_when_ok [OF pg, of "fst b" "sz + HeaderSizeFor (snd b - sz)" prot kReadWrite L] inv
    by (auto simp: region_open_def fun_eq_iff)
qed

lemma split_from_ok:
  assumes inv: "free_inv s L" and i: "i < 129" "L ! i = b # bs" and sz: "16 \<le> sz" "16 dvd sz" "sz \<le> snd b"
    and pg: "pages_ok k (mem s)" and aw: "\<not> prot \<Longrightarrow> all_writable (mem s) (blocks L)"
  shows "\<exists>s'. split_from (int i) sz prot s = Some (s', fst b) \<and> allocates_from sz prot (blocks L) b (mem s) s'"
proof -
  have b: "b \<in> blocks L" using list_in_blocks [OF inv i(1)] i(2) by simp
  note vb = in_blocks(1) [OF inv b] and hb = in_blocks(2) [OF inv b]
  obtain s1 where s1: "DequeueElement (int i) s = Some (s1, fst b)" "free_inv s1 (L[i := bs])"
    "blocks (L[i := bs]) = blocks L - {b}" "mem s1 = mem s"
    using DequeueElement_ok [OF inv i] by blast
  let ?len = "sz + HeaderSizeFor (snd b - sz)"
  obtain s2 where s2: "protect_when prot (fst b) ?len kReadWrite s1 = Some s2" "free_inv s2 (L[i := bs])"
    "region_open prot (fst b) ?len (mem s) (mem s2)"
    using open_region [OF s1(2) vb _ sz] pg s1(4) by auto
  obtain s3 where s3: "SplitElementAfterAndEnqueue (fst b) sz prot s2 = Some s3"
    "allocates_from sz prot (blocks L) b (mem s) s3"
    using allocates_from_split [OF inv b sz pg aw refl s2(3) s2(2) s1(3) keeps_refl] by blast
  have "Size (mem s1) (fst b) = snd b"
    using header_Size [of "mem s" "fst b" "snd b"] hb vb s1(4) by (simp add: valid_block_def split_def)
  then have "split_from (int i) sz prot s = Some (s3, fst b)"
    using s1(1) s2(1) s3(1) by (simp add: split_from_def)
  then show ?thesis using s3(2) by blast
qed

lemma exact_ok:
  assumes inv: "free_inv s L" and i: "i < 128" "L ! i = b # bs" and sz: "16 \<le> sz" "16 dvd sz" "list_index sz = i"
    and pg: "pages_ok k (mem s)" and aw: "\<not> prot \<Longrightarrow> all_writable (mem s) (blocks L)"
  shows "\<exists>s1 s2. DequeueElement (int i) s = Some (s1, fst b) \<and>
    protect_when prot (fst b) sz kReadWrite s1 = Some s2 \<and> allocates_from sz prot (blocks L) b (mem s) s2"
proof -
  have i': "i < 129" using i(1) by simp
  have b: "b \<in> blocks L" using list_in_blocks [OF inv i'] i(2) by simp
  note vb = in_blocks(1) [OF inv b]
  have "list_index (snd b) = i" using lists_invD(6) [OF free_invD(1) [OF inv] i'] i(2) by simp
  then have "nat (snd b div 16) = nat (sz div 16)" "16 dvd snd b" "16 \<le> snd b"
    using sz i(1) vb by (auto simp: list_index_def valid_block_def split_def split: if_splits)
  then have n: "snd b = sz" using sz by (auto elim!: dvdE)
  obtain s1 where s1: "DequeueElement (int i) s = Some (s1, fst b)" "free_inv s1 (L[i := bs])"
    "blocks (L[i := bs]) = blocks L - {b}" "mem s1 = mem s"
    using DequeueElement_ok [OF inv i' i(2)] by blast
  obtain s2 where s2: "protect_when prot (fst b) sz kReadWrite s1 = Some s2" "free_inv s2 (L[i := bs])"
    "region_open prot (fst b) sz (mem s) (mem s2)"
    using open_region [OF s1(2) vb _ sz(1,2), of k prot] pg s1(4) n by (auto simp: HeaderSizeFor_def)
  have w: "may_write (mem s2) x" if "x \<in> {fst b..<fst b + sz}" for x
    by (rule region_open_writable [OF s2(3) pg _ that])
      (use aw b n in \<open>auto simp: all_writable_def extent_def\<close>)
  have "allocates_from sz prot (blocks L) b (mem s) s2"
    using b n s2(2,3) s1(3) w
    by (auto simp: allocates_from_def rest_def region_open_def off_def HeaderSizeFor_def)
  then show ?thesis using s1(1) s2(1) by blast
qed

text \<open>
  The search in the list of large blocks takes the first block that is large enough.
\<close>

lemma allocate_large_loop_ok:
  assumes inv: "free_inv s L" and "L ! 128 = pre @ cur" and sz: "16 \<le> sz" "16 dvd sz"
    and pg: "pages_ok k (mem s)" and aw: "\<not> prot \<Longrightarrow> all_writable (mem s) (blocks L)"
  shows "\<exists>s' r. allocate_large_loop sz prot (previous_of pre) (case cur of [] \<Rightarrow> 0 | b # _ \<Rightarrow> fst b) s = Some (s', r) \<and>
    (case find (\<lambda>b. sz \<le> snd b) cur of
       None \<Rightarrow> s' = s \<and> r = 0
     | Some b \<Rightarrow> r = fst b \<and> allocates_from sz prot (blocks L) b (mem s) s')"
  using assms(2)
proof (induction cur arbitrary: pre)
  case Nil
  then show ?case by (simp add: allocate_large_loop.simps)
next
  case (Cons b cur)
  have b: "b \<in> blocks L" using list_in_blocks [OF inv, of 128] Cons.prems by simp
  note vb = in_blocks(1) [OF inv b] and hb = in_blocks(2) [OF inv b]
  have b0: "fst b \<noteq> 0" using valid_fst [OF vb] by simp
  have size: "Size (mem s) (fst b) = snd b"
    using header_Size [of "mem s" "fst b" "snd b"] hb vb by (simp add: valid_block_def split_def)
  show ?case
  proof (cases "sz \<le> snd b")
    case False
    have "segment (mem s) (free_lists s ! 128) (pre @ b # cur) 0"
      using lists_invD(4) [OF free_invD(1) [OF inv], of 128] Cons.prems by simp
    then have "element_next (mem s) (fst b) = (case cur of [] \<Rightarrow> 0 | b # _ \<Rightarrow> fst b)"
      by (auto simp: segment_append split: list.splits)
    then have "allocate_large_loop sz prot (previous_of pre) (fst b) s =
        allocate_large_loop sz prot (previous_of (pre @ [b])) (case cur of [] \<Rightarrow> 0 | b # _ \<Rightarrow> fst b) s"
      using False b0 size by (subst allocate_large_loop.simps) (simp add: previous_of_def)
    then show ?thesis using Cons.IH [of "pre @ [b]"] Cons.prems False by simp
  next
    case True
    let ?len = "sz + HeaderSizeFor (snd b - sz)"
    obtain s1 where s1: "protect_when prot (fst b) ?len kReadWrite s = Some s1" "free_inv s1 L"
      "region_open prot (fst b) ?len (mem s) (mem s1)"
      using open_region [OF inv vb pg sz True] by blast
    have pages: "page (mem s1) = page (mem s)" "pages_ok k (mem s1)"
      using s1(3) pg by (auto simp: region_open_def page_def pages_ok_def fun_eq_iff)
    have len: "0 < ?len" "?len \<le> snd b" using region_le [of "fst b" "snd b" sz] vb sz True by auto
    have w: "prot \<Longrightarrow> \<forall>x\<in>{fst b..<fst b + ?len}. may_write (mem s1) x"
      using region_open_writable [OF s1(3) pg] by blast
    have w': "\<not> prot \<Longrightarrow> \<forall>c\<in>blocks L. \<forall>x\<in>extent c. may_write (mem s1) x"
      using aw s1(3) pages(1) unfolding all_writable_def may_write_def by (simp add: region_open_def)
    obtain s2 L2 where s2: "unlink_large (previous_of pre) (fst b) ?len prot s1 = Some s2" "free_inv s2 L2"
      "blocks L2 = blocks L - {b}"
      "keeps (\<Union>(extent ` (blocks L - {b}))) {fst b..<fst b + ?len} prot (mem s1) (mem s2)"
      using unlink_large_ok [OF s1(2) Cons.prems pages(2) len w w'] by blast
    obtain s3 where s3: "SplitElementAfterAndEnqueue (fst b) sz prot s2 = Some s3"
      "allocates_from sz prot (blocks L) b (mem s) s3"
      using allocates_from_split [OF inv b sz True pg aw refl s1(3) s2(2-4)] by blast
    have "allocate_large_loop sz prot (previous_of pre) (fst b) s = Some (s3, fst b)"
      using True b0 size s1(1) s2(1) s3(1) by (subst allocate_large_loop.simps) simp
    then show ?thesis using True s3(2) by simp
  qed
qed

subsection \<open>The choice of a block\<close>

lemma list_index_mono: "m \<le> n \<Longrightarrow> list_index m \<le> list_index n"
  using zdiv_mono1 [of m n 16] by (auto simp: list_index_def)

lemma small_size:
  assumes "valid_block b" and "list_index (snd b) < 128"
  shows "snd b = 16 * int (list_index (snd b))"
  using assms by (auto simp: list_index_def valid_block_def split_def split: if_splits)

lemma small_iff: "valid_block b \<Longrightarrow> list_index (snd b) < 128 \<longleftrightarrow> snd b < 2048"
  by (auto simp: list_index_def valid_block_def split_def)

definition fitting :: "int \<Rightarrow> (int \<times> int) set \<Rightarrow> (int \<times> int) set" where
  "fitting sz B = {b \<in> B. sz \<le> snd b}"

definition best_small :: "int \<Rightarrow> (int \<times> int) set \<Rightarrow> (int \<times> int) \<Rightarrow> bool" where
  "best_small sz B b \<longleftrightarrow> (\<forall>c\<in>fitting sz B. snd c < 2048 \<longrightarrow> snd b \<le> snd c)"

text \<open>
  The search in the small lists, common to \<open>TryAllocateLocked\<close> and \<open>TryAllocateSmallLocked\<close>: the list
  of the size itself, or the next one above that is not empty.
\<close>

lemma small_search:
  assumes inv: "free_inv s L" and sz: "16 \<le> sz" "16 dvd sz"
  defines "i \<equiv> list_index sz"
  obtains (exact) b bs where "i < 128" "L ! i = b # bs"
      "(if int i \<noteq> kNumLists then BitSet_Test kNumLists (int i) (free_map s) else Some False) = Some True"
      "best_small sz (blocks L) b"
  | (above) j b bs where "i < j" "j < 128" "L ! j = b # bs" "sz \<le> snd b"
      "(if int i \<noteq> kNumLists then BitSet_Test kNumLists (int i) (free_map s) else Some False) = Some False"
      "(if int i + 1 < kNumLists then BitSet_Next kNumLists (int i + 1) (free_map s) else Some (- 1)) = Some (int j)"
      "best_small sz (blocks L) b"
  | (none) "(if int i \<noteq> kNumLists then BitSet_Test kNumLists (int i) (free_map s) else Some False) = Some False"
      "(if int i + 1 < kNumLists then BitSet_Next kNumLists (int i + 1) (free_map s) else Some (- 1)) = Some (- 1)"
      "\<forall>b\<in>fitting sz (blocks L). list_index (snd b) = 128"
proof -
  note li = free_invD(1) [OF inv] and map = map_invD [OF free_invD(2) [OF inv]]
  have small: "list_index (snd c) \<in> elems (free_map s)" "i \<le> list_index (snd c)" "valid_block c"
    if "c \<in> fitting sz (blocks L)" "list_index (snd c) < 128" for c
  proof -
    have c: "c \<in> blocks L" "sz \<le> snd c" using that(1) by (auto simp: fitting_def)
    then show "valid_block c" using blocks_valid [OF li] by blast
    have "c \<in> set (L ! list_index (snd c))" using blocks_index [OF li] c(1) by blast
    then show "list_index (snd c) \<in> elems (free_map s)" unfolding map(2) using that(2) by auto
    show "i \<le> list_index (snd c)" using list_index_mono [OF c(2)] by (simp add: i_def)
  qed
  have best: "best_small sz (blocks L) b" if b: "valid_block b" "list_index (snd b) = j" "j < 128"
    and least: "\<And>l. l \<in> elems (free_map s) \<Longrightarrow> i \<le> l \<Longrightarrow> j \<le> l" for b j
    unfolding best_small_def
  proof (intro ballI impI)
    fix c assume c: "c \<in> fitting sz (blocks L)" "snd c < 2048"
    then have vc: "valid_block c" using blocks_valid [OF li] by (auto simp: fitting_def)
    then have "list_index (snd c) < 128" using small_iff c(2) by blast
    then show "snd b \<le> snd c"
      using least small [OF c(1)] small_size [OF vc] small_size [OF b(1)] b(2,3) by fastforce
  qed
  have block: "valid_block b \<and> list_index (snd b) = j" if "L ! j = b # bs" "j < 128" for j b bs
    using lists_invD(6) [OF li, of j b] that by simp
  have i129: "i < 129" by (simp add: i_def list_index_le)
  consider (found) "i < 128" "i \<in> elems (free_map s)"
    | (higher) "(if int i \<noteq> kNumLists then BitSet_Test kNumLists (int i) (free_map s) else Some False) = Some False"
        "i \<notin> elems (free_map s)"
    using i129 BitSet_Test_eq [OF map(1), of i] map(2)
    by (cases "i < 128"; cases "i \<in> elems (free_map s)") (auto simp: kNumLists_def)
  then show thesis
  proof cases
    case found
    then obtain b bs where L: "L ! i = b # bs" unfolding map(2) by (auto simp: neq_Nil_conv)
    show thesis
      by (rule exact [OF found(1) L])
        (use found BitSet_Test_eq [OF map(1), of i] best block [OF L found(1)] in \<open>auto simp: kNumLists_def\<close>)
  next
    case higher
    let ?n = "least_from (elems (free_map s)) (Suc i)"
    have search: "(if int i + 1 < kNumLists then BitSet_Next kNumLists (int i + 1) (free_map s) else Some (- 1)) = Some ?n"
    proof (cases "int i + 1 < kNumLists")
      case True
      then show ?thesis using BitSet_Next_eq [OF map(1), of "Suc i"] by (simp add: add.commute)
    next
      case False
      then show ?thesis using bits.none_above [OF map(1), of "Suc i"] by (simp add: kNumLists_def)
    qed
    show thesis
    proof (rule least_from_cases [of "elems (free_map s)" "Suc i"])
      assume n: "?n = - 1" and no: "\<And>j. j \<in> elems (free_map s) \<Longrightarrow> j < Suc i"
      have "list_index (snd c) = 128" if c: "c \<in> fitting sz (blocks L)" for c
      proof (rule ccontr)
        assume "list_index (snd c) \<noteq> 128"
        then have "list_index (snd c) < 128" using list_index_le [of "snd c"] by simp
        from small [OF c this] no [of "list_index (snd c)"] higher(2) show False by (metis le_less_Suc_eq)
      qed
      then show thesis using none [OF higher(1)] search n by simp
    next
      fix j assume j: "?n = int j" "j \<in> elems (free_map s)" "Suc i \<le> j"
        "\<And>l. l \<in> elems (free_map s) \<Longrightarrow> Suc i \<le> l \<Longrightarrow> j \<le> l"
      then have j128: "j < 128" and "L ! j \<noteq> []" unfolding map(2) by auto
      then obtain b bs where L: "L ! j = b # bs" by (auto simp: neq_Nil_conv)
      note bj = block [OF L j128]
      have "i < 128" using j(3) j128 by simp
      then have "sz \<le> snd b"
        using small_size [of b] bj j128 j(3) sz by (auto simp: i_def list_index_def split: if_splits elim!: dvdE)
      moreover have "j \<le> l" if "l \<in> elems (free_map s)" "i \<le> l" for l
        using j(4) that higher(2) by (metis Suc_leI le_neq_implies_less)
      then have "best_small sz (blocks L) b" using best [of b j] bj j128 by blast
      ultimately show thesis using above [OF _ j128 L] search j higher(1) by simp
    qed
  qed
qed

subsection \<open>The operations\<close>

text \<open>
  \<open>represents s B\<close>: the free lists hold exactly the blocks \<open>B\<close>, and page sizes are powers of two.
\<close>

definition represents :: "free_list \<Rightarrow> (int \<times> int) set \<Rightarrow> bool" where
  "represents s B \<longleftrightarrow> (\<exists>L k. free_inv s L \<and> blocks L = B \<and> pages_ok k (mem s))"

lemma allocates_from_represents:
  assumes "allocates_from sz prot B b m s'" and "pages_ok k m"
  shows "represents s' (B - {b} \<union> rest b sz)"
  using assms unfolding represents_def allocates_from_def pages_ok_def by metis

lemma represents_valid: "represents s B \<Longrightarrow> b \<in> B \<Longrightarrow> valid_block b"
  and represents_disjoint: "represents s B \<Longrightarrow> disjoint_blocks B"
  unfolding represents_def using free_invD(1) blocks_valid lists_invD(3) by metis+

lemma Reset_represents:
  assumes "pages_ok k (mem s)"
  shows "represents (Reset s) {}"
proof -
  let ?L = "replicate 129 [] :: (int \<times> int) list list"
  have bits: "bit_set_ok kNumLists (BitSet_Reset kNumLists)" "elems (BitSet_Reset kNumLists) = {}"
    using BitSet_Reset_ok [of kNumLists] by (auto simp: kNumLists_def)
  have "lists_inv (mem s) (replicate 129 0) ?L"
    by (simp add: lists_inv_def blocks_def disjoint_blocks_def)
  moreover have "map_inv (BitSet_Reset kNumLists) (- 1) ?L" using bits by (auto simp: map_inv_def)
  ultimately have "free_inv (Reset s) ?L" by (simp add: free_inv_def Reset_def kNumLists_def)
  moreover have "blocks ?L = {}" by (simp add: blocks_def)
  moreover have "mem (Reset s) = mem s" by (simp add: Reset_def)
  ultimately show ?thesis using assms unfolding represents_def by metis
qed

lemma FreeLocked_represents:
  assumes rep: "represents s B" and valid: "valid_block (a, n)"
    and dis: "\<forall>c\<in>B. extent (a, n) \<inter> extent c = {}"
    and w: "\<And>x. a \<le> x \<Longrightarrow> x < a + HeaderSizeFor n \<Longrightarrow> may_write (mem s) x"
  shows "\<exists>s'. FreeLocked a n s = Some s' \<and> represents s' (insert (a, n) B) \<and>
    same_pages (mem s) (mem s') \<and> off (extent (a, n)) (mem s) (mem s')"
proof -
  obtain L k where L: "free_inv s L" "blocks L = B" "pages_ok k (mem s)" using rep by (auto simp: represents_def)
  have n: "16 \<le> n" "16 dvd n" using valid by (auto simp: valid_block_def)
  obtain m1 where m1: "AsElement a n (mem s) = Some m1" "header m1 (a, n)" "same_pages (mem s) m1"
    "off (extent (a, n)) (mem s) m1"
    using AsElement_ok [OF valid] header_writable [OF w n(1)] by blast
  have "lists_inv m1 (free_lists s) L"
    by (rule lists_inv_off [OF free_invD(1) [OF L(1)] m1(4)]) (use dis L(2) in blast)
  then have "free_inv (s\<lparr>mem := m1\<rparr>) L" using L(1) by (simp add: free_inv_def)
  moreover have "may_write (mem (s\<lparr>mem := m1\<rparr>)) (a + 8)"
    using header_writable(2) [OF w n(1)] same_pages_simps [OF m1(3)] by simp
  ultimately obtain s' L' where s': "EnqueueElement a (int (list_index n)) (s\<lparr>mem := m1\<rparr>) = Some s'"
    "free_inv s' L'" "blocks L' = insert (a, n) B" "same_pages m1 (mem s')" "off (extent (a, n)) m1 (mem s')"
    using EnqueueElement_ok [OF _ valid, of "s\<lparr>mem := m1\<rparr>" L] m1(2) dis L(2) by auto
  have sp: "same_pages (mem s) (mem s')" using same_pages_trans [OF m1(3) s'(4)] .
  then have "pages_ok k (mem s')" using same_pages_simps(3) L(3) by blast
  then have "represents s' (insert (a, n) B)" using s'(2,3) unfolding represents_def by blast
  moreover have "FreeLocked a n s = Some s'"
    using IndexForSize_eq [OF n] m1(1) s'(1) by (simp add: FreeLocked_def)
  ultimately show ?thesis using sp off_trans [OF m1(4) s'(5)] by blast
qed

lemma TryAllocateLocked_ok:
  assumes inv: "free_inv s L" and pg: "pages_ok k (mem s)" and sz: "16 \<le> sz" "16 dvd sz"
    and aw: "\<not> prot \<Longrightarrow> all_writable (mem s) (blocks L)"
  shows "\<exists>s' r. TryAllocateLocked sz prot s = Some (s', r) \<and>
    (if fitting sz (blocks L) = {} then r = 0 \<and> s' = s
     else \<exists>b. r = fst b \<and> allocates_from sz prot (blocks L) b (mem s) s' \<and> best_small sz (blocks L) b)"
proof -
  have idx: "IndexForSize sz = Some (int (list_index sz))" using IndexForSize_eq sz .
  have nonempty: "fitting sz (blocks L) \<noteq> {}" if "allocates_from sz prot (blocks L) b m s'" for b m s'
    using that unfolding allocates_from_def fitting_def by blast
  have result: ?thesis if "TryAllocateLocked sz prot s = Some (s', fst b)"
    "allocates_from sz prot (blocks L) b (mem s) s'" "best_small sz (blocks L) b" for s' b
    unfolding if_not_P [OF nonempty [OF that(2)]] using that by blast
  show ?thesis
  proof (rule small_search [OF inv sz])
    fix b bs
    assume i: "list_index sz < 128" "L ! list_index sz = b # bs"
      and test: "(if int (list_index sz) \<noteq> kNumLists then BitSet_Test kNumLists (int (list_index sz)) (free_map s)
        else Some False) = Some True" and best: "best_small sz (blocks L) b"
    obtain s1 s2 where s2: "DequeueElement (int (list_index sz)) s = Some (s1, fst b)"
      "protect_when prot (fst b) sz kReadWrite s1 = Some s2" "allocates_from sz prot (blocks L) b (mem s) s2"
      using exact_ok [OF inv i sz refl pg aw] by blast
    then have "TryAllocateLocked sz prot s = Some (s2, fst b)"
      unfolding TryAllocateLocked_def idx bind.bind_lunit test by simp
    then show ?thesis using s2(3) best by (rule result)
  next
    fix j b bs
    assume j: "j < 128" "L ! j = b # bs" "sz \<le> snd b"
      and test: "(if int (list_index sz) \<noteq> kNumLists then BitSet_Test kNumLists (int (list_index sz)) (free_map s)
        else Some False) = Some False"
      and search: "(if int (list_index sz) + 1 < kNumLists then BitSet_Next kNumLists (int (list_index sz) + 1) (free_map s)
        else Some (- 1)) = Some (int j)" and best: "best_small sz (blocks L) b"
    obtain s' where s': "split_from (int j) sz prot s = Some (s', fst b)"
      "allocates_from sz prot (blocks L) b (mem s) s'"
      using split_from_ok [OF inv _ j(2) sz j(3) pg aw] j(1) by auto
    then have "TryAllocateLocked sz prot s = Some (s', fst b)"
      unfolding TryAllocateLocked_def idx bind.bind_lunit test search by simp
    then show ?thesis using s'(2) best by (rule result)
  next
    assume test: "(if int (list_index sz) \<noteq> kNumLists then BitSet_Test kNumLists (int (list_index sz)) (free_map s)
        else Some False) = Some False"
      and search: "(if int (list_index sz) + 1 < kNumLists then BitSet_Next kNumLists (int (list_index sz) + 1) (free_map s)
        else Some (- 1)) = Some (- 1)"
      and large: "\<forall>b\<in>fitting sz (blocks L). list_index (snd b) = 128"
    have head: "read_at (free_lists s) kNumLists = Some (case L ! 128 of [] \<Rightarrow> 0 | b # _ \<Rightarrow> fst b)"
      using list_head [OF inv, of 128] by (auto simp: kNumLists_def split: list.splits)
    have "TryAllocateLocked sz prot s =
        allocate_large_loop sz prot (previous_of []) (case L ! 128 of [] \<Rightarrow> 0 | b # _ \<Rightarrow> fst b) s"
      unfolding TryAllocateLocked_def idx bind.bind_lunit test search head by (simp add: previous_of_def)
    then obtain s' r where r: "TryAllocateLocked sz prot s = Some (s', r)"
      "case find (\<lambda>b. sz \<le> snd b) (L ! 128) of None \<Rightarrow> s' = s \<and> r = 0
       | Some b \<Rightarrow> r = fst b \<and> allocates_from sz prot (blocks L) b (mem s) s'"
      using allocate_large_loop_ok [where prot = prot and pre = "[]" and cur = "L ! 128", OF inv _ sz pg aw] by auto
    have no_small: "best_small sz (blocks L) b" for b
      using large small_iff blocks_valid [OF free_invD(1) [OF inv]]
      unfolding best_small_def fitting_def by fastforce
    show ?thesis
    proof (cases "find (\<lambda>b. sz \<le> snd b) (L ! 128)")
      case None
      then have "\<forall>b\<in>set (L ! 128). \<not> sz \<le> snd b" by (auto simp: find_None_iff)
      then have "fitting sz (blocks L) = {}"
        using large blocks_index [OF free_invD(1) [OF inv]] unfolding fitting_def by fastforce
      then show ?thesis using r None by simp
    next
      case (Some b)
      then show ?thesis using r no_small by (intro result [of s' b]) simp_all
    qed
  qed
qed

subsection \<open>Small and large allocations\<close>

definition small_fitting :: "int \<Rightarrow> (int \<times> int) set \<Rightarrow> (int \<times> int) set" where
  "small_fitting sz B = {b \<in> fitting sz B. snd b < 2048}"

definition large_fitting :: "int \<Rightarrow> (int \<times> int) set \<Rightarrow> (int \<times> int) set" where
  "large_fitting sz B = {b \<in> fitting sz B. 2048 \<le> snd b}"

lemma last_small_size:
  assumes inv: "free_inv s L" and c: "c \<in> blocks L" "snd c < 2048"
  shows "snd c \<le> last_free_small_size s"
proof -
  note li = free_invD(1) [OF inv] and map = map_invD [OF free_invD(2) [OF inv]]
  have vc: "valid_block c" using blocks_valid [OF li c(1)] .
  then have j: "list_index (snd c) < 128" using small_iff c(2) by blast
  have "c \<in> set (L ! list_index (snd c))" using blocks_index [OF li] c(1) by blast
  then have el: "list_index (snd c) \<in> elems (free_map s)" unfolding map(2) using j by auto
  then have "last_free_small_size s = 16 * int (Max (elems (free_map s)))" by (intro map(3)) blast
  moreover have "list_index (snd c) \<le> Max (elems (free_map s))" using el by simp
  ultimately show ?thesis using small_size [OF vc j] by simp
qed

lemma TryAllocateSmallLocked_ok:
  assumes inv: "free_inv s L" and pg: "pages_ok k (mem s)" and sz: "16 \<le> sz" "16 dvd sz"
    and aw: "all_writable (mem s) (blocks L)"
  shows "\<exists>s' r. TryAllocateSmallLocked sz s = Some (s', r) \<and>
    (if small_fitting sz (blocks L) = {} then r = 0 \<and> s' = s
     else \<exists>b\<in>small_fitting sz (blocks L). r = fst b \<and> allocates_from sz False (blocks L) b (mem s) s' \<and>
       best_small sz (blocks L) b)"
proof -
  have idx: "IndexForSize sz = Some (int (list_index sz))" using IndexForSize_eq sz .
  have result: ?thesis if "TryAllocateSmallLocked sz s = Some (s', fst b)"
    "allocates_from sz False (blocks L) b (mem s) s'" "best_small sz (blocks L) b" "snd b < 2048" for s' b
  proof -
    have b: "b \<in> small_fitting sz (blocks L)"
      using that(2,4) unfolding allocates_from_def small_fitting_def fitting_def by blast
    then have "small_fitting sz (blocks L) \<noteq> {}" by blast
    from if_not_P [OF this] show ?thesis using that b by auto
  qed
  have small: "snd b < 2048" if "L ! j = b # bs" "j < 128" for j b bs
    using lists_invD(6) [OF free_invD(1) [OF inv], of j b] that small_iff [of b] by simp
  show ?thesis
  proof (cases "sz > last_free_small_size s")
    case True
    then have "small_fitting sz (blocks L) = {}"
      using last_small_size [OF inv] unfolding small_fitting_def fitting_def by fastforce
    then show ?thesis using True by (simp add: TryAllocateSmallLocked_def)
  next
    case False
    note un = TryAllocateSmallLocked_def [of sz s, unfolded if_not_P [OF False] idx bind.bind_lunit]
    show ?thesis
    proof (rule small_search [OF inv sz])
      fix b bs
      assume i: "list_index sz < 128" "L ! list_index sz = b # bs"
        and test: "(if int (list_index sz) \<noteq> kNumLists then BitSet_Test kNumLists (int (list_index sz)) (free_map s)
          else Some False) = Some True" and best: "best_small sz (blocks L) b"
      obtain s1 where s1: "DequeueElement (int (list_index sz)) s = Some (s1, fst b)"
        "allocates_from sz False (blocks L) b (mem s) s1"
        using exact_ok [where prot = False, OF inv i sz refl pg aw] by (auto simp: protect_when_def)
      then have "TryAllocateSmallLocked sz s = Some (s1, fst b)" unfolding un test by simp
      then show ?thesis using s1(2) best small [OF i(2,1)] by (rule result)
    next
      fix j b bs
      assume j: "j < 128" "L ! j = b # bs" "sz \<le> snd b"
        and test: "(if int (list_index sz) \<noteq> kNumLists then BitSet_Test kNumLists (int (list_index sz)) (free_map s)
          else Some False) = Some False"
        and search: "(if int (list_index sz) + 1 < kNumLists then BitSet_Next kNumLists (int (list_index sz) + 1) (free_map s)
          else Some (- 1)) = Some (int j)" and best: "best_small sz (blocks L) b"
      obtain s' where s': "split_from (int j) sz False s = Some (s', fst b)"
        "allocates_from sz False (blocks L) b (mem s) s'"
        using split_from_ok [where prot = False, OF inv _ j(2) sz j(3) pg aw] j(1) by auto
      then have "TryAllocateSmallLocked sz s = Some (s', fst b)" unfolding un test search by simp
      then show ?thesis using s'(2) best small [OF j(2,1)] by (rule result)
    next
      assume test: "(if int (list_index sz) \<noteq> kNumLists then BitSet_Test kNumLists (int (list_index sz)) (free_map s)
          else Some False) = Some False"
        and search: "(if int (list_index sz) + 1 < kNumLists then BitSet_Next kNumLists (int (list_index sz) + 1) (free_map s)
          else Some (- 1)) = Some (- 1)"
        and large: "\<forall>b\<in>fitting sz (blocks L). list_index (snd b) = 128"
      have "small_fitting sz (blocks L) = {}"
        using large small_iff blocks_valid [OF free_invD(1) [OF inv]]
        unfolding small_fitting_def fitting_def by fastforce
      moreover have "TryAllocateSmallLocked sz s = Some (s, 0)" unfolding un test search by simp
      ultimately show ?thesis by simp
    qed
  qed
qed

lemma unlink_unprotected:
  "unlink_large previous current len False s =
     (if previous = 0 then do {
        fl \<leftarrow> write_at (free_lists s) kNumLists (element_next (mem s) current);
        Some (s\<lparr>free_lists := fl\<rparr>) }
      else do {
        m \<leftarrow> element_set_next previous (element_next (mem s) current) (mem s);
        Some (s\<lparr>mem := m\<rparr>) })"
  by (simp add: unlink_large_def protect_when_def)

lemma take_large_loop_ok:
  assumes inv: "free_inv s L" and "L ! 128 = pre @ cur" and pg: "pages_ok k (mem s)"
    and aw: "all_writable (mem s) (blocks L)"
  shows "\<exists>s' r. take_large_loop sz (previous_of pre) (case cur of [] \<Rightarrow> 0 | b # _ \<Rightarrow> fst b) s = Some (s', r) \<and>
    (case find (\<lambda>b. sz \<le> snd b) cur of
       None \<Rightarrow> s' = s \<and> r = 0
     | Some b \<Rightarrow> r = fst b \<and> represents s' (blocks L - {b}) \<and>
         keeps (\<Union>(extent ` (blocks L - {b}))) {} False (mem s) (mem s'))"
  using assms(2)
proof (induction cur arbitrary: pre)
  case Nil
  then show ?case by (simp add: take_large_loop.simps)
next
  case (Cons b cur)
  have b: "b \<in> blocks L" using list_in_blocks [OF inv, of 128] Cons.prems by simp
  note vb = in_blocks(1) [OF inv b] and hb = in_blocks(2) [OF inv b]
  have b0: "fst b \<noteq> 0" "0 < snd b" using vb by (auto simp: valid_block_def split_def)
  have size: "Size (mem s) (fst b) = snd b"
    using header_Size [of "mem s" "fst b" "snd b"] hb vb by (simp add: valid_block_def split_def)
  show ?case
  proof (cases "sz \<le> snd b")
    case False
    have "segment (mem s) (free_lists s ! 128) (pre @ b # cur) 0"
      using lists_invD(4) [OF free_invD(1) [OF inv], of 128] Cons.prems by simp
    then have "element_next (mem s) (fst b) = (case cur of [] \<Rightarrow> 0 | b # _ \<Rightarrow> fst b)"
      by (auto simp: segment_append split: list.splits)
    then have "take_large_loop sz (previous_of pre) (fst b) s =
        take_large_loop sz (previous_of (pre @ [b])) (case cur of [] \<Rightarrow> 0 | b # _ \<Rightarrow> fst b) s"
      using False b0 size by (subst take_large_loop.simps) (simp add: previous_of_def)
    then show ?thesis using Cons.IH [of "pre @ [b]"] Cons.prems False by simp
  next
    case True
    obtain s2 L2 where s2: "unlink_large (previous_of pre) (fst b) (snd b) False s = Some s2" "free_inv s2 L2"
      "blocks L2 = blocks L - {b}"
      "keeps (\<Union>(extent ` (blocks L - {b}))) {fst b..<fst b + snd b} False (mem s) (mem s2)"
      using unlink_large_ok [where prot = False, OF inv Cons.prems pg b0(2) order_refl] aw
      unfolding all_writable_def by blast
    have "take_large_loop sz (previous_of pre) (fst b) s = Some (s2, fst b)"
      using True b0 size s2(1) [unfolded unlink_unprotected]
      by (subst take_large_loop.simps) (auto split: if_splits)
    moreover have "represents s2 (blocks L - {b})"
      using s2(2,3) keeps_pages_ok [OF s2(4)] pg unfolding represents_def by metis
    ultimately show ?thesis using True keeps_mono [OF s2(4) order_refl empty_subsetI] by simp
  qed
qed

lemma TryAllocateLargeLocked_ok:
  assumes inv: "free_inv s L" and pg: "pages_ok k (mem s)" and aw: "all_writable (mem s) (blocks L)"
  shows "\<exists>s' r. TryAllocateLargeLocked sz s = Some (s', r) \<and>
    (if large_fitting sz (blocks L) = {} then r = 0 \<and> s' = s
     else \<exists>b\<in>large_fitting sz (blocks L). r = fst b \<and> represents s' (blocks L - {b}) \<and>
       keeps (\<Union>(extent ` (blocks L - {b}))) {} False (mem s) (mem s'))"
proof -
  have fit: "large_fitting sz (blocks L) = {b \<in> set (L ! 128). sz \<le> snd b}"
  proof -
    have "list_index (snd b) = 128 \<longleftrightarrow> 2048 \<le> snd b" if "b \<in> blocks L" for b
      using small_iff [OF blocks_valid [OF free_invD(1) [OF inv] that]] list_index_le [of "snd b"] by auto
    then show ?thesis
      using blocks_of_list [OF free_invD(1) [OF inv], of 128] unfolding large_fitting_def fitting_def by force
  qed
  have head: "read_at (free_lists s) kNumLists = Some (case L ! 128 of [] \<Rightarrow> 0 | b # _ \<Rightarrow> fst b)"
    using list_head [OF inv, of 128] by (auto simp: kNumLists_def split: list.splits)
  obtain s' r where r: "TryAllocateLargeLocked sz s = Some (s', r)"
    "case find (\<lambda>b. sz \<le> snd b) (L ! 128) of None \<Rightarrow> s' = s \<and> r = 0
     | Some b \<Rightarrow> r = fst b \<and> represents s' (blocks L - {b}) \<and>
         keeps (\<Union>(extent ` (blocks L - {b}))) {} False (mem s) (mem s')"
    using take_large_loop_ok [OF inv _ pg aw, of "[]" "L ! 128" sz] head
    by (auto simp: TryAllocateLargeLocked_def previous_of_def)
  show ?thesis
  proof (cases "find (\<lambda>b. sz \<le> snd b) (L ! 128)")
    case None
    then have "large_fitting sz (blocks L) = {}" unfolding fit by (auto simp: find_None_iff)
    then show ?thesis using r None by simp
  next
    case (Some b)
    then have b: "b \<in> large_fitting sz (blocks L)" unfolding fit by (auto simp: find_Some_iff)
    then have "large_fitting sz (blocks L) \<noteq> {}" by blast
    from if_not_P [OF this] show ?thesis using r Some b by auto
  qed
qed

end
