(* ===== verification/Spec2Isabelle.thy ===== *)
theory Spec2Isabelle
  imports Range_Properties Port_Messages Data_Stream Case_Mapping Parallel_Move_Properties Free_List_Correct
begin

text \<open>
  Verification of parts of the Dart virtual machine, the C++ program under \<open>src/runtime\<close>.

  \<^bold>\<open>The program.\<close> The virtual machine compiles Dart functions and runs them in isolates. Five of its parts
  are modelled here, with the helpers they share.
  \<^item> The optimizing compiler infers integer ranges for the values of a function and removes array bounds
    checks and overflow checks that cannot fail (\<open>vm/flow_graph_range_analysis.h/.cc\<close>, with the fields of
    \<open>vm/intermediate_language.h\<close> it reads).
  \<^item> Isolates exchange messages: a port map takes port numbers to message handlers (\<open>vm/port.h/.cc\<close>), a
    handler keeps two queues of messages (\<open>vm/message.h/.cc\<close>) and handles them on a task of a thread pool
    (\<open>vm/message_handler.h/.cc\<close>). Port numbers are drawn from a generator (\<open>vm/random.h/.cc\<close>).
  \<^item> Snapshots and messages are serialized to byte streams (\<open>vm/datastream.h\<close>).
  \<^item> Text is converted between UTF-8, UTF-16 and UTF-32 (\<open>vm/unicode.h/.cc\<close>), and strings are built from and
    turned into such arrays (class \<open>String\<close> of \<open>vm/object.h/.cc\<close>), also with the case of their letters changed
    (\<open>vm/unicode_data.cc\<close>).
  \<^item> All of them use the integer helpers of \<open>platform/utils.h/.cc\<close>.

  \<^bold>\<open>The model.\<close> It is that of the 64-bit DEBUG build. A function of the source is a function here, under the
  name of the source where that is possible; a class is a record; a heap of linked objects is a map from
  addresses. The value \<open>None\<close> stands for a failed \<open>ASSERT\<close>, \<open>UNREACHABLE\<close>, and every C++ expression without
  defined behaviour (signed overflow, a shift by the width of the type, a read or write outside of an array,
  a null pointer). So a theorem that an operation yields \<open>Some\<close> says that none of these happens. Signed integers
  are \<open>int\<close> with explicit range checks, unsigned ones are words.

  \<^bold>\<open>Theories and what they show.\<close>
  \<^item> \<open>Prelude\<close>: constants of \<open>platform/globals.h\<close>, the option monad, arrays. \<open>Dart_Utils\<close>: class \<open>Utils\<close>, with
    exact characterizations of the overflow tests, the bit counts and the rounding to powers of two.
  \<^item> \<open>Range_Boundary\<close> and \<open>Range_Arith\<close>: classes \<open>RangeBoundary\<close> and \<open>Range\<close>. \<open>Range_Infer\<close>: \<open>InferRange\<close> of every
    instruction, widening, narrowing, the fixpoint iteration \<open>InferRanges\<close>, and \<open>CheckArrayBoundInstr::IsRedundant\<close>.
  \<^item> \<open>Range_Soundness\<close>, \<open>Range_Transfer\<close>, \<open>Range_Infer_Sound\<close>: the meaning of boundaries and ranges in an execution
    of the function, and that every computed range contains the value. The locales \<open>boundary_walk\<close> and
    \<open>sound_transfer\<close> state the contracts of the symbolic walks and of the transfer functions. \<open>Range_Termination\<close>:
    the walks return on graphs with a rank. \<open>Range_Properties\<close>: the resulting properties, among them that a bounds
    check declared redundant cannot fail, and three places where the code is wrong.
  \<^item> \<open>Message_Queue\<close>: the intrusive list refines a sequence of messages (locale \<open>fifo_queue\<close>). \<open>Message_Handler\<close>:
    handlers refine a pair of sequences, the life of a handler is the inductive predicate \<open>handler_reach\<close>, and in
    all reachable states no pending message is left without a scheduled task.
  \<^item> \<open>Dart_Random\<close>: the generator. \<open>Port_Map\<close>: the open-addressing hash table refines a partial map (locale
    \<open>port_table\<close>), every probe ends. \<open>Port_Messages\<close>: the composition of ports, handlers and queues: delivery,
    closing, the count of live ports.
  \<^item> \<open>Data_Stream\<close>: what is written is read back, for every encoding (locales \<open>codec\<close> and \<open>stream_codec\<close>).
  \<^item> \<open>Dart_Unicode\<close>: decoding is exactly the inverse of encoding, validation accepts exactly the encodings, the
    decoding loops (locale \<open>unit_writer\<close>) write what they should. \<open>Dart_Strings\<close>: strings and their
    conversions: every string survives the trip through UTF-8. \<open>Case_Tables\<close> and \<open>Case_Mapping\<close>: the tables of the
    case mapping and the conversion of strings to upper and lower case (locale \<open>code_point_mapping\<close>).

  \<^bold>\<open>Loops.\<close> No fuel is used. A loop that ends because of its arguments is a function with a termination proof; a
  loop that ends only under an invariant of the data structure (the probes of the hash table, the symbolic walks
  of range analysis, the message loop, the draw of an unused port) is a \<open>partial_function\<close> into \<open>option\<close>, and that
  it returns is a property of its own.

  \<^bold>\<open>Parameters.\<close> Code that is reached through a function pointer or a virtual method is a parameter: the methods
  of a message handler (\<open>handler_env\<close>), the reallocation function of a stream (\<open>realloc\<close>, of which it is assumed that
  it keeps the old contents and yields the requested size), and the contents of newly allocated strings.

  \<^bold>\<open>Not modelled.\<close> Threads and locks: each operation that the source performs under a lock is one atomic step.
  Of range analysis, the passes that rewrite the instruction graph (constraint insertion, generalization of
  bounds checks, narrowing to 32 bits) are left out, because they need the whole intermediate language. The parser,
  the object model, the garbage collector, the code generators, the assemblers and simulators, snapshots, the
  debugger, the profiler and the service, the embedding API, the libraries under \<open>runtime/lib\<close> and the input and
  output under \<open>runtime/bin\<close> are not modelled: they operate on the heap of Dart objects, on machine code or on the
  operating system. Printing to JSON and tracing output are left out of every component.
\<close>

end
